(* ===== verification/Prelude.thy ===== *)
theory Prelude
  imports Main "HOL-Library.Word" "HOL-Library.Multiset"
begin

text \<open>
  Shared material of the development: the machine types of the 64-bit build, the error codes of
  \<^verbatim>\<open>net/include/errno.h\<close>, the list idioms behind the \<^verbatim>\<open>TAILQ\<close> macros of
  \<^verbatim>\<open>net/include/queue.h\<close>, byte blocks (what \<^verbatim>\<open>memcpy\<close> reads and writes) and the generic lemmas
  on lists and words the components use. The kernel is modelled as built for a 64-bit target
  (\<^verbatim>\<open>__SIZE_WIDTH__ == 64\<close>): \<^verbatim>\<open>size_t\<close> and \<^verbatim>\<open>uintptr_t\<close> are 64-bit words whose arithmetic wraps.
\<close>

unbundle bit_operations_syntax

section \<open>Machine types\<close>

type_synonym u8 = "8 word"
type_synonym u16 = "16 word"
type_synonym u32 = "32 word"
type_synonym u64 = "64 word"
type_synonym size_t = "64 word"
type_synonym uintptr_t = "64 word"

named_theorems word_to_nat \<open>transfer of word arithmetic to natural numbers\<close>
named_theorems list_block \<open>byte blocks read from and written to an array\<close>

lemma unat_of_nat64 [word_to_nat]: "n < 2 ^ 64 \<Longrightarrow> unat (of_nat n :: 64 word) = n"
  by (simp add: unat_of_nat)

lemma unat_lt64: "unat (x :: 64 word) < 2 ^ 64"
  using unsigned_less [of x] by simp

lemma of_nat_unat_diff: "of_nat (unat (x - a)) = x - a" for x a :: "64 word"
  by simp

lemma unat_add64:
  "unat x + unat y < 2 ^ 64 \<Longrightarrow> unat (x + y :: 64 word) = unat x + unat y"
  by (simp add: unat_plus_if')

lemma unat_diff64: "y \<le> x \<Longrightarrow> unat (x - y :: 64 word) = unat x - unat y"
  by (rule unat_sub)

lemma unat_diff_le: "unat y \<le> unat x \<Longrightarrow> unat (x - y :: 64 word) = unat x - unat y"
  by (simp add: unat_diff64 word_le_nat_alt)

lemma unat_min64: "unat (min x y :: 64 word) = min (unat x) (unat y)"
  by (simp add: min_def word_le_nat_alt)

lemmas word_nat = word_less_nat_alt word_le_nat_alt unat_sub_if' unat_plus_if' unat_mod unat_div
  word_unat_eq_iff

section \<open>Error codes\<close>

text \<open>The codes of \<^verbatim>\<open>errno.h\<close> the modelled code returns (negated) or tests.\<close>

datatype errno =
    E2BIG | EACCES | EADDRINUSE | EAFNOSUPPORT | EAGAIN | EBADF | EEXIST | EFAULT | EFBIG | EIDRM
  | EINTR | EINVAL | ENAMETOOLONG | ENETUNREACH | ENOENT | ENOMEM | ENOMSG | ENOSPC | ENOSYS
  | ENOTCONN | EOVERFLOW | EPERM | EPIPE | ERANGE | ESPIPE

text \<open>A fallible call: \<open>Inl e\<close> for a return value \<^verbatim>\<open>-e\<close>, \<open>Inr\<close> for a result.\<close>

type_synonym 'a result = "errno + 'a"

section \<open>Page constants\<close>

definition PAGE_SIZE :: size_t where
  "PAGE_SIZE = 4096"

definition PAGE_MASK :: size_t where
  "PAGE_MASK = 0xFFF"

section \<open>Ordered insertion into a tail queue\<close>

text \<open>
  The idiom of \<^verbatim>\<open>timer_add\<close>, \<^verbatim>\<open>add_waiting_thread\<close> and \<^verbatim>\<open>runq_enqueue\<close>: walk the queue, insert
  before the first element that satisfies a test, at the tail when there is none.
\<close>

fun insert_before_first :: "('a \<Rightarrow> bool) \<Rightarrow> 'a \<Rightarrow> 'a list \<Rightarrow> 'a list" where
  "insert_before_first P x [] = [x]"
| "insert_before_first P x (it # xs) =
     (if P it then x # it # xs else it # insert_before_first P x xs)"

lemma set_insert_before_first [simp]:
  "set (insert_before_first P x xs) = insert x (set xs)"
  by (induction xs) auto

lemma mset_insert_before_first [simp]:
  "mset (insert_before_first P x xs) = add_mset x (mset xs)"
  by (induction xs) auto

lemma distinct_insert_before_first [simp]:
  "distinct (insert_before_first P x xs) \<longleftrightarrow> x \<notin> set xs \<and> distinct xs"
  by (induction xs) auto

lemma sorted_insert_before_first:
  fixes f :: "'a \<Rightarrow> 'b::linorder"
  assumes "sorted (map f xs)"
  shows "sorted (map f (insert_before_first (\<lambda>it. f x < f it) x xs))"
  using assms by (induction xs) (auto simp: less_imp_le order.trans)

lemma insert_before_first_fifo:
  fixes f :: "'a \<Rightarrow> 'b::linorder"
  assumes "sorted (map f xs)"
  shows "filter (\<lambda>y. f y = f x) (insert_before_first (\<lambda>it. f x < f it) x xs)
       = filter (\<lambda>y. f y = f x) xs @ [x]"
  using assms
proof (induction xs)
  case Nil
  then show ?case by simp
next
  case (Cons y ys)
  show ?case
  proof (cases "f x < f y")
    case True
    with Cons.prems have "filter (\<lambda>z. f z = f x) (y # ys) = []"
      by (auto simp: filter_empty_conv)
    with True show ?thesis by simp
  next
    case False
    with Cons show ?thesis by simp
  qed
qed

lemma filter_insert_before_first_other:
  "\<not> Q x \<Longrightarrow> filter Q (insert_before_first P x xs) = filter Q xs"
  by (induction xs) auto

section \<open>Byte blocks\<close>

text \<open>
  \<open>block_read xs i n\<close> is what \<^verbatim>\<open>memcpy(dst, xs + i, n)\<close> reads and \<open>block_write xs i ys\<close> the array
  after \<^verbatim>\<open>memcpy(xs + i, ys, |ys|)\<close>.
\<close>

definition block_read :: "'a list \<Rightarrow> nat \<Rightarrow> nat \<Rightarrow> 'a list" where
  "block_read xs i n = take n (drop i xs)"

definition block_write :: "'a list \<Rightarrow> nat \<Rightarrow> 'a list \<Rightarrow> 'a list" where
  "block_write xs i ys = take i xs @ ys @ drop (i + length ys) xs"

lemma length_block_read [list_block, simp]:
  "i + n \<le> length xs \<Longrightarrow> length (block_read xs i n) = n"
  by (simp add: block_read_def)

lemma length_block_write [list_block, simp]:
  "i + length ys \<le> length xs \<Longrightarrow> length (block_write xs i ys) = length xs"
  by (simp add: block_write_def)

lemma nth_block_read [list_block, simp]:
  "i + n \<le> length xs \<Longrightarrow> k < n \<Longrightarrow> block_read xs i n ! k = xs ! (i + k)"
  by (simp add: block_read_def)

lemma nth_block_write [list_block]:
  assumes "i + length ys \<le> length xs" "k < length xs"
  shows "block_write xs i ys ! k =
    (if i \<le> k \<and> k < i + length ys then ys ! (k - i) else xs ! k)"
  using assms by (auto simp: block_write_def nth_append min_def)

lemma block_read_0 [simp]: "block_read xs i 0 = []"
  by (simp add: block_read_def)

lemma block_write_Nil [simp]: "block_write xs i [] = xs"
  by (simp add: block_write_def)

text \<open>A byte is its eight bits.\<close>

lemma bits8: "a = b \<longleftrightarrow> list_all (\<lambda>n. bit a n = bit b n) [0, 1, 2, 3, 4, 5, 6, 7]" for a b :: u8
proof -
  have "[0, 1, 2, 3, 4, 5, 6, 7] = [0..<8]" by (simp add: upt_rec)
  moreover have "a = b \<longleftrightarrow> (\<forall>n < 8. bit a n = bit b n)" by (auto intro: bit_word_eqI)
  ultimately show ?thesis by (simp only: list_all_iff set_upt) auto
qed

text \<open>Positions in a ring are distinct.\<close>

lemma add_mod_cancel:
  assumes "(t + a) mod m = (t + b) mod m" "a < m" "b < m"
  shows "a = (b :: nat)"
proof -
  have "m dvd b - a" if "a \<le> b" "(t + b) mod m = (t + a) mod m" for a b
    using that mod_eq_dvd_iff_nat [of "t + a" "t + b" m] by simp
  then have "m dvd b - a" "m dvd a - b" using assms(1) by (cases "a \<le> b"; simp)+
  moreover have "b - a < m" "a - b < m" using assms(2,3) by simp_all
  ultimately show ?thesis by (metis diff_is_0_eq dual_order.antisym nat_dvd_not_less not_gr_zero)
qed

section \<open>Transition systems\<close>

text \<open>
  What a component that is used by many threads promises: the steps of its operations keep an invariant that
  its initial states have, whatever the order in which they come.
\<close>

locale invariant_system =
  fixes start :: "'s \<Rightarrow> bool" and step :: "'s \<Rightarrow> 's \<Rightarrow> bool" and inv :: "'s \<Rightarrow> bool"
  assumes start_inv: "start s \<Longrightarrow> inv s"
    and step_inv: "inv s \<Longrightarrow> step s s' \<Longrightarrow> inv s'"
begin

lemma steps_inv: "step\<^sup>*\<^sup>* s s' \<Longrightarrow> inv s \<Longrightarrow> inv s'"
  by (induction rule: rtranclp_induct) (auto intro: step_inv)

lemma reachable: "start s \<Longrightarrow> step\<^sup>*\<^sup>* s s' \<Longrightarrow> inv s'"
  using steps_inv start_inv by blast

end

end
