(* ===== verification/Ktime.thy ===== *)
theory Ktime
  imports Prelude
begin

text \<open>
  Time values and kernel timers: the inline functions of \<^verbatim>\<open>net/include/time.h\<close> and
  \<^verbatim>\<open>kern/timer.c\<close>. \<^verbatim>\<open>time_t\<close> is a signed 64-bit integer; it is modelled by \<^typ>\<open>int\<close>, since signed
  overflow is undefined in C and the values are seconds and nanoseconds. \<^verbatim>\<open>struct timespec\<close> and
  \<^verbatim>\<open>struct timeval\<close> are datatypes with their C members as selectors, which lets the order that
  \<^verbatim>\<open>timespec_cmp\<close> decides be an instance of the class \<^verbatim>\<open>linorder\<close>. The timer queue is the list of the armed
  timers in queue order.
\<close>

section \<open>timespec and timeval\<close>

datatype timespec = Timespec (tv_sec: int) (tv_nsec: int)

datatype timeval = Timeval (tv_sec: int) (tv_usec: int)

text \<open>C division truncates towards zero.\<close>

definition c_div :: "int \<Rightarrow> int \<Rightarrow> int" where
  "c_div a b = sgn a * sgn b * (\<bar>a\<bar> div \<bar>b\<bar>)"

definition c_mod :: "int \<Rightarrow> int \<Rightarrow> int" where
  "c_mod a b = a - c_div a b * b"

definition timeval_validate :: "timeval \<Rightarrow> unit result" where
  "timeval_validate tv =
     (if timeval.tv_sec tv < 0 \<or> tv_usec tv < 0 \<or> tv_usec tv \<ge> 1000000 then Inl EINVAL else Inr ())"

definition timespec_validate :: "timespec \<Rightarrow> unit result" where
  "timespec_validate ts =
     (if timespec.tv_sec ts < 0 \<or> tv_nsec ts < 0 \<or> tv_nsec ts \<ge> 1000000000 then Inl EINVAL
      else Inr ())"

definition timeval_normalize :: "timeval \<Rightarrow> timeval" where
  "timeval_normalize tv =
     (if tv_usec tv \<ge> 1000000
      then Timeval (timeval.tv_sec tv + c_div (tv_usec tv) 1000000) (c_mod (tv_usec tv) 1000000)
      else tv)"

definition timespec_normalize :: "timespec \<Rightarrow> timespec" where
  "timespec_normalize ts =
     (if tv_nsec ts \<ge> 1000000000
      then Timespec (timespec.tv_sec ts + c_div (tv_nsec ts) 1000000000)
                    (c_mod (tv_nsec ts) 1000000000)
      else ts)"

definition timeval_from_timespec :: "timespec \<Rightarrow> timeval" where
  "timeval_from_timespec ts = Timeval (timespec.tv_sec ts) (c_div (tv_nsec ts) 1000)"

definition timespec_from_timeval :: "timeval \<Rightarrow> timespec" where
  "timespec_from_timeval tv = Timespec (timeval.tv_sec tv) (tv_usec tv * 1000)"

definition timespec_diff :: "timespec \<Rightarrow> timespec \<Rightarrow> timespec" where
  "timespec_diff a b =
     (if tv_nsec a \<ge> tv_nsec b
      then Timespec (timespec.tv_sec a - timespec.tv_sec b) (tv_nsec a - tv_nsec b)
      else Timespec (timespec.tv_sec a - timespec.tv_sec b - 1)
                    (1000000000 - (tv_nsec b - tv_nsec a)))"

definition timeval_diff :: "timeval \<Rightarrow> timeval \<Rightarrow> timeval" where
  "timeval_diff a b =
     (if tv_usec a \<ge> tv_usec b
      then Timeval (timeval.tv_sec a - timeval.tv_sec b) (tv_usec a - tv_usec b)
      else Timeval (timeval.tv_sec a - timeval.tv_sec b - 1)
                   (1000000 - (tv_usec b - tv_usec a)))"

definition timespec_add :: "timespec \<Rightarrow> timespec \<Rightarrow> timespec" where
  "timespec_add d a =
     (let sec = timespec.tv_sec d + timespec.tv_sec a; nsec = tv_nsec d + tv_nsec a
      in if nsec \<ge> 1000000000 then Timespec (sec + 1) (nsec - 1000000000) else Timespec sec nsec)"

definition timeval_add :: "timeval \<Rightarrow> timeval \<Rightarrow> timeval" where
  "timeval_add d a =
     (let sec = timeval.tv_sec d + timeval.tv_sec a; usec = tv_usec d + tv_usec a
      in if usec \<ge> 1000000 then Timeval (sec + 1) (usec - 1000000) else Timeval sec usec)"

definition timespec_cmp :: "timespec \<Rightarrow> timespec \<Rightarrow> int" where
  "timespec_cmp a b =
     (if timespec.tv_sec a < timespec.tv_sec b then - 1
      else if timespec.tv_sec a > timespec.tv_sec b then 1
      else if tv_nsec a < tv_nsec b then - 1
      else if tv_nsec a > tv_nsec b then 1
      else 0)"

definition timeval_cmp :: "timeval \<Rightarrow> timeval \<Rightarrow> int" where
  "timeval_cmp a b =
     (if timeval.tv_sec a < timeval.tv_sec b then - 1
      else if timeval.tv_sec a > timeval.tv_sec b then 1
      else if tv_usec a < tv_usec b then - 1
      else if tv_usec a > tv_usec b then 1
      else 0)"

text \<open>The order on time values is the one the comparison decides.\<close>

instantiation timespec :: linorder
begin

definition less_eq_timespec :: "timespec \<Rightarrow> timespec \<Rightarrow> bool" where
  "less_eq_timespec a b \<longleftrightarrow> timespec_cmp a b \<le> 0"

definition less_timespec :: "timespec \<Rightarrow> timespec \<Rightarrow> bool" where
  "less_timespec a b \<longleftrightarrow> timespec_cmp a b < 0"

instance
  by standard
    (auto simp: less_eq_timespec_def less_timespec_def timespec_cmp_def timespec.expand
      split: if_splits)

end

instantiation timeval :: linorder
begin

definition less_eq_timeval :: "timeval \<Rightarrow> timeval \<Rightarrow> bool" where
  "less_eq_timeval a b \<longleftrightarrow> timeval_cmp a b \<le> 0"

definition less_timeval :: "timeval \<Rightarrow> timeval \<Rightarrow> bool" where
  "less_timeval a b \<longleftrightarrow> timeval_cmp a b < 0"

instance
  by standard
    (auto simp: less_eq_timeval_def less_timeval_def timeval_cmp_def timeval.expand
      split: if_splits)

end

text \<open>What a value denotes: a number of nanoseconds, a number of microseconds.\<close>

definition ns :: "timespec \<Rightarrow> int" where
  "ns ts = timespec.tv_sec ts * 1000000000 + tv_nsec ts"

definition us :: "timeval \<Rightarrow> int" where
  "us tv = timeval.tv_sec tv * 1000000 + tv_usec tv"

lemma timespec_validate_iff:
  "timespec_validate ts = Inr () \<longleftrightarrow>
     0 \<le> timespec.tv_sec ts \<and> 0 \<le> tv_nsec ts \<and> tv_nsec ts < 1000000000"
  by (auto simp: timespec_validate_def)

lemma timeval_validate_iff:
  "timeval_validate tv = Inr () \<longleftrightarrow>
     0 \<le> timeval.tv_sec tv \<and> 0 \<le> tv_usec tv \<and> tv_usec tv < 1000000"
  by (auto simp: timeval_validate_def)

lemma c_div_nonneg: "0 \<le> a \<Longrightarrow> 0 < b \<Longrightarrow> c_div a b = a div b"
  by (auto simp: c_div_def sgn_if)

lemma c_mod_nonneg: "0 \<le> a \<Longrightarrow> 0 < b \<Longrightarrow> c_mod a b = a mod b"
  by (simp add: c_mod_def c_div_nonneg minus_div_mult_eq_mod)

lemmas time_arith = timespec_diff_def timespec_add_def timespec_cmp_def timespec_validate_iff
  ns_def Let_def


lemma timespec_diff_ns: "ns (timespec_diff a b) = ns a - ns b"
  by (simp add: time_arith)

lemma timespec_add_ns: "ns (timespec_add d a) = ns d + ns a"
  by (simp add: time_arith)

lemma timespec_diff_nsec_range:
  assumes "0 \<le> tv_nsec a" "tv_nsec a < 1000000000" "0 \<le> tv_nsec b" "tv_nsec b < 1000000000"
  shows "0 \<le> tv_nsec (timespec_diff a b) \<and> tv_nsec (timespec_diff a b) < 1000000000"
  using assms by (auto simp: timespec_diff_def)

lemma timespec_less_iff: "timespec_cmp a b < 0 \<longleftrightarrow> a < b"
  by (simp add: less_timespec_def)

lemma timespec_less_eq_iff: "timespec_cmp a b \<le> 0 \<longleftrightarrow> a \<le> b"
  by (simp add: less_eq_timespec_def)

lemma timespec_greater_iff: "timespec_cmp a b > 0 \<longleftrightarrow> b < a"
  by (auto simp: less_timespec_def timespec_cmp_def)

lemmas timespec_order = timespec_less_iff timespec_less_eq_iff timespec_greater_iff

section \<open>Clock sources (kern/time.c)\<close>

text \<open>
  A clock source is its precision and its three operations; the state of a clock device is part of
  the world \<^typ>\<open>'w\<close> the operations act on.
\<close>

record 'w clock_source =
  precision :: int
  getres :: "'w \<Rightarrow> (int \<times> timespec) \<times> 'w"
  gettime :: "'w \<Rightarrow> (int \<times> timespec) \<times> 'w"
  settime :: "timespec \<Rightarrow> 'w \<Rightarrow> int \<times> 'w"

record 'w clocks =
  clock_realtime :: "'w clock_source option"
  clock_monotonic :: "'w clock_source option"

datatype clock_id = CLOCK_REALTIME | CLOCK_MONOTONIC | CLOCK_OTHER int

fun get_source :: "'w clocks \<Rightarrow> clock_id \<Rightarrow> 'w clock_source option" where
  "get_source c CLOCK_REALTIME = clock_realtime c"
| "get_source c CLOCK_MONOTONIC = clock_monotonic c"
| "get_source c (CLOCK_OTHER _) = None"

fun set_source :: "'w clocks \<Rightarrow> clock_id \<Rightarrow> 'w clock_source \<Rightarrow> errno + 'w clocks" where
  "set_source c CLOCK_REALTIME src = Inr (c\<lparr>clock_realtime := Some src\<rparr>)"
| "set_source c CLOCK_MONOTONIC src = Inr (c\<lparr>clock_monotonic := Some src\<rparr>)"
| "set_source c (CLOCK_OTHER _) src = Inl EINVAL"

definition clock_register :: "'w clocks \<Rightarrow> clock_id \<Rightarrow> 'w clock_source \<Rightarrow> errno + 'w clocks" where
  "clock_register c clock src =
     (case get_source c clock of
        None \<Rightarrow> set_source c clock src
      | Some current \<Rightarrow>
          if precision current < precision src then Inl EINVAL else set_source c clock src)"

definition clock_getres :: "'w clocks \<Rightarrow> clock_id \<Rightarrow> 'w \<Rightarrow> errno + (int \<times> timespec) \<times> 'w" where
  "clock_getres c clock w =
     (case get_source c clock of None \<Rightarrow> Inl EINVAL | Some src \<Rightarrow> Inr (getres src w))"

definition clock_gettime :: "'w clocks \<Rightarrow> clock_id \<Rightarrow> 'w \<Rightarrow> errno + (int \<times> timespec) \<times> 'w" where
  "clock_gettime c clock w =
     (case get_source c clock of None \<Rightarrow> Inl EINVAL | Some src \<Rightarrow> Inr (gettime src w))"

definition clock_settime :: "'w clocks \<Rightarrow> clock_id \<Rightarrow> timespec \<Rightarrow> 'w \<Rightarrow> errno + int \<times> 'w" where
  "clock_settime c clock ts w =
     (case get_source c clock of None \<Rightarrow> Inl EINVAL | Some src \<Rightarrow> Inr (settime src ts w))"

definition realtime_seconds :: "'w clocks \<Rightarrow> 'w \<Rightarrow> int \<times> 'w" where
  "realtime_seconds c w =
     (case clock_gettime c CLOCK_REALTIME w of
        Inl _ \<Rightarrow> (0, w)
      | Inr ((ret, ts), w') \<Rightarrow> (if ret \<noteq> 0 then 0 else timespec.tv_sec ts, w'))"

text \<open>
  The busy wait reads a monotonic clock, here its successive readings, until the elapsed time
  reaches the duration; \<open>None\<close> is a wait that outlasts the readings.
\<close>

fun spinsleep_loop :: "timespec \<Rightarrow> timespec \<Rightarrow> timespec list \<Rightarrow> nat \<Rightarrow> nat option" where
  "spinsleep_loop duration start [] n = None"
| "spinsleep_loop duration start (now # later) n =
     (if timespec_cmp (timespec_diff now start) duration \<ge> 0 then Some n
      else spinsleep_loop duration start later (Suc n))"

definition spinsleep :: "timespec \<Rightarrow> timespec list \<Rightarrow> nat option" where
  "spinsleep duration readings =
     (case readings of [] \<Rightarrow> None | start # later \<Rightarrow> spinsleep_loop duration start later 0)"

lemma clock_register_precision:
  assumes "clock_register c clock src = Inr c'" and "get_source c clock = Some old"
  shows "get_source c' clock = Some src \<and> precision src \<le> precision old"
  using assms by (cases clock) (auto simp: clock_register_def split: if_splits)

lemma clock_register_other:
  assumes "clock_register c clock src = Inr c'" and "other \<noteq> clock"
  shows "get_source c' other = get_source c other"
  using assms by (cases clock; cases other)
    (auto simp: clock_register_def split: if_splits option.splits)

section \<open>Timers (kern/timer.c)\<close>

text \<open>\<^verbatim>\<open>struct timer\<close>; \<open>timer_id\<close> is its address, \<open>cb\<close> the address of its callback.\<close>

record timer =
  timer_id :: nat
  timeout :: timespec
  cb :: uintptr_t
  userdata :: uintptr_t

definition timer_add ::
  "timer list \<Rightarrow> timer \<Rightarrow> timespec \<Rightarrow> uintptr_t \<Rightarrow> uintptr_t \<Rightarrow> timer list" where
  "timer_add timers t expiry callback data =
     (let t' = t\<lparr>timeout := expiry, cb := callback, userdata := data\<rparr>
      in insert_before_first (\<lambda>it. timespec_cmp (timeout t') (timeout it) < 0) t' timers)"

text \<open>\<^verbatim>\<open>TAILQ_REMOVE\<close> unlinks one element.\<close>

definition timer_remove :: "timer list \<Rightarrow> timer \<Rightarrow> timer list" where
  "timer_remove timers t = remove1 t timers"

text \<open>
  The check pops timers that are due and calls them. \<open>run t q\<close> is the queue after the callback of
  \<open>t\<close> ran with queue \<open>q\<close>: callbacks may arm and remove timers, so the loop need not end, and its
  value is an option. The second component lists the timers called, in order.
\<close>

partial_function (option) timer_check_loop ::
  "(timer \<Rightarrow> timer list \<Rightarrow> timer list) \<Rightarrow> timespec \<Rightarrow> timer list \<Rightarrow> timer list \<Rightarrow>
    (timer list \<times> timer list) option" where
  "timer_check_loop run cur timers fired =
     (case timers of
        [] \<Rightarrow> Some ([], fired)
      | t # rest \<Rightarrow>
          if timespec_cmp cur (timeout t) < 0 then Some (timers, fired)
          else timer_check_loop run cur (run t rest) (fired @ [t]))"

definition timer_check_timeout ::
  "(timer \<Rightarrow> timer list \<Rightarrow> timer list) \<Rightarrow> timespec \<Rightarrow> timer list \<Rightarrow>
    (timer list \<times> timer list) option" where
  "timer_check_timeout run cur timers = timer_check_loop run cur timers []"

definition timers_sorted :: "timer list \<Rightarrow> bool" where
  "timers_sorted timers \<longleftrightarrow> sorted (map timeout timers)"

lemma timer_add_sorted: "timers_sorted q \<Longrightarrow> timers_sorted (timer_add q t e c d)"
  using sorted_insert_before_first [of timeout q "t\<lparr>timeout := e, cb := c, userdata := d\<rparr>"]
  by (simp add: timers_sorted_def timer_add_def timespec_order)

lemma timer_remove_sorted: "timers_sorted q \<Longrightarrow> timers_sorted (timer_remove q t)"
  unfolding timers_sorted_def timer_remove_def
  by (induction q) (auto dest: in_set_takeD simp: notin_set_remove1 dest!: subsetD [OF set_remove1_subset])

text \<open>A callback is tame at time \<open>cur\<close> when all it does to the due timers of the queue is nothing.\<close>

definition tame :: "timespec \<Rightarrow> (timer \<Rightarrow> timer list \<Rightarrow> timer list) \<Rightarrow> bool" where
  "tame cur run \<longleftrightarrow> (\<forall>t q. timers_sorted q \<longrightarrow>
     timers_sorted (run t q) \<and>
     filter (\<lambda>x. timeout x \<le> cur) (run t q) = filter (\<lambda>x. timeout x \<le> cur) q)"

lemma timer_check_loop_fires:
  assumes "tame cur run" "timers_sorted q"
  shows "\<exists>q'. timer_check_loop run cur q fired = Some (q', fired @ filter (\<lambda>x. timeout x \<le> cur) q)
    \<and> timers_sorted q' \<and> (\<forall>x \<in> set q'. cur < timeout x)"
  using assms(2)
proof (induction "length (filter (\<lambda>x. timeout x \<le> cur) q)" arbitrary: q fired)
  case 0
  then have late: "\<forall>x \<in> set q. cur < timeout x"
    by (auto simp: filter_empty_conv not_le)
  then have "timer_check_loop run cur q fired = Some (q, fired)"
    by (subst timer_check_loop.simps) (auto split: list.split simp: timespec_order)
  with 0 late show ?case by (auto simp: filter_empty_conv not_le)
next
  case (Suc n)
  then obtain t rest where q: "q = t # rest" by (cases q) auto
  have due: "timeout t \<le> cur"
  proof (rule ccontr)
    assume "\<not> timeout t \<le> cur"
    with Suc.prems q have "filter (\<lambda>x. timeout x \<le> cur) q = []"
      by (auto simp: timers_sorted_def filter_empty_conv)
    with Suc.hyps(2) show False by simp
  qed
  have rest: "timers_sorted rest" using Suc.prems q by (simp add: timers_sorted_def)
  with assms(1) have run: "timers_sorted (run t rest)"
    "filter (\<lambda>x. timeout x \<le> cur) (run t rest) = filter (\<lambda>x. timeout x \<le> cur) rest"
    by (auto simp: tame_def)
  moreover have "n = length (filter (\<lambda>x. timeout x \<le> cur) (run t rest))"
    using Suc.hyps(2) q due run(2) by simp
  ultimately obtain q' where "timer_check_loop run cur (run t rest) (fired @ [t]) =
      Some (q', (fired @ [t]) @ filter (\<lambda>x. timeout x \<le> cur) rest)"
    and "timers_sorted q'" "\<forall>x \<in> set q'. cur < timeout x"
    using Suc.hyps(1) [of "run t rest" "fired @ [t]"] by auto
  then show ?case using q due
    by (subst timer_check_loop.simps) (auto simp: timespec_order)
qed

section \<open>Properties\<close>

text \<open>
  Exactness of the time arithmetic: on values whose nanoseconds are in range, \<^verbatim>\<open>timespec_diff\<close> and
  \<^verbatim>\<open>timespec_add\<close> compute the exact difference and sum with nanoseconds back in range, adding a
  difference back restores the first operand, and \<^verbatim>\<open>timespec_cmp\<close> is the sign of the difference.
\<close>

lemma timespec_arith_exact:
  assumes "0 \<le> tv_nsec a" "tv_nsec a < 1000000000" "0 \<le> tv_nsec b" "tv_nsec b < 1000000000"
  shows "ns (timespec_diff a b) = ns a - ns b \<and> 0 \<le> tv_nsec (timespec_diff a b)
    \<and> tv_nsec (timespec_diff a b) < 1000000000
    \<and> ns (timespec_add a b) = ns a + ns b \<and> 0 \<le> tv_nsec (timespec_add a b)
    \<and> tv_nsec (timespec_add a b) < 1000000000
    \<and> timespec_add (timespec_diff a b) b = a
    \<and> timespec_cmp a b = sgn (ns a - ns b)"
proof -
  have sum: "0 \<le> tv_nsec (timespec_add a b) \<and> tv_nsec (timespec_add a b) < 1000000000"
    using assms by (auto simp: timespec_add_def Let_def)
  have restore: "timespec_add (timespec_diff a b) b = a"
    using assms by (cases a) (auto simp: timespec_add_def timespec_diff_def Let_def)
  have "timespec_cmp a b = sgn (ns a - ns b)"
    using assms by (auto simp: timespec_cmp_def ns_def sgn_if)
  with sum restore timespec_diff_nsec_range [OF assms] show ?thesis
    by (simp add: timespec_diff_ns timespec_add_ns)
qed

lemma timespec_arith_exact_witness:
  "timespec_diff (Timespec 5 100) (Timespec 3 200) = Timespec 1 999999900
   \<and> timespec_add (timespec_diff (Timespec 5 100) (Timespec 3 200)) (Timespec 3 200) = Timespec 5 100"
  using timespec_arith_exact [of "Timespec 5 100" "Timespec 3 200"]
  by (simp add: timespec_diff_def)

text \<open>
  C20. \<^verbatim>\<open>timer_check_timeout\<close> returns when the callbacks leave the timers due now alone (they may re-arm
  for later): it calls exactly the timers due at \<open>cur\<close>, each once and in order of expiry, and leaves a
  sorted queue that holds no due timer.
\<close>

theorem timer_check_timeout_fires:
  assumes "tame cur run" "timers_sorted q"
  shows "\<exists>q'. timer_check_timeout run cur q = Some (q', filter (\<lambda>x. timeout x \<le> cur) q)
    \<and> timers_sorted q' \<and> (\<forall>x \<in> set q'. cur < timeout x)"
  using timer_check_loop_fires [OF assms, of "[]"] by (simp add: timer_check_timeout_def)

text \<open>A periodic callback: every timer that fires is armed again ten seconds later than the fixed time 7.\<close>

definition rearm :: "timer \<Rightarrow> timer list \<Rightarrow> timer list" where
  "rearm t q = timer_add q t (Timespec 17 0) (cb t) (userdata t)"

definition two_timers :: "timer list" where
  "two_timers = [\<lparr>timer_id = 1, timeout = Timespec 3 0, cb = 0, userdata = 0\<rparr>,
                 \<lparr>timer_id = 2, timeout = Timespec 9 0, cb = 0, userdata = 0\<rparr>]"

lemma rearm_tame: "tame (Timespec 7 0) rearm"
  unfolding tame_def rearm_def
proof (intro allI impI conjI)
  fix t q assume q: "timers_sorted q"
  show "timers_sorted (timer_add q t (Timespec 17 0) (cb t) (userdata t))"
    using q by (rule timer_add_sorted)
  show "filter (\<lambda>x. timeout x \<le> Timespec 7 0) (timer_add q t (Timespec 17 0) (cb t) (userdata t))
      = filter (\<lambda>x. timeout x \<le> Timespec 7 0) q"
    by (simp add: timer_add_def filter_insert_before_first_other less_eq_timespec_def timespec_cmp_def)
qed

theorem timer_check_timeout_fires_witness:
  "\<exists>q'. timer_check_timeout rearm (Timespec 7 0) two_timers = Some (q', [hd two_timers])
    \<and> timers_sorted q' \<and> (\<forall>x \<in> set q'. Timespec 7 0 < timeout x)"
proof -
  have "timers_sorted two_timers"
    by (simp add: timers_sorted_def two_timers_def less_eq_timespec_def timespec_cmp_def)
  moreover have "filter (\<lambda>x. timeout x \<le> Timespec 7 0) two_timers = [hd two_timers]"
    by (simp add: two_timers_def less_eq_timespec_def timespec_cmp_def)
  ultimately show ?thesis using timer_check_timeout_fires [OF rearm_tame, of two_timers] by simp
qed

text \<open>
  C21. \<^verbatim>\<open>timer_add\<close> keeps the queue in order of expiry and loses no timer, and timers of equal expiry
  stay in the order they were added.
\<close>

theorem timer_add_ordered:
  assumes "timers_sorted q"
  shows "timers_sorted (timer_add q t e c d)
    \<and> mset (timer_add q t e c d) = add_mset (t\<lparr>timeout := e, cb := c, userdata := d\<rparr>) (mset q)
    \<and> filter (\<lambda>x. timeout x = e) (timer_add q t e c d)
        = filter (\<lambda>x. timeout x = e) q @ [t\<lparr>timeout := e, cb := c, userdata := d\<rparr>]"
  using timer_add_sorted [OF assms]
    insert_before_first_fifo [of timeout q "t\<lparr>timeout := e, cb := c, userdata := d\<rparr>"] assms
  by (simp add: timers_sorted_def timer_add_def timespec_order)

theorem timer_add_ordered_witness:
  "timers_sorted (timer_add two_timers (hd two_timers) (Timespec 5 0) 1 2)"
proof -
  have "timers_sorted two_timers"
    by (simp add: timers_sorted_def two_timers_def less_eq_timespec_def timespec_cmp_def)
  then show ?thesis using timer_add_ordered [of two_timers "hd two_timers" "Timespec 5 0" 1 2] by blast
qed

end
