(* ===== verification/Kmem.thy ===== *)
theory Kmem
  imports Prelude
begin

text \<open>
  Byte-addressed memory: a map from 64-bit addresses to bytes, the block transfer \<^verbatim>\<open>memcpy\<close> performs
  and the little-endian word accesses of \<^verbatim>\<open>*(size_t*)p\<close>. Addresses wrap, as pointers do.
\<close>

type_synonym mem = "uintptr_t \<Rightarrow> u8"

definition mem_load :: "mem \<Rightarrow> uintptr_t \<Rightarrow> nat \<Rightarrow> u8 list" where
  "mem_load m a n = map (\<lambda>i. m (a + of_nat i)) [0..<n]"

definition mem_store :: "mem \<Rightarrow> uintptr_t \<Rightarrow> u8 list \<Rightarrow> mem" where
  "mem_store m a bs = (\<lambda>x. if unat (x - a) < length bs then bs ! unat (x - a) else m x)"

lemma length_mem_load [simp]: "length (mem_load m a n) = n"
  by (simp add: mem_load_def)

lemma nth_mem_load [simp]: "i < n \<Longrightarrow> mem_load m a n ! i = m (a + of_nat i)"
  by (simp add: mem_load_def)

lemma mem_load_0 [simp]: "mem_load m a 0 = []"
  by (simp add: mem_load_def)

lemma mem_store_Nil [simp]: "mem_store m a [] = m"
  by (simp add: mem_store_def)

lemma mem_load_add:
  "mem_load m a (n + k) = mem_load m a n @ mem_load m (a + of_nat n) k"
  by (rule nth_equalityI) (auto simp: nth_append of_nat_diff)

lemma mem_load_cong:
  "(\<And>i. i < n \<Longrightarrow> m (a + of_nat i) = m' (a + of_nat i)) \<Longrightarrow> mem_load m a n = mem_load m' a n"
  by (simp add: mem_load_def)

lemma mem_load_take:
  "k \<le> n \<Longrightarrow> take k (mem_load m a n) = mem_load m a k"
  by (rule nth_equalityI) auto

lemma mem_load_drop:
  "k \<le> n \<Longrightarrow> drop k (mem_load m a n) = mem_load m (a + of_nat k) (n - k)"
  by (rule nth_equalityI) (auto simp: algebra_simps simp flip: of_nat_add)

text \<open>The offset of an address from a base, when it lies in a block that does not wrap.\<close>

lemma unat_offset [simp]:
  "i < 2 ^ 64 \<Longrightarrow> unat ((a + of_nat i) - a :: uintptr_t) = i"
  by (simp add: unat_of_nat64)

lemma offset_eq: "x = a + of_nat (unat (x - a))" for x a :: uintptr_t
  by simp

lemma unat_offset_shift:
  fixes x a :: uintptr_t
  assumes "k < 2 ^ 64"
  shows "unat (x - (a + of_nat k)) =
    (if k \<le> unat (x - a) then unat (x - a) - k else unat (x - a) + 2 ^ 64 - k)"
proof -
  have "x - (a + of_nat k) = (x - a) - of_nat k" by simp
  then show ?thesis using assms by (simp only: unat_sub_if' unat_of_nat64) simp
qed

lemma mem_store_hit:
  "i < length bs \<Longrightarrow> length bs \<le> 2 ^ 64 \<Longrightarrow> mem_store m a bs (a + of_nat i) = bs ! i"
  by (simp add: mem_store_def unat_of_nat64)

lemma mem_store_miss:
  "length bs \<le> unat (x - a) \<Longrightarrow> mem_store m a bs x = m x"
  by (simp add: mem_store_def)

lemma mem_load_store_same:
  assumes "length bs \<le> 2 ^ 64"
  shows "mem_load (mem_store m a bs) a (length bs) = bs"
  using assms by (intro nth_equalityI) (simp_all add: mem_store_hit)

lemma mem_load_store_other:
  assumes "\<And>i. i < n \<Longrightarrow> length bs \<le> unat (a' + of_nat i - a)"
  shows "mem_load (mem_store m a bs) a' n = mem_load m a' n"
  using assms by (intro mem_load_cong) (simp add: mem_store_miss)

lemma mem_store_append:
  assumes "length xs + length ys \<le> 2 ^ 64"
  shows "mem_store m a (xs @ ys) = mem_store (mem_store m a xs) (a + of_nat (length xs)) ys"
proof
  fix x :: uintptr_t
  define k where "k = unat (x - a)"
  have x: "x = a + of_nat k" by (simp add: k_def)
  have k: "k < 2 ^ 64" using unat_lt64 [of "x - a"] by (simp add: k_def)
  have off: "x - (a + of_nat (length xs)) = of_nat k - of_nat (length xs)" by (simp add: x)
  show "mem_store m a (xs @ ys) x = mem_store (mem_store m a xs) (a + of_nat (length xs)) ys x"
  proof (cases "length xs \<le> k")
    case True
    then have "unat (x - (a + of_nat (length xs))) = k - length xs"
      using k unfolding off by (simp add: unat_sub_if' unat_of_nat)
    with True show ?thesis by (auto simp: mem_store_def nth_append k_def [symmetric])
  next
    case False
    then have "unat (x - (a + of_nat (length xs))) = k + 2 ^ 64 - length xs"
      using assms k unfolding off
      by (cases "length xs = 2 ^ 64") (simp_all add: unat_sub_if' unat_of_nat)
    then have "\<not> unat (x - (a + of_nat (length xs))) < length ys" using assms by linarith
    with False show ?thesis by (simp add: mem_store_def nth_append k_def [symmetric])
  qed
qed

section \<open>Bytes stored one by one\<close>

text \<open>The memory after storing the bytes of a list at the addresses of a list, in order.\<close>

fun upd_bytes :: "mem \<Rightarrow> uintptr_t list \<Rightarrow> u8 list \<Rightarrow> mem" where
  "upd_bytes f (a # as) (b # bs) = upd_bytes (f(a := b)) as bs"
| "upd_bytes f _ _ = f"

lemma upd_bytes_Nil [simp]: "upd_bytes f as [] = f"
  by (cases as) auto

lemma upd_bytes_append:
  "length as = length bs \<Longrightarrow> upd_bytes f (as @ as') (bs @ bs') = upd_bytes (upd_bytes f as bs) as' bs'"
  by (induction as bs arbitrary: f rule: list_induct2) auto

lemma upd_bytes_Cons: "upd_bytes f (a # as) bs = (case bs of [] \<Rightarrow> f | b # bs' \<Rightarrow> upd_bytes (f(a := b)) as bs')"
  by (cases bs) auto

lemma upd_bytes_take: "upd_bytes f as bs = upd_bytes f as (take (length as) bs)"
  by (induction as arbitrary: f bs) (auto simp: upd_bytes_Cons split: list.split)

lemma upd_bytes_other: "x \<notin> set as \<Longrightarrow> upd_bytes f as bs x = f x"
  by (induction as arbitrary: f bs) (auto simp: upd_bytes_Cons split: list.split)

lemma upd_bytes_hit:
  "distinct as \<Longrightarrow> length as \<le> length bs \<Longrightarrow> map (upd_bytes f as bs) as = take (length as) bs"
  by (induction as arbitrary: f bs) (auto simp: upd_bytes_Cons upd_bytes_other split: list.split)

lemma mem_store_single: "mem_store m a [b] = m(a := b)"
  by (auto simp: mem_store_def fun_eq_iff unat_eq_0)

lemma mem_store_upd_bytes:
  "length bs < 2 ^ 64 \<Longrightarrow> mem_store f a bs = upd_bytes f (map (\<lambda>i. a + of_nat i) [0..<length bs]) bs"
proof (induction bs rule: rev_induct)
  case (snoc b bs)
  let ?as = "map (\<lambda>i. a + of_nat i) [0..<length bs]"
  have "mem_store f a (bs @ [b]) = (mem_store f a bs)(a + of_nat (length bs) := b)"
    using snoc.prems by (simp add: mem_store_append mem_store_single)
  also have "\<dots> = upd_bytes f (?as @ [a + of_nat (length bs)]) (bs @ [b])"
    using snoc by (simp add: upd_bytes_append)
  finally show ?case by simp
qed simp

end
