(* ===== verification/Ucopy.thy ===== *)
theory Ucopy
  imports Kmem
begin

text \<open>
  Copies between the kernel and user memory: \<^verbatim>\<open>mem/copy.c\<close>. The page tables of an address space are
  the parameter \<open>populate\<close>, what \<^verbatim>\<open>arch_vm_populate_page\<close> answers for a page and an access: the frame
  that backs the page, or an error. Frames hold bytes; a copy zone makes one frame addressable, so a
  page access is an access to the frame's bytes. Strings and pointer arrays are read through the same
  mapping. A copy that fails half way has stored what it copied before; the model returns it.
\<close>

section \<open>Address spaces\<close>

definition VM_PROT_R :: u32 where
  "VM_PROT_R = 1"

record uspace =
  region_addr :: uintptr_t
  region_size :: size_t
  populate :: "uintptr_t \<Rightarrow> u32 \<Rightarrow> errno + uintptr_t"
  frames :: "uintptr_t \<Rightarrow> size_t \<Rightarrow> u8"

text \<open>\<^verbatim>\<open>__builtin_add_overflow\<close>: \<open>None\<close> when the sum does not fit.\<close>

definition add_overflow :: "u64 \<Rightarrow> u64 \<Rightarrow> u64 option" where
  "add_overflow a b = (if unat a + unat b < 2 ^ 64 then Some (a + b) else None)"

definition is_range_user :: "uspace \<Rightarrow> uintptr_t \<Rightarrow> size_t \<Rightarrow> bool" where
  "is_range_user s addr sz =
     (if addr = 0 then False
      else if addr < region_addr s then False
      else case add_overflow addr sz of
        None \<Rightarrow> False
      | Some end \<Rightarrow> \<not> end > region_addr s + region_size s)"

section \<open>Block copies\<close>

text \<open>The part of a transfer that lies in the first page: \<^verbatim>\<open>len\<close> of \<^verbatim>\<open>copyin_page\<close>.\<close>

definition page_len :: "uintptr_t \<Rightarrow> size_t \<Rightarrow> size_t" where
  "page_len uaddr n =
     (let len = PAGE_SIZE - (uaddr AND PAGE_MASK) in if len > n then n else len)"

definition copyin_page :: "uspace \<Rightarrow> uintptr_t \<Rightarrow> size_t \<Rightarrow> errno + u8 list" where
  "copyin_page s uaddr n =
     (let pad = uaddr AND PAGE_MASK; page = uaddr - pad; len = page_len uaddr n
      in case populate s page VM_PROT_R of
           Inl e \<Rightarrow> Inl e
         | Inr poff \<Rightarrow> Inr (map (\<lambda>i. frames s poff (pad + of_nat i)) [0..<unat len]))"

definition copyout_page :: "uspace \<Rightarrow> uintptr_t \<Rightarrow> u8 list \<Rightarrow> size_t \<Rightarrow> errno + uspace" where
  "copyout_page s uaddr bs n =
     (let pad = uaddr AND PAGE_MASK; page = uaddr - pad; len = page_len uaddr n
      in case populate s page VM_PROT_R of
           Inl e \<Rightarrow> Inl e
         | Inr poff \<Rightarrow>
             Inr (s\<lparr>frames := (frames s)(poff := mem_store (frames s poff) pad (take (unat len) bs))\<rparr>))"

lemma unat_and_page_mask: "unat (a AND PAGE_MASK) = unat a mod 4096"
proof -
  have "PAGE_MASK = mask 12" by (simp add: PAGE_MASK_def mask_eq_exp_minus_1)
  then have "a AND PAGE_MASK = take_bit 12 a" by (simp add: take_bit_eq_mask)
  then show ?thesis by (simp add: take_bit_eq_mod unat_mod)
qed

lemma unat_page_len: "unat (page_len a n) = min (4096 - unat a mod 4096) (unat n)"
proof -
  have "unat (PAGE_SIZE - (a AND PAGE_MASK)) = 4096 - unat a mod 4096"
    by (subst unat_sub) (auto simp: word_le_nat_alt unat_and_page_mask PAGE_SIZE_def
        intro: less_imp_le [OF mod_less_divisor, THEN order.trans])
  then show ?thesis by (auto simp: page_len_def Let_def word_less_nat_alt min_def)
qed

lemma page_len_progress: "n \<noteq> 0 \<Longrightarrow> unat (n - page_len a n) < unat n"
  by (subst unat_sub) (auto simp: word_le_nat_alt unat_page_len unat_gt_0 [symmetric] simp del: unat_gt_0)

text \<open>\<^verbatim>\<open>vm_copyin\<close>: the error, if any, and the bytes stored at the kernel address.\<close>

function copyin_loop :: "uspace \<Rightarrow> uintptr_t \<Rightarrow> size_t \<Rightarrow> u8 list \<Rightarrow> errno option \<times> u8 list" where
  "copyin_loop s uaddr n acc =
     (if n = 0 then (None, acc)
      else case copyin_page s uaddr n of
             Inl e \<Rightarrow> (Some e, acc)
           | Inr bs \<Rightarrow> copyin_loop s (uaddr + page_len uaddr n) (n - page_len uaddr n) (acc @ bs))"
  by pat_completeness auto
termination
  by (relation "measure (\<lambda>(s, a, n, acc). unat n)") (auto intro: page_len_progress)

definition vm_copyin :: "uspace \<Rightarrow> uintptr_t \<Rightarrow> size_t \<Rightarrow> errno option \<times> u8 list" where
  "vm_copyin s uaddr n =
     (if \<not> is_range_user s uaddr n then (Some EFAULT, []) else copyin_loop s uaddr n [])"

text \<open>\<^verbatim>\<open>vm_copyout\<close> of the bytes at the kernel address.\<close>

function copyout_loop :: "uspace \<Rightarrow> uintptr_t \<Rightarrow> u8 list \<Rightarrow> size_t \<Rightarrow> errno option \<times> uspace" where
  "copyout_loop s uaddr bs n =
     (if n = 0 then (None, s)
      else case copyout_page s uaddr bs n of
             Inl e \<Rightarrow> (Some e, s)
           | Inr s' \<Rightarrow> copyout_loop s' (uaddr + page_len uaddr n)
                        (drop (unat (page_len uaddr n)) bs) (n - page_len uaddr n))"
  by pat_completeness auto
termination
  by (relation "measure (\<lambda>(s, a, bs, n). unat n)") (auto intro: page_len_progress)

definition vm_copyout :: "uspace \<Rightarrow> uintptr_t \<Rightarrow> u8 list \<Rightarrow> size_t \<Rightarrow> errno option \<times> uspace" where
  "vm_copyout s uaddr bs n =
     (if \<not> is_range_user s uaddr n then (Some EFAULT, s) else copyout_loop s uaddr bs n)"

declare copyin_loop.simps [simp del] copyout_loop.simps [simp del]


section \<open>User memory as its bytes\<close>

text \<open>The byte a user address denotes, or the error an access to it raises.\<close>

definition ubyte :: "uspace \<Rightarrow> uintptr_t \<Rightarrow> errno + u8" where
  "ubyte s a =
     (case populate s (a - (a AND PAGE_MASK)) VM_PROT_R of
        Inl e \<Rightarrow> Inl e
      | Inr poff \<Rightarrow> Inr (frames s poff (a AND PAGE_MASK)))"

lemma page_offset_add:
  assumes "i < 4096 - unat a mod 4096"
  shows "(a + of_nat i) AND PAGE_MASK = (a AND PAGE_MASK) + of_nat i"
proof -
  have "unat (of_nat i :: uintptr_t) = i" using assms by (intro unat_of_nat64) simp
  moreover have "(unat a + i) mod 2 ^ 64 mod 4096 = unat a mod 4096 + i"
  proof -
    have "(unat a + i) mod 2 ^ 64 mod 4096 = (unat a + i) mod 4096"
      by (rule mod_mod_cancel) simp
    also have "\<dots> = (unat a mod 4096 + i) mod 4096" by (simp add: mod_add_left_eq)
    also have "\<dots> = unat a mod 4096 + i" using assms by simp
    finally show ?thesis .
  qed
  moreover have "unat a mod 4096 < 4096" by simp
  ultimately show ?thesis using assms
    by (simp add: word_unat_eq_iff unat_and_page_mask unat_word_ariths(1))
qed

lemma page_base_add:
  assumes "i < 4096 - unat a mod 4096"
  shows "(a + of_nat i) - ((a + of_nat i) AND PAGE_MASK) = a - (a AND PAGE_MASK)"
  unfolding page_offset_add [OF assms] by simp

lemma ubyte_in_page:
  assumes "i < 4096 - unat a mod 4096"
  shows "ubyte s (a + of_nat i) =
    (case populate s (a - (a AND PAGE_MASK)) VM_PROT_R of
       Inl e \<Rightarrow> Inl e
     | Inr poff \<Rightarrow> Inr (frames s poff ((a AND PAGE_MASK) + of_nat i)))"
  unfolding ubyte_def page_offset_add [OF assms] by simp

lemma copyin_page_ubyte:
  "copyin_page s a n =
    (case populate s (a - (a AND PAGE_MASK)) VM_PROT_R of
       Inl e \<Rightarrow> Inl e
     | Inr poff \<Rightarrow> Inr (map (\<lambda>i. projr (ubyte s (a + of_nat i))) [0..<unat (page_len a n)]))"
  by (auto simp: copyin_page_def Let_def ubyte_in_page unat_page_len split: sum.split)

lemma page_len_split:
  assumes "n \<noteq> 0"
  obtains k where "0 < k" "k \<le> 4096 - unat a mod 4096" "k \<le> unat n" "page_len a n = of_nat k"
    "unat (of_nat k :: size_t) = k" "unat (n - of_nat k) = unat n - k"
proof
  let ?k = "unat (page_len a n)"
  have "unat a mod 4096 < 4096" by simp
  with assms show "0 < ?k" by (auto simp: unat_page_len unat_gt_0)
  show "?k \<le> 4096 - unat a mod 4096" "?k \<le> unat n" by (simp_all add: unat_page_len)
  then show "unat (n - of_nat ?k) = unat n - ?k" by (simp add: unat_sub word_le_nat_alt)
qed simp_all

lemma map_upt_split:
  assumes "k \<le> n"
  shows "map f [0..<n] = map f [0..<k] @ map (\<lambda>i. f (k + i)) [0..<n - k]"
  using assms by (intro nth_equalityI) (auto simp: nth_append)

lemma copyin_loop_ok:
  assumes "\<forall>i < unat n. \<exists>b. ubyte s (a + of_nat i) = Inr b"
  shows "copyin_loop s a n acc = (None, acc @ map (\<lambda>i. projr (ubyte s (a + of_nat i))) [0..<unat n])"
  using assms
proof (induction s a n acc rule: copyin_loop.induct)
  case (1 s a n acc)
  show ?case
  proof (cases "n = 0")
    case True
    then show ?thesis by (simp add: copyin_loop.simps)
  next
    case False
    then obtain k where k: "0 < k" "k \<le> 4096 - unat a mod 4096" "k \<le> unat n"
      "page_len a n = of_nat k" "unat (of_nat k :: size_t) = k" "unat (n - of_nat k) = unat n - k"
      by (rule page_len_split)
    obtain poff where poff: "populate s (a - (a AND PAGE_MASK)) VM_PROT_R = Inr poff"
      using "1.prems" [rule_format, of 0] k by (auto simp: ubyte_def split: sum.splits)
    let ?g = "\<lambda>i. projr (ubyte s (a + of_nat i))"
    have pg: "copyin_page s a n = Inr (map ?g [0..<k])"
      by (simp add: copyin_page_ubyte poff k(4,5))
    have rest: "\<forall>i < unat (n - page_len a n). \<exists>b. ubyte s (a + page_len a n + of_nat i) = Inr b"
    proof (intro allI impI)
      fix i assume "i < unat (n - page_len a n)"
      then have "k + i < unat n" using k(4,6) by simp
      from "1.prems" [rule_format, OF this]
      show "\<exists>b. ubyte s (a + page_len a n + of_nat i) = Inr b"
        by (simp add: k(4) add.assoc)
    qed
    from "1.IH" [OF False pg rest] False show ?thesis
      by (subst copyin_loop.simps) (simp add: pg map_upt_split [OF k(3)] k(4,6) add.assoc)
  qed
qed

lemma copyin_loop_fault:
  assumes "i < unat n" "ubyte s (a + of_nat i) = Inl e"
  shows "\<exists>e' bs. copyin_loop s a n acc = (Some e', bs)"
  using assms
proof (induction s a n acc arbitrary: i rule: copyin_loop.induct)
  case (1 s a n acc)
  then have n0: "n \<noteq> 0" by auto
  then obtain k where k: "0 < k" "k \<le> 4096 - unat a mod 4096" "k \<le> unat n"
      "page_len a n = of_nat k" "unat (of_nat k :: size_t) = k" "unat (n - of_nat k) = unat n - k"
    by (rule page_len_split)
  show ?case
  proof (cases "copyin_page s a n")
    case (Inl e')
    with n0 show ?thesis by (simp add: copyin_loop.simps)
  next
    case (Inr bs)
    then obtain poff where poff: "populate s (a - (a AND PAGE_MASK)) VM_PROT_R = Inr poff"
      by (auto simp: copyin_page_def Let_def split: sum.splits)
    have "k \<le> i"
    proof (rule ccontr)
      assume "\<not> k \<le> i"
      with k have "i < 4096 - unat a mod 4096" by simp
      with "1.prems"(2) poff show False by (simp add: ubyte_in_page)
    qed
    then have "i - k < unat (n - page_len a n)" using "1.prems"(1) k(4,6) by simp
    moreover have "ubyte s (a + page_len a n + of_nat (i - k)) = Inl e"
      using "1.prems"(2) \<open>k \<le> i\<close> by (simp add: k(4) of_nat_diff)
    ultimately have "\<exists>e' bs'. copyin_loop s (a + page_len a n) (n - page_len a n) (acc @ bs)
        = (Some e', bs')"
      by (rule "1.IH" [OF n0 Inr])
    with n0 Inr show ?thesis by (subst copyin_loop.simps) simp
  qed
qed


text \<open>
  Writing needs the frames of distinct pages to be distinct: a byte stored in one page shows in no
  other.
\<close>

definition frames_inj :: "uspace \<Rightarrow> bool" where
  "frames_inj s \<longleftrightarrow> (\<forall>p q f. populate s p VM_PROT_R = Inr f \<longrightarrow> populate s q VM_PROT_R = Inr f \<longrightarrow> p = q)"

lemma copyout_page_ubyte:
  assumes "frames_inj s" "copyout_page s a bs n = Inr s'" "unat n \<le> length bs"
  shows "populate s' = populate s \<and> region_addr s' = region_addr s \<and> region_size s' = region_size s
    \<and> (\<forall>x. ubyte s' x = (if unat (x - a) < unat (page_len a n) then Inr (bs ! unat (x - a))
                         else ubyte s x))"
proof -
  let ?pad = "a AND PAGE_MASK" and ?len = "unat (page_len a n)"
  obtain poff where poff: "populate s (a - ?pad) VM_PROT_R = Inr poff"
    and s': "s' = s\<lparr>frames := (frames s)(poff := mem_store (frames s poff) ?pad (take ?len bs))\<rparr>"
    using assms(2) by (auto simp: copyout_page_def Let_def split: sum.splits)
  have len: "length (take ?len bs) = ?len" using assms(3) by (simp add: unat_page_len)
  have "ubyte s' x = (if unat (x - a) < ?len then Inr (bs ! unat (x - a)) else ubyte s x)" for x
  proof (cases "x - (x AND PAGE_MASK) = a - ?pad")
    case True
    then have "(x AND PAGE_MASK) - ?pad = x - a" by (simp add: algebra_simps)
    with True show ?thesis using poff len
      by (simp add: ubyte_def s' mem_store_def)
  next
    case False
    have "\<not> unat (x - a) < ?len"
    proof
      assume "unat (x - a) < ?len"
      then have "unat (x - a) < 4096 - unat a mod 4096" by (simp add: unat_page_len)
      from page_base_add [OF this] False show False by simp
    qed
    moreover have "ubyte s' x = ubyte s x"
      using False poff assms(1) by (auto simp: ubyte_def s' frames_inj_def split: sum.split)
    ultimately show ?thesis by simp
  qed
  with s' show ?thesis by simp
qed

lemma copyout_loop_ok:
  assumes "frames_inj s" "unat n \<le> length bs" "\<forall>i < unat n. \<exists>b. ubyte s (a + of_nat i) = Inr b"
  shows "\<exists>s'. copyout_loop s a bs n = (None, s') \<and> populate s' = populate s
    \<and> region_addr s' = region_addr s \<and> region_size s' = region_size s
    \<and> (\<forall>x. ubyte s' x = (if unat (x - a) < unat n then Inr (bs ! unat (x - a)) else ubyte s x))"
  using assms
proof (induction s a bs n rule: copyout_loop.induct)
  case (1 s a bs n)
  show ?case
  proof (cases "n = 0")
    case True
    then show ?thesis by (simp add: copyout_loop.simps)
  next
    case False
    then obtain k where k: "0 < k" "k \<le> 4096 - unat a mod 4096" "k \<le> unat n"
      "page_len a n = of_nat k" "unat (of_nat k :: size_t) = k" "unat (n - of_nat k) = unat n - k"
      by (rule page_len_split)
    obtain poff where "populate s (a - (a AND PAGE_MASK)) VM_PROT_R = Inr poff"
      using "1.prems"(3) [rule_format, of 0] k by (auto simp: ubyte_def split: sum.splits)
    then obtain s1 where pg: "copyout_page s a bs n = Inr s1"
      by (auto simp: copyout_page_def Let_def)
    note s1 = copyout_page_ubyte [OF "1.prems"(1) pg "1.prems"(2), unfolded k(4,5)]
    have inj1: "frames_inj s1" using "1.prems"(1) s1 by (simp add: frames_inj_def)
    have len1: "unat (n - page_len a n) \<le> length (drop (unat (page_len a n)) bs)"
      using "1.prems"(2) by (simp add: k(4-6))
    have map1: "\<forall>i < unat (n - page_len a n). \<exists>b. ubyte s1 (a + page_len a n + of_nat i) = Inr b"
    proof (intro allI impI)
      fix i assume "i < unat (n - page_len a n)"
      then have "k + i < unat n" using k(4,6) by simp
      from "1.prems"(3) [rule_format, OF this]
      show "\<exists>b. ubyte s1 (a + page_len a n + of_nat i) = Inr b"
        using s1 by (simp add: k(4) add.assoc)
    qed
    from "1.IH" [OF False pg inj1 len1 map1] obtain s' where
      s': "copyout_loop s1 (a + of_nat k) (drop k bs) (n - of_nat k) = (None, s')"
        "populate s' = populate s1" "region_addr s' = region_addr s1" "region_size s' = region_size s1"
        "\<And>x. ubyte s' x = (if unat (x - (a + of_nat k)) < unat n - k
           then Inr (drop k bs ! unat (x - (a + of_nat k))) else ubyte s1 x)"
      by (auto simp: k(4-6))
    have klt: "k < 2 ^ 64" using k(2) by simp
    have "ubyte s' x = (if unat (x - a) < unat n then Inr (bs ! unat (x - a)) else ubyte s x)" for x
      using s1 k(3) unat_lt64 [of n] "1.prems"(2)
      by (auto simp: s'(5) unat_offset_shift [OF klt])
    with s' s1 pg False show ?thesis
      by (subst copyout_loop.simps) (simp add: k(4,5))
  qed
qed

lemma copyout_page_populate:
  "copyout_page s a bs n = Inr s' \<Longrightarrow>
     populate s' = populate s \<and> region_addr s' = region_addr s \<and> region_size s' = region_size s"
  by (auto simp: copyout_page_def Let_def split: sum.splits)

lemma copyout_loop_populate:
  "copyout_loop s a bs n = (e, s') \<Longrightarrow>
     populate s' = populate s \<and> region_addr s' = region_addr s \<and> region_size s' = region_size s"
proof (induction s a bs n rule: copyout_loop.induct)
  case (1 s a bs n)
  show ?case
  proof (cases "n = 0")
    case True
    with "1.prems" show ?thesis by (subst (asm) copyout_loop.simps) simp
  next
    case False
    show ?thesis
    proof (cases "copyout_page s a bs n")
      case (Inl x)
      with False "1.prems" show ?thesis by (subst (asm) copyout_loop.simps) simp
    next
      case (Inr t)
      with False "1.prems" have "copyout_loop t (a + page_len a n) (drop (unat (page_len a n)) bs)
          (n - page_len a n) = (e, s')"
        by (subst (asm) copyout_loop.simps) simp
      from "1.IH" [OF False Inr this] copyout_page_populate [OF Inr] show ?thesis by simp
    qed
  qed
qed

section \<open>Strings\<close>

text \<open>The bytes of a frame from an offset to its end.\<close>

definition page_tail :: "uspace \<Rightarrow> uintptr_t \<Rightarrow> size_t \<Rightarrow> u8 list" where
  "page_tail s poff skip = map (\<lambda>i. frames s poff (skip + of_nat i)) [0..<unat (PAGE_SIZE - skip)]"

text \<open>
  The page loops step an address to the end of the region; near the top of the address space the
  step would wrap and the loop not end, so their value is an option.
\<close>

partial_function (option) verifystr_loop ::
  "uspace \<Rightarrow> uintptr_t \<Rightarrow> uintptr_t \<Rightarrow> uintptr_t \<Rightarrow> uintptr_t \<Rightarrow> errno option option" where
  "verifystr_loop s ptr start it end =
     (if it < end then
        (case populate s it VM_PROT_R of
           Inl e \<Rightarrow> Some (Some e)
         | Inr poff \<Rightarrow>
             if 0 \<in> set (page_tail s poff (if it = start then ptr - start else 0)) then Some None
             else verifystr_loop s ptr start (it + PAGE_SIZE) end)
      else Some (Some EFAULT))"

definition vm_verifystr :: "uspace \<Rightarrow> uintptr_t \<Rightarrow> errno option option" where
  "vm_verifystr s ptr =
     (if \<not> is_range_user s ptr 1 then Some (Some EFAULT)
      else let start = ptr AND NOT PAGE_MASK; end = region_addr s + region_size s
           in verifystr_loop s ptr start start end)"

fun copystr_bytes ::
  "u8 list \<Rightarrow> size_t \<Rightarrow> u8 list \<Rightarrow> (errno option \<times> u8 list) + (size_t \<times> u8 list)" where
  "copystr_bytes [] n kstr = Inr (n, kstr)"
| "copystr_bytes (b # bs) n kstr =
     (if n = 0 then Inl (Some ENAMETOOLONG, kstr)
      else if b = 0 then Inl (None, kstr @ [b])
      else copystr_bytes bs (n - 1) (kstr @ [b]))"

partial_function (option) copystr_loop ::
  "uspace \<Rightarrow> uintptr_t \<Rightarrow> uintptr_t \<Rightarrow> uintptr_t \<Rightarrow> uintptr_t \<Rightarrow> size_t \<Rightarrow> u8 list \<Rightarrow>
    (errno option \<times> u8 list) option" where
  "copystr_loop s ustr start it end n kstr =
     (if it < end then
        (case populate s it VM_PROT_R of
           Inl e \<Rightarrow> Some (Some e, kstr)
         | Inr poff \<Rightarrow>
             (case copystr_bytes (page_tail s poff (if it = start then ustr - start else 0)) n kstr of
                Inl r \<Rightarrow> Some r
              | Inr (n', kstr') \<Rightarrow> copystr_loop s ustr start (it + PAGE_SIZE) end n' kstr'))
      else Some (Some EFAULT, kstr))"

definition vm_copystr :: "uspace \<Rightarrow> uintptr_t \<Rightarrow> size_t \<Rightarrow> (errno option \<times> u8 list) option" where
  "vm_copystr s ustr n =
     (if \<not> is_range_user s ustr 1 then Some (Some EFAULT, [])
      else let start = ustr AND NOT PAGE_MASK; end = region_addr s + region_size s
           in copystr_loop s ustr start start end n [])"

lemma copystr_bytes_nonzero:
  assumes "0 \<notin> set xs"
  shows "copystr_bytes (xs @ ys) n k =
    (if length xs \<le> unat n then copystr_bytes ys (n - of_nat (length xs)) (k @ xs)
     else Inl (Some ENAMETOOLONG, k @ take (unat n) xs))"
  using assms
proof (induction xs arbitrary: n k)
  case Nil
  then show ?case by simp
next
  case (Cons x xs)
  show ?case
  proof (cases "n = 0")
    case True
    then show ?thesis by simp
  next
    case False
    then have "unat (n - 1) = unat n - 1" "0 < unat n" by (simp_all add: unat_minus_one unat_gt_0)
    moreover have "n - 1 - of_nat (length xs) = n - of_nat (length (x # xs))" by simp
    moreover have "length xs \<le> unat n - 1 \<longleftrightarrow> length (x # xs) \<le> unat n"
      using \<open>0 < unat n\<close> by auto
    ultimately show ?thesis
      using Cons.IH [of "n - 1" "k @ [x]"] Cons.prems False by (simp add: take_Cons' diff_diff_eq)
  qed
qed

lemma page_tail_ubyte:
  assumes "populate s (a - (a AND PAGE_MASK)) VM_PROT_R = Inr poff"
  shows "page_tail s poff (a AND PAGE_MASK)
    = map (\<lambda>i. projr (ubyte s (a + of_nat i))) [0..<4096 - unat a mod 4096]"
proof -
  have "unat (PAGE_SIZE - (a AND PAGE_MASK)) = 4096 - unat a mod 4096"
    using mod_less_divisor [of 4096 "unat a"]
    by (subst unat_sub) (auto simp: word_le_nat_alt unat_and_page_mask PAGE_SIZE_def)
  then show ?thesis by (simp add: page_tail_def ubyte_in_page assms)
qed

text \<open>A NUL-terminated string in user memory.\<close>

definition ustring :: "uspace \<Rightarrow> uintptr_t \<Rightarrow> u8 list \<Rightarrow> bool" where
  "ustring s a cs \<longleftrightarrow> 0 \<notin> set cs \<and> (\<forall>i < length cs. ubyte s (a + of_nat i) = Inr (cs ! i))
     \<and> ubyte s (a + of_nat (length cs)) = Inr 0
     \<and> unat a + length cs < unat (region_addr s + region_size s)"

lemma ustring_page:
  assumes "ustring s a cs" "populate s (a - (a AND PAGE_MASK)) VM_PROT_R = Inr poff"
    and m: "m = 4096 - unat a mod 4096"
  shows "length cs < m \<Longrightarrow> \<exists>ys. page_tail s poff (a AND PAGE_MASK) = cs @ 0 # ys"
    and "m \<le> length cs \<Longrightarrow> page_tail s poff (a AND PAGE_MASK) = take m cs"
proof -
  let ?g = "\<lambda>i. projr (ubyte s (a + of_nat i))"
  have tail: "page_tail s poff (a AND PAGE_MASK) = map ?g [0..<m]"
    using page_tail_ubyte [OF assms(2)] m by simp
  { assume "length cs < m"
    then have "[0..<m] = [0..<length cs] @ length cs # [Suc (length cs)..<m]"
      using upt_add_eq_append [of 0 "length cs" "m - length cs"] by (simp add: upt_conv_Cons)
    then have "map ?g [0..<m] = map ?g [0..<length cs] @ ?g (length cs) # map ?g [Suc (length cs)..<m]"
      by (simp only: map_append list.map)
    moreover have "map ?g [0..<length cs] = cs"
      using assms(1) by (intro nth_equalityI) (auto simp: ustring_def)
    moreover have "?g (length cs) = 0" using assms(1) by (simp add: ustring_def)
    ultimately show "\<exists>ys. page_tail s poff (a AND PAGE_MASK) = cs @ 0 # ys" using tail by simp }
  { assume "m \<le> length cs"
    then have "map ?g [0..<m] = take m cs"
      using assms(1) by (intro nth_equalityI) (auto simp: ustring_def)
    then show "page_tail s poff (a AND PAGE_MASK) = take m cs" using tail by simp }
qed


lemma round_up_page: "x + (4096 - x mod 4096) = (x div 4096 + 1) * (4096 :: nat)"
proof -
  define q r where "q = x div 4096" and "r = x mod 4096"
  have "x = q * 4096 + r" "r < 4096" by (simp_all add: q_def r_def)
  then have "x + (4096 - r) = (q + 1) * 4096" by simp
  then show ?thesis by (simp only: q_def r_def)
qed

lemma ustring_next_page:
  assumes u: "ustring s a cs" and m: "m = 4096 - unat a mod 4096" "m \<le> length cs"
  shows "ustring s (a + of_nat m) (drop m cs)" "(a + of_nat m) AND PAGE_MASK = 0"
    "(a - (a AND PAGE_MASK)) + PAGE_SIZE = a + of_nat m" "unat (a + of_nat m) = unat a + m"
proof -
  have m_lt: "m \<le> 4096" "0 < m" using m mod_less_divisor [of 4096 "unat a"] by auto
  then have um: "unat (of_nat m :: uintptr_t) = m" by (intro unat_of_nat64) simp
  have "unat a + length cs < 2 ^ 64"
    using u unat_lt64 [of "region_addr s + region_size s"] by (simp add: ustring_def)
  then show ua: "unat (a + of_nat m) = unat a + m" using m um by (simp add: unat_add64)
  have "unat a + m = (unat a div 4096 + 1) * 4096"
    unfolding m(1) by (rule round_up_page)
  then have "(unat a + m) mod 4096 = 0" by (simp only: mod_mult_self2_is_0)
  then show "(a + of_nat m) AND PAGE_MASK = 0"
    by (simp add: word_unat_eq_iff unat_and_page_mask ua)
  have "unat a mod 4096 + m = 4096"
    using m(1) mod_less_divisor [of 4096 "unat a", simplified] by simp
  then have "PAGE_SIZE = (a AND PAGE_MASK) + of_nat m"
    by (simp add: word_unat_eq_iff unat_and_page_mask unat_add64 um PAGE_SIZE_def)
  then show "(a - (a AND PAGE_MASK)) + PAGE_SIZE = a + of_nat m"
    by (elim ssubst) simp
  have "0 \<notin> set (drop m cs)" using u by (auto simp: ustring_def dest: in_set_dropD)
  moreover have "ubyte s (a + of_nat m + of_nat i) = Inr (drop m cs ! i)" if "i < length cs - m" for i
  proof -
    from that have "m + i < length cs" by simp
    with u have "ubyte s (a + of_nat (m + i)) = Inr (cs ! (m + i))" unfolding ustring_def by blast
    with m(2) show ?thesis by (simp add: add.assoc)
  qed
  moreover have "ubyte s (a + of_nat m + of_nat (length cs - m)) = Inr 0"
    using u m(2) by (simp add: ustring_def of_nat_diff)
  ultimately show "ustring s (a + of_nat m) (drop m cs)"
    using u m(2) ua by (simp add: ustring_def)
qed

lemma ustring_first: "ustring s a cs \<Longrightarrow> \<exists>b. ubyte s a = Inr b"
proof (cases cs)
  case Nil
  then show "ustring s a cs \<Longrightarrow> ?thesis" by (simp add: ustring_def)
next
  case (Cons c cs')
  assume "ustring s a cs"
  then have "0 < length cs \<longrightarrow> ubyte s (a + of_nat 0) = Inr (cs ! 0)" unfolding ustring_def by blast
  with Cons show ?thesis by simp
qed

lemma copystr_loop_step:
  assumes "it < e" "populate s it VM_PROT_R = Inr poff"
    and "page_tail s poff (if it = start then ustr - start else 0) = bs"
  shows "copystr_loop s ustr start it e n k =
    (case copystr_bytes bs n k of
       Inl r \<Rightarrow> Some r
     | Inr (n', k') \<Rightarrow> copystr_loop s ustr start (it + PAGE_SIZE) e n' k')"
  using assms by (subst copystr_loop.simps) simp

lemma copystr_loop_ustring:
  assumes "ustring s a cs" and e: "e = region_addr s + region_size s" and "unat e + 4096 \<le> 2 ^ 64"
    and "unat start \<le> unat (a - (a AND PAGE_MASK))"
    and "(if a - (a AND PAGE_MASK) = start then ustr - start else 0) = a AND PAGE_MASK"
  shows "copystr_loop s ustr start (a - (a AND PAGE_MASK)) e n k = Some
    (if length cs < unat n then (None, k @ cs @ [0]) else (Some ENAMETOOLONG, k @ take (unat n) cs))"
  using assms(1,4,5)
proof (induction "length cs" arbitrary: a cs n k rule: less_induct)
  case less
  define m where "m = 4096 - unat a mod 4096"
  let ?it = "a - (a AND PAGE_MASK)"
  have it: "unat ?it = unat a - unat a mod 4096"
    by (subst unat_sub) (simp_all add: word_le_nat_alt unat_and_page_mask)
  have run: "?it < e"
    using less.prems(1) unfolding ustring_def e word_less_nat_alt it by linarith
  obtain b where "ubyte s a = Inr b" using ustring_first [OF less.prems(1)] by blast
  then obtain poff where poff: "populate s ?it VM_PROT_R = Inr poff"
    by (auto simp: ubyte_def split: sum.splits)
  note page = ustring_page [OF less.prems(1) poff m_def]
  note skip = arg_cong [OF less.prems(3), of "page_tail s poff"]
  have zero: "0 \<notin> set cs" using less.prems(1) by (simp add: ustring_def)
  show ?case
  proof (cases "length cs < m")
    case True
    then obtain ys where ys: "page_tail s poff (a AND PAGE_MASK) = cs @ 0 # ys" using page by blast
    have "copystr_bytes (cs @ 0 # ys) n k = Inl (if length cs < unat n then (None, k @ cs @ [0])
        else (Some ENAMETOOLONG, k @ take (unat n) cs))"
    proof (cases "length cs \<le> unat n")
      case True
      then have "of_nat (length cs) \<le> n" "unat (of_nat (length cs) :: size_t) = length cs"
        using unat_lt64 [of n] by (simp_all add: word_le_nat_alt unat_of_nat64)
      then have "n - of_nat (length cs) = 0 \<longleftrightarrow> unat n = length cs"
        unfolding word_unat_eq_iff using True by (simp add: unat_sub)
      with True zero show ?thesis by (auto simp: copystr_bytes_nonzero)
    next
      case False
      with zero show ?thesis by (simp add: copystr_bytes_nonzero)
    qed
    then show ?thesis
      using copystr_loop_step [OF run poff trans [OF skip ys], of n k] by simp
  next
    case False
    then have m_le: "m \<le> length cs" by simp
    have m_pos: "0 < m" by (simp add: m_def)
    note nxt = ustring_next_page [OF less.prems(1) m_def m_le]
    have tail: "page_tail s poff (a AND PAGE_MASK) = take m cs" using page m_le by blast
    have bytes: "copystr_bytes (take m cs) n k =
      (if m \<le> unat n then Inr (n - of_nat m, k @ take m cs) else Inl (Some ENAMETOOLONG, k @ take (unat n) cs))"
    proof -
      have "0 \<notin> set (take m cs)" using zero by (blast dest: in_set_takeD)
      moreover have "length (take m cs) = m" using m_le by simp
      moreover have "\<not> m \<le> unat n \<Longrightarrow> take (unat n) (take m cs) = take (unat n) cs" by simp
      ultimately show ?thesis using copystr_bytes_nonzero [of "take m cs" "[]" n k] by simp
    qed
    show ?thesis
    proof (cases "m \<le> unat n")
      case True
      have next_it: "(a + of_nat m) - ((a + of_nat m) AND PAGE_MASK) = ?it + PAGE_SIZE"
        using nxt by simp
      have past: "unat start < unat (a + of_nat m)" using less.prems(2) it nxt(4) m_pos by simp
      have "length (drop m cs) < length cs" using m_pos m_le by simp
      moreover have "unat start \<le> unat ((a + of_nat m) - ((a + of_nat m) AND PAGE_MASK))"
        using past by (simp add: nxt(2))
      moreover have "(if (a + of_nat m) - ((a + of_nat m) AND PAGE_MASK) = start then ustr - start else 0)
          = (a + of_nat m) AND PAGE_MASK"
        using past by (auto simp: nxt(2))
      ultimately have IH: "copystr_loop s ustr start (?it + PAGE_SIZE) e (n - of_nat m) (k @ take m cs) = Some
          (if length (drop m cs) < unat (n - of_nat m) then (None, (k @ take m cs) @ drop m cs @ [0])
           else (Some ENAMETOOLONG, (k @ take m cs) @ take (unat (n - of_nat m)) (drop m cs)))"
        using less.hyps [OF _ nxt(1)] unfolding next_it by blast
      have um: "unat (n - of_nat m) = unat n - m"
        using True unat_lt64 [of n] by (subst unat_sub) (simp_all add: word_le_nat_alt unat_of_nat64)
      have "take m cs @ take (unat n - m) (drop m cs) = take (unat n) cs"
        using True by (metis le_add_diff_inverse take_add)
      then show ?thesis
        using copystr_loop_step [OF run poff trans [OF skip tail], of n k] True m_le
        unfolding bytes by (simp add: IH um less_diff_conv)
    next
      case False
      with m_le have "\<not> length cs < unat n" by simp
      then show ?thesis
        using copystr_loop_step [OF run poff trans [OF skip tail], of n k] False
        unfolding bytes by simp
    qed
  qed
qed


lemma verifystr_loop_step:
  assumes "it < e" "populate s it VM_PROT_R = Inr poff"
    and "page_tail s poff (if it = start then ptr - start else 0) = bs"
  shows "verifystr_loop s ptr start it e =
    (if 0 \<in> set bs then Some None else verifystr_loop s ptr start (it + PAGE_SIZE) e)"
  using assms by (subst verifystr_loop.simps) simp

section \<open>Arrays of strings\<close>

text \<open>
  \<^verbatim>\<open>((void**)st)[i]\<close>: the pointers a page holds from an offset, eight bytes each, least significant
  first.
\<close>

fun ptrs_of :: "u8 list \<Rightarrow> uintptr_t list" where
  "ptrs_of (a # b # c # d # e # f # g # h # bs) =
     of_nat (horner_sum unat 256 [a, b, c, d, e, f, g, h]) # ptrs_of bs"
| "ptrs_of _ = []"

text \<open>
  One page of the array: \<open>Some True\<close> when the source returns \<^verbatim>\<open>ret\<close>, which is 0 there, \<open>Some False\<close> when
  it goes on with the next page. A string that fails its check makes it return \<^verbatim>\<open>ret\<close> too.
\<close>

fun verifystra_page :: "uspace \<Rightarrow> uintptr_t list \<Rightarrow> bool option" where
  "verifystra_page s [] = Some False"
| "verifystra_page s (str # strs) =
     (if str = 0 then Some True
      else case vm_verifystr s str of
        None \<Rightarrow> None
      | Some (Some res) \<Rightarrow> Some True
      | Some None \<Rightarrow> verifystra_page s strs)"

partial_function (option) verifystra_loop ::
  "uspace \<Rightarrow> uintptr_t \<Rightarrow> uintptr_t \<Rightarrow> uintptr_t \<Rightarrow> uintptr_t \<Rightarrow> errno option option" where
  "verifystra_loop s array start it end =
     (if it < end then
        (case populate s it VM_PROT_R of
           Inl e \<Rightarrow> Some (Some e)
         | Inr poff \<Rightarrow>
             (case verifystra_page s (ptrs_of (page_tail s poff (if it = start then array - start else 0))) of
                None \<Rightarrow> None
              | Some returned \<Rightarrow>
                  if returned then Some None
                  else verifystra_loop s array start (it + PAGE_SIZE) end))
      else Some (Some EFAULT))"

definition vm_verifystra :: "uspace \<Rightarrow> uintptr_t \<Rightarrow> errno option option" where
  "vm_verifystra s array =
     (if \<not> is_range_user s array 8 then Some (Some EFAULT)
      else let start = array AND NOT PAGE_MASK; end = region_addr s + region_size s
           in verifystra_loop s array start start end)"

lemma page_start: "a AND NOT PAGE_MASK = a - (a AND PAGE_MASK)" for a :: uintptr_t
proof -
  have "a = (a AND NOT PAGE_MASK) + (a AND PAGE_MASK)"
    by (subst disjunctive_add_eq_or) (auto simp add: bit_eq_iff bit_simps)
  then show ?thesis by (metis add_diff_cancel_right')
qed

lemma is_range_user_iff:
  "is_range_user s a n \<longleftrightarrow> a \<noteq> 0 \<and> region_addr s \<le> a \<and> unat a + unat n < 2 ^ 64
     \<and> unat a + unat n \<le> unat (region_addr s + region_size s)"
  by (auto simp: is_range_user_def add_overflow_def word_le_nat_alt word_less_nat_alt unat_add64)


lemma is_range_user_region:
  "is_range_user s a n \<longleftrightarrow> a \<noteq> 0 \<and> unat (region_addr s) \<le> unat a \<and>
     unat a + unat n \<le> (unat (region_addr s) + unat (region_size s)) mod 2 ^ 64"
proof -
  have e: "unat (region_addr s + region_size s) = (unat (region_addr s) + unat (region_size s)) mod 2 ^ 64"
    by (simp add: unat_word_ariths)
  have "x mod 2 ^ 64 < 2 ^ 64" for x :: nat by simp
  then have "unat a + unat n < 2 ^ 64" if "unat a + unat n \<le> (unat (region_addr s) + unat (region_size s)) mod 2 ^ 64"
    using that by (rule le_less_trans [rotated])
  then show ?thesis unfolding is_range_user_iff e by (auto simp: word_le_nat_alt)
qed

lemma vm_copyin_range:
  "(\<not> is_range_user s a n \<longrightarrow> vm_copyin s a n = (Some EFAULT, [])) \<and>
   (is_range_user s a n \<longrightarrow>
     (fst (vm_copyin s a n) = None \<longleftrightarrow> (\<forall>i < unat n. \<exists>b. ubyte s (a + of_nat i) = Inr b)) \<and>
     (fst (vm_copyin s a n) = None \<longrightarrow>
        map Inr (snd (vm_copyin s a n)) = map (\<lambda>i. ubyte s (a + of_nat i)) [0..<unat n]))"
proof (cases "is_range_user s a n \<and> (\<forall>i < unat n. \<exists>b. ubyte s (a + of_nat i) = Inr b)")
  case True
  then have "vm_copyin s a n = (None, map (\<lambda>i. projr (ubyte s (a + of_nat i))) [0..<unat n])"
    using copyin_loop_ok [of n s a "[]"] by (simp add: vm_copyin_def)
  moreover have "map (\<lambda>i. Inr (projr (ubyte s (a + of_nat i)))) [0..<unat n]
      = map (\<lambda>i. ubyte s (a + of_nat i)) [0..<unat n]"
    using True by (intro map_cong) auto
  ultimately show ?thesis using True by (simp add: comp_def)
next
  case False
  show ?thesis
  proof (cases "is_range_user s a n")
    case True
    with False obtain i where i: "i < unat n" "\<nexists>b. ubyte s (a + of_nat i) = Inr b" by blast
    then obtain e where "ubyte s (a + of_nat i) = Inl e" by (cases "ubyte s (a + of_nat i)") auto
    from copyin_loop_fault [OF i(1) this, of "[]"] have "fst (vm_copyin s a n) \<noteq> None"
      using True by (auto simp: vm_copyin_def)
    with True i show ?thesis by blast
  next
    case False
    then show ?thesis by (simp add: vm_copyin_def)
  qed
qed

section \<open>Properties\<close>

text \<open>
  C11. \<^verbatim>\<open>vm_copyin\<close> is exact. A range is inside the user region when it does not start at the null address or below the
  region and its end, computed without wrapping around, is not beyond the end of the region, which the kernel computes
  modulo 2^64. Any other range, one whose end wraps around included, is refused with EFAULT before anything is read;
  inside the region the copy succeeds exactly when every byte of the range is mapped, and then delivers those bytes in order.
\<close>

theorem vm_copyin_exact:
  "if a \<noteq> 0 \<and> unat (region_addr s) \<le> unat a \<and> unat a + unat n \<le> (unat (region_addr s) + unat (region_size s)) mod 2 ^ 64
   then (fst (vm_copyin s a n) = None \<longleftrightarrow> (\<forall>i < unat n. \<exists>b. ubyte s (a + of_nat i) = Inr b)) \<and>
     (fst (vm_copyin s a n) = None \<longrightarrow>
        map Inr (snd (vm_copyin s a n)) = map (\<lambda>i. ubyte s (a + of_nat i)) [0..<unat n])
   else vm_copyin s a n = (Some EFAULT, [])"
  using vm_copyin_range [of s a n] unfolding is_range_user_region by auto

text \<open>A space whose user region is one page, backed by one frame of zeroes.\<close>

definition one_page_space :: uspace where
  "one_page_space = \<lparr>region_addr = 0x1000, region_size = 0x1000,
     populate = (\<lambda>p _. if p = 0x1000 then Inr p else Inl EFAULT), frames = (\<lambda>_ _. 0)\<rparr>"

lemma one_page_mapped:
  "i < 4096 \<Longrightarrow> ubyte one_page_space (0x1000 + of_nat i) = Inr 0"
  using ubyte_in_page [of i "0x1000" one_page_space]
  by (simp add: one_page_space_def PAGE_MASK_def)

theorem vm_copyin_exact_witness:
  "vm_copyin one_page_space 0x1FFC 4 = (None, [0, 0, 0, 0]) \<and> vm_copyin one_page_space 0x1FFC 8 = (Some EFAULT, [])
   \<and> vm_copyin one_page_space 0x1FFC 0xFFFFFFFFFFFFF004 = (Some EFAULT, [])"
proof -
  have m: "ubyte one_page_space (0x1FFC + of_nat i) = Inr 0" if "i < 4" for i
    using one_page_mapped [of "0xFFC + i"] that by (simp add: add.assoc [symmetric])
  have in_range: "fst (vm_copyin one_page_space 0x1FFC 4) = None"
    using vm_copyin_exact [of "0x1FFC" one_page_space 4] m by (simp add: one_page_space_def)
  then have "map Inr (snd (vm_copyin one_page_space 0x1FFC 4)) = map (\<lambda>i. ubyte one_page_space (0x1FFC + of_nat i)) [0..<4]"
    using vm_copyin_exact [of "0x1FFC" one_page_space 4] by (simp add: one_page_space_def)
  also have "\<dots> = map Inr [0, 0, 0, 0]" using m [of 0] m [of 1] m [of 2] m [of 3] by (simp add: upt_rec)
  finally have "snd (vm_copyin one_page_space 0x1FFC 4) = [0, 0, 0, 0]" by (auto simp: map_eq_Cons_conv)
  moreover have "vm_copyin one_page_space 0x1FFC 8 = (Some EFAULT, [])"
    using vm_copyin_exact [of "0x1FFC" one_page_space 8] by (simp add: one_page_space_def)
  moreover have "vm_copyin one_page_space 0x1FFC 0xFFFFFFFFFFFFF004 = (Some EFAULT, [])"
    using vm_copyin_exact [of "0x1FFC" one_page_space "0xFFFFFFFFFFFFF004"] by (simp add: one_page_space_def)
  ultimately show ?thesis using in_range by (auto simp: prod_eq_iff)
qed

text \<open>
  C12. What \<^verbatim>\<open>vm_copyout\<close> stores, \<^verbatim>\<open>vm_copyin\<close> reads back, and the copy changes no byte of user memory
  outside its range: for a mapped range of the user region whose pages have frames of their own.
\<close>

theorem vm_copyout_roundtrip:
  assumes "frames_inj s" "is_range_user s a n" "length bs = unat n"
    and "\<forall>i < unat n. \<exists>b. ubyte s (a + of_nat i) = Inr b"
  shows "\<exists>s'. vm_copyout s a bs n = (None, s') \<and> vm_copyin s' a n = (None, bs)
    \<and> (\<forall>x. unat n \<le> unat (x - a) \<longrightarrow> ubyte s' x = ubyte s x)"
proof -
  obtain s' where s': "copyout_loop s a bs n = (None, s')" "populate s' = populate s"
    "region_addr s' = region_addr s" "region_size s' = region_size s"
    "\<And>x. ubyte s' x = (if unat (x - a) < unat n then Inr (bs ! unat (x - a)) else ubyte s x)"
    using copyout_loop_ok [OF assms(1) _ assms(4), of bs] assms(3) by auto
  have read: "ubyte s' (a + of_nat i) = Inr (bs ! i)" if "i < unat n" for i
    using that unat_lt64 [of n] by (simp add: s'(5) unat_of_nat64)
  then have "copyin_loop s' a n [] = (None, map (\<lambda>i. projr (ubyte s' (a + of_nat i))) [0..<unat n])"
    by (subst copyin_loop_ok) auto
  moreover have "map (\<lambda>i. projr (ubyte s' (a + of_nat i))) [0..<unat n] = bs"
    using read assms(3) by (intro nth_equalityI) auto
  moreover have "is_range_user s' a n" using assms(2) unfolding is_range_user_iff s'(3,4) .
  ultimately have "vm_copyin s' a n = (None, bs)" by (simp add: vm_copyin_def)
  moreover have "vm_copyout s a bs n = (None, s')" using s'(1) assms(2) by (simp add: vm_copyout_def)
  ultimately show ?thesis using s'(5) by auto
qed

theorem vm_copyout_roundtrip_witness:
  "\<exists>s'. vm_copyout one_page_space 0x1FFD [7, 8, 9] 3 = (None, s')
    \<and> vm_copyin s' 0x1FFD 3 = (None, [7, 8, 9])
    \<and> (\<forall>x. unat (3 :: size_t) \<le> unat (x - 0x1FFD) \<longrightarrow> ubyte s' x = ubyte one_page_space x)"
proof (rule vm_copyout_roundtrip)
  show "frames_inj one_page_space"
    by (auto simp: frames_inj_def one_page_space_def split: if_splits)
  show "is_range_user one_page_space 0x1FFD 3"
    by (simp add: is_range_user_def add_overflow_def one_page_space_def)
  show "\<forall>i < unat (3 :: size_t). \<exists>b. ubyte one_page_space (0x1FFD + of_nat i) = Inr b"
  proof (intro allI impI)
    fix i assume "i < unat (3 :: size_t)"
    then show "\<exists>b. ubyte one_page_space (0x1FFD + of_nat i) = Inr b"
      using one_page_mapped [of "0xFFD + i"] by (simp add: add.assoc [symmetric])
  qed
qed simp


text \<open>
  C13. \<^verbatim>\<open>vm_copystr\<close> ends and is right for every NUL-terminated string of the user region, whatever
  pages it spans: it stores the string with its terminator when both fit in the buffer, and answers
  ENAMETOOLONG after filling the buffer otherwise.
\<close>

theorem vm_copystr_correct:
  assumes "is_range_user s a 1" "ustring s a cs"
    and "unat (region_addr s + region_size s) + 4096 \<le> 2 ^ 64"
  shows "vm_copystr s a n = Some
    (if length cs < unat n then (None, cs @ [0]) else (Some ENAMETOOLONG, take (unat n) cs))"
proof -
  let ?start = "a - (a AND PAGE_MASK)"
  have "copystr_loop s a ?start ?start (region_addr s + region_size s) n [] = Some
    (if length cs < unat n then (None, [] @ cs @ [0]) else (Some ENAMETOOLONG, [] @ take (unat n) cs))"
    using assms(2) refl assms(3) order.refl by (rule copystr_loop_ustring) simp
  then show ?thesis using assms(1) by (simp add: vm_copystr_def page_start Let_def)
qed

text \<open>A string of two bytes at the end of the page, its terminator the last byte.\<close>

definition string_space :: uspace where
  "string_space = one_page_space\<lparr>frames := (\<lambda>_ off. if off = 0xFFD then 65 else if off = 0xFFE then 66 else 0)\<rparr>"

theorem vm_copystr_correct_witness:
  "vm_copystr string_space 0x1FFD 16 = Some (None, [65, 66, 0])
   \<and> vm_copystr string_space 0x1FFD 2 = Some (Some ENAMETOOLONG, [65, 66])"
proof -
  have "is_range_user string_space 0x1FFD 1"
    by (simp add: is_range_user_def add_overflow_def string_space_def one_page_space_def)
  moreover have "ustring string_space 0x1FFD [65, 66]"
    by (auto simp: ustring_def ubyte_def string_space_def one_page_space_def PAGE_MASK_def less_Suc_eq)
  moreover have "unat (region_addr string_space + region_size string_space) + 4096 \<le> 2 ^ 64"
    by (simp add: string_space_def one_page_space_def)
  ultimately show ?thesis
    using vm_copystr_correct [of string_space "0x1FFD" "[65, 66]" 16]
      vm_copystr_correct [of string_space "0x1FFD" "[65, 66]" 2] by simp
qed

text \<open>
  C22. \<^verbatim>\<open>vm_verifystra\<close> answers success for an array whose first string fails its own check: the loop
  tests \<^verbatim>\<open>res\<close> but returns \<^verbatim>\<open>ret\<close>, which is 0 at that point.
\<close>

theorem vm_verifystra_accepts_bad_string:
  assumes "is_range_user s a 8" and "populate s (a - (a AND PAGE_MASK)) VM_PROT_R = Inr poff"
    and "ptrs_of (page_tail s poff (a AND PAGE_MASK)) = p # ps" "p \<noteq> 0"
    and "vm_verifystr s p = Some (Some e)"
  shows "vm_verifystra s a = Some None"
proof -
  let ?start = "a - (a AND PAGE_MASK)"
  have "unat ?start \<le> unat a"
    by (subst unat_sub) (simp_all add: word_le_nat_alt unat_and_page_mask)
  then have "?start < region_addr s + region_size s"
    using assms(1) by (auto simp: is_range_user_iff word_less_nat_alt)
  then have "verifystra_loop s a ?start ?start (region_addr s + region_size s) = Some None"
    using assms(2-5) by (subst verifystra_loop.simps) simp
  then show ?thesis using assms(1) by (simp add: vm_verifystra_def page_start Let_def)
qed

text \<open>The last eight bytes of the page hold the pointer 1, which is below the user region.\<close>

definition bad_array_space :: uspace where
  "bad_array_space = one_page_space\<lparr>frames := (\<lambda>_ off. if off = 0xFF8 then 1 else 0)\<rparr>"

theorem vm_verifystra_accepts_bad_string_witness:
  "vm_verifystr bad_array_space 1 = Some (Some EFAULT) \<and> vm_verifystra bad_array_space 0x1FF8 = Some None"
proof -
  have bad: "vm_verifystr bad_array_space 1 = Some (Some EFAULT)"
    by (simp add: vm_verifystr_def is_range_user_def bad_array_space_def one_page_space_def)
  have "is_range_user bad_array_space 0x1FF8 8"
    by (simp add: is_range_user_def add_overflow_def bad_array_space_def one_page_space_def)
  moreover have "populate bad_array_space (0x1FF8 - (0x1FF8 AND PAGE_MASK)) VM_PROT_R = Inr 0x1000"
    by (simp add: bad_array_space_def one_page_space_def PAGE_MASK_def)
  moreover have "ptrs_of (page_tail bad_array_space 0x1000 (0x1FF8 AND PAGE_MASK)) = [1]"
    by (simp add: page_tail_def bad_array_space_def PAGE_MASK_def PAGE_SIZE_def upt_conv_Cons)
  ultimately show ?thesis using vm_verifystra_accepts_bad_string [of bad_array_space "0x1FF8"] bad by simp
qed

end
