(* ===== verification/Uio.thy ===== *)
theory Uio
  imports Ucopy
begin

text \<open>
  Scatter-gather transfers (kern/uio.c, net/include/uio.h). A \<^verbatim>\<open>struct uio\<close> carries the list of
  segments that \<^verbatim>\<open>iov\<close> and \<^verbatim>\<open>iovcnt\<close> delimit (a segment that is used up leaves the list when the
  pointer moves past it), the bytes left, the file offset and whether the segments are user
  addresses. \<open>machine\<close> is the memory a transfer can touch: the kernel's and the current process's.
  A kernel buffer a transfer fills or drains is the list of its bytes.
\<close>

section \<open>Model\<close>

record iovec =
  iov_base :: uintptr_t
  iov_len :: size_t

record uio =
  iov :: "iovec list"
  count :: size_t
  off :: u64
  userbuf :: bool

record machine =
  kmem :: mem
  vm_space :: uspace

definition uio_fromkbuf :: "uintptr_t \<Rightarrow> size_t \<Rightarrow> u64 \<Rightarrow> uio" where
  "uio_fromkbuf data len offset =
     \<lparr>iov = [\<lparr>iov_base = data, iov_len = len\<rparr>], count = len, off = offset, userbuf = False\<rparr>"

text \<open>The updates at the end of every round: the first segment, the count and the offset.\<close>

definition uio_advance :: "uio \<Rightarrow> size_t \<Rightarrow> uio" where
  "uio_advance u k =
     u\<lparr>iov := (case iov u of
                 [] \<Rightarrow> []
               | v # vs \<Rightarrow> v\<lparr>iov_base := iov_base v + k, iov_len := iov_len v - k\<rparr> # vs),
       count := count u - k, off := off u + k\<rparr>"

definition seg_size :: "iovec \<Rightarrow> size_t \<Rightarrow> size_t" where
  "seg_size v n = (if iov_len v > n then n else iov_len v)"

lemma seg_size_progress:
  "n \<noteq> 0 \<Longrightarrow> iov_len v \<noteq> 0 \<Longrightarrow> unat (n - seg_size v n) < unat n"
  by (subst unat_sub) (auto simp: seg_size_def word_less_nat_alt word_le_nat_alt
      unat_gt_0 [symmetric] simp del: unat_gt_0)

text \<open>\<^verbatim>\<open>uio_copyout\<close>: the result, the bytes stored at \<^verbatim>\<open>dst\<close> and the \<^verbatim>\<open>uio\<close>, on errors too.\<close>

function uio_copyout_loop ::
  "machine \<Rightarrow> uio \<Rightarrow> size_t \<Rightarrow> size_t \<Rightarrow> u8 list \<Rightarrow> (errno + size_t) \<times> u8 list \<times> uio" where
  "uio_copyout_loop m u n wr acc =
     (if n = 0 then (Inr wr, acc, u)
      else case iov u of
        [] \<Rightarrow> (Inr wr, acc, u)
      | v # vs \<Rightarrow>
          if iov_len v = 0 then uio_copyout_loop m (u\<lparr>iov := vs\<rparr>) n wr acc
          else let wr_size = seg_size v n;
                   (ret, bs) = (if userbuf u then vm_copyin (vm_space m) (iov_base v) wr_size
                                else (None, mem_load (kmem m) (iov_base v) (unat wr_size)))
               in case ret of
                    Some e \<Rightarrow> (Inl e, acc @ bs, u)
                  | None \<Rightarrow> uio_copyout_loop m (uio_advance u wr_size) (n - wr_size) (wr + wr_size)
                              (acc @ bs))"
  by pat_completeness auto
termination
  by (relation "measure (\<lambda>(m, u, n, wr, acc). unat n + length (iov u))")
    (auto simp: uio_advance_def intro: seg_size_progress)

definition uio_copyout :: "machine \<Rightarrow> uio \<Rightarrow> size_t \<Rightarrow> (errno + size_t) \<times> u8 list \<times> uio" where
  "uio_copyout m u n = uio_copyout_loop m u (if n > count u then count u else n) 0 []"

text \<open>\<^verbatim>\<open>uio_copyin\<close> of the bytes \<open>src\<close>: the result, the memory and the \<^verbatim>\<open>uio\<close>.\<close>

function uio_copyin_loop ::
  "machine \<Rightarrow> uio \<Rightarrow> u8 list \<Rightarrow> size_t \<Rightarrow> size_t \<Rightarrow> (errno + size_t) \<times> machine \<times> uio" where
  "uio_copyin_loop m u src n rd =
     (if n = 0 then (Inr rd, m, u)
      else case iov u of
        [] \<Rightarrow> (Inr rd, m, u)
      | v # vs \<Rightarrow>
          if iov_len v = 0 then uio_copyin_loop m (u\<lparr>iov := vs\<rparr>) src n rd
          else let rd_size = seg_size v n;
                   (ret, m') =
                     (if userbuf u
                      then let (e, s') = vm_copyout (vm_space m) (iov_base v) src rd_size
                           in (e, m\<lparr>vm_space := s'\<rparr>)
                      else (None, m\<lparr>kmem := mem_store (kmem m) (iov_base v) (take (unat rd_size) src)\<rparr>))
               in case ret of
                    Some e \<Rightarrow> (Inl e, m', u)
                  | None \<Rightarrow> uio_copyin_loop m' (uio_advance u rd_size) (drop (unat rd_size) src)
                              (n - rd_size) (rd + rd_size))"
  by pat_completeness auto
termination
  by (relation "measure (\<lambda>(m, u, src, n, rd). unat n + length (iov u))")
    (auto simp: uio_advance_def intro: seg_size_progress)

definition uio_copyin ::
  "machine \<Rightarrow> uio \<Rightarrow> u8 list \<Rightarrow> size_t \<Rightarrow> (errno + size_t) \<times> machine \<times> uio" where
  "uio_copyin m u src n = uio_copyin_loop m u src (if n > count u then count u else n) 0"

text \<open>\<^verbatim>\<open>uio_copyz\<close> stores zeroes, one page at most per round (\<^verbatim>\<open>zero_buf\<close> is one page).\<close>

definition zero_size :: "iovec \<Rightarrow> size_t \<Rightarrow> size_t" where
  "zero_size v n = (let k = seg_size v n in if k > PAGE_SIZE then PAGE_SIZE else k)"

lemma unat_zero_size: "unat (zero_size v n) = min (min (unat (iov_len v)) (unat n)) 4096"
  by (auto simp: zero_size_def seg_size_def Let_def word_less_nat_alt PAGE_SIZE_def)

lemma zero_size_progress:
  "n \<noteq> 0 \<Longrightarrow> iov_len v \<noteq> 0 \<Longrightarrow> unat (n - zero_size v n) < unat n"
  by (subst unat_sub) (auto simp: unat_zero_size word_le_nat_alt
      unat_gt_0 [symmetric] simp del: unat_gt_0)

function uio_copyz_loop ::
  "machine \<Rightarrow> uio \<Rightarrow> size_t \<Rightarrow> size_t \<Rightarrow> (errno + size_t) \<times> machine \<times> uio" where
  "uio_copyz_loop m u n wr =
     (if n = 0 then (Inr wr, m, u)
      else case iov u of
        [] \<Rightarrow> (Inr wr, m, u)
      | v # vs \<Rightarrow>
          if iov_len v = 0 then uio_copyz_loop m (u\<lparr>iov := vs\<rparr>) n wr
          else let wr_size = zero_size v n;
                   (ret, m') =
                     (if userbuf u
                      then let (e, s') = vm_copyout (vm_space m) (iov_base v) (replicate 4096 0) wr_size
                           in (e, m\<lparr>vm_space := s'\<rparr>)
                      else (None, m\<lparr>kmem := mem_store (kmem m) (iov_base v) (replicate (unat wr_size) 0)\<rparr>))
               in case ret of
                    Some e \<Rightarrow> (Inl e, m', u)
                  | None \<Rightarrow> uio_copyz_loop m' (uio_advance u wr_size) (n - wr_size) (wr + wr_size))"
  by pat_completeness auto
termination
  by (relation "measure (\<lambda>(m, u, n, wr). unat n + length (iov u))")
    (auto simp: uio_advance_def intro: zero_size_progress)

definition uio_copyz :: "machine \<Rightarrow> uio \<Rightarrow> size_t \<Rightarrow> (errno + size_t) \<times> machine \<times> uio" where
  "uio_copyz m u n = uio_copyz_loop m u (if n > count u then count u else n) 0"

declare uio_copyout_loop.simps [simp del] uio_copyin_loop.simps [simp del] uio_copyz_loop.simps [simp del]

section \<open>What a transfer designates\<close>

text \<open>The addresses of a \<^verbatim>\<open>uio\<close>, in order.\<close>

definition seg_addrs :: "iovec \<Rightarrow> uintptr_t list" where
  "seg_addrs v = map (\<lambda>i. iov_base v + of_nat i) [0..<unat (iov_len v)]"

definition uio_addrs :: "uio \<Rightarrow> uintptr_t list" where
  "uio_addrs u = concat (map seg_addrs (iov u))"

text \<open>The byte at an address of the side the \<^verbatim>\<open>uio\<close> lives on.\<close>

definition mbyte :: "machine \<Rightarrow> bool \<Rightarrow> uintptr_t \<Rightarrow> u8" where
  "mbyte m user a = (if user then projr (ubyte (vm_space m) a) else kmem m a)"

text \<open>Every user segment lies in the user region and is mapped.\<close>

definition seg_ok :: "machine \<Rightarrow> iovec \<Rightarrow> bool" where
  "seg_ok m v \<longleftrightarrow> iov_len v \<noteq> 0 \<longrightarrow>
     is_range_user (vm_space m) (iov_base v) (iov_len v)
     \<and> (\<forall>i < unat (iov_len v). \<exists>b. ubyte (vm_space m) (iov_base v + of_nat i) = Inr b)"

definition uio_ok :: "machine \<Rightarrow> uio \<Rightarrow> bool" where
  "uio_ok m u \<longleftrightarrow> (userbuf u \<longrightarrow> frames_inj (vm_space m) \<and> (\<forall>v \<in> set (iov u). seg_ok m v))"

lemma length_seg_addrs [simp]: "length (seg_addrs v) = unat (iov_len v)"
  by (simp add: seg_addrs_def)

lemma uio_addrs_Nil [simp]: "iov u = [] \<Longrightarrow> uio_addrs u = []"
  by (simp add: uio_addrs_def)

lemma uio_addrs_Cons: "iov u = v # vs \<Longrightarrow> uio_addrs u = seg_addrs v @ uio_addrs (u\<lparr>iov := vs\<rparr>)"
  by (simp add: uio_addrs_def)

lemma seg_addrs_empty: "iov_len v = 0 \<Longrightarrow> seg_addrs v = []"
  by (simp add: seg_addrs_def)

lemma unat_seg_size: "unat (seg_size v n) = min (unat (iov_len v)) (unat n)"
  by (simp add: seg_size_def min_def word_less_nat_alt)

lemma seg_addrs_drop:
  assumes "unat k \<le> unat (iov_len v)"
  shows "seg_addrs (v\<lparr>iov_base := iov_base v + k, iov_len := iov_len v - k\<rparr>) = drop (unat k) (seg_addrs v)"
  using assms by (intro nth_equalityI) (auto simp: seg_addrs_def unat_diff_le add.assoc)

lemma seg_addrs_take:
  assumes "k \<le> unat (iov_len v)"
  shows "take k (seg_addrs v) = map (\<lambda>i. iov_base v + of_nat i) [0..<k]"
  using assms by (intro nth_equalityI) (auto simp: seg_addrs_def)

lemma uio_advance_addrs:
  assumes "iov u = v # vs" "unat k \<le> unat (iov_len v)"
  shows "uio_addrs (uio_advance u k) = drop (unat k) (uio_addrs u)"
  using assms by (simp add: uio_addrs_def uio_advance_def seg_addrs_drop)

lemma uio_advance_simps [simp]:
  "count (uio_advance u k) = count u - k" "off (uio_advance u k) = off u + k"
  "userbuf (uio_advance u k) = userbuf u"
  by (simp_all add: uio_advance_def)

lemma uio_advance_ok:
  assumes "uio_ok m u" "iov u = v # vs" "unat k \<le> unat (iov_len v)"
  shows "uio_ok m (uio_advance u k)"
proof (cases "userbuf u")
  case True
  with assms have ok: "frames_inj (vm_space m)" "\<forall>w \<in> set vs. seg_ok m w" "seg_ok m v"
    by (auto simp: uio_ok_def)
  have len: "unat (iov_len v - k) = unat (iov_len v) - unat k"
    using assms(3) by (simp add: unat_diff_le)
  have "seg_ok m (v\<lparr>iov_base := iov_base v + k, iov_len := iov_len v - k\<rparr>)"
    unfolding seg_ok_def
  proof (intro impI conjI allI, goal_cases)
    case 1
    then have "unat k < unat (iov_len v)" using len assms(3) by (simp add: word_unat_eq_iff)
    then show ?case using ok(3) 1 len
      by (auto simp: seg_ok_def is_range_user_iff unat_add64 word_le_nat_alt word_unat_eq_iff)
  next
    case (2 i)
    then have "unat k + i < unat (iov_len v)" using len assms(3) by simp
    then have "\<exists>b. ubyte (vm_space m) (iov_base v + of_nat (unat k + i)) = Inr b"
      using ok(3) by (auto simp: seg_ok_def)
    then show ?case by (simp add: add.assoc)
  qed
  with ok True assms(2) show ?thesis by (simp add: uio_ok_def uio_advance_def)
qed (simp add: uio_ok_def)

section \<open>The loops\<close>

lemma vm_copyin_seg:
  assumes "seg_ok m v" "iov_len v \<noteq> 0" "unat k \<le> unat (iov_len v)"
  shows "vm_copyin (vm_space m) (iov_base v) k
    = (None, map (mbyte m True) (take (unat k) (seg_addrs v)))"
proof -
  have "is_range_user (vm_space m) (iov_base v) k"
    using assms by (auto simp: seg_ok_def is_range_user_iff)
  moreover have "copyin_loop (vm_space m) (iov_base v) k [] =
      (None, map (\<lambda>i. projr (ubyte (vm_space m) (iov_base v + of_nat i))) [0..<unat k])"
    using assms by (subst copyin_loop_ok) (auto simp: seg_ok_def)
  ultimately show ?thesis using assms(3)
    by (simp add: vm_copyin_def seg_addrs_take mbyte_def comp_def)
qed

text \<open>A round of \<open>k\<close> bytes followed by a transfer of the rest is a transfer of the whole.\<close>

lemma split_amount:
  fixes n k :: size_t
  assumes "unat k \<le> unat n" "unat k \<le> l"
  shows "of_nat (min (unat n) l) = k + of_nat (min (unat n - unat k) (l - unat k))"
proof -
  have "min (unat n) l = unat k + min (unat n - unat k) (l - unat k)" using assms by simp
  then show ?thesis by (metis of_nat_add of_nat_unat_diff diff_zero)
qed

lemma split_take: "k \<le> n \<Longrightarrow> take n xs = take k xs @ take (n - k) (drop k xs)"
  by (metis le_add_diff_inverse take_add)

lemma uio_copyout_loop_ok:
  assumes "uio_ok m u"
  shows "\<exists>u'. uio_copyout_loop m u n wr acc =
      (Inr (wr + of_nat (min (unat n) (length (uio_addrs u)))),
       acc @ map (mbyte m (userbuf u)) (take (unat n) (uio_addrs u)), u')
    \<and> uio_addrs u' = drop (unat n) (uio_addrs u) \<and> userbuf u' = userbuf u \<and> uio_ok m u'
    \<and> count u' = count u - of_nat (min (unat n) (length (uio_addrs u)))
    \<and> off u' = off u + of_nat (min (unat n) (length (uio_addrs u)))"
  using assms
proof (induction m u n wr acc rule: uio_copyout_loop.induct)
  case (1 m u n wr acc)
  show ?case
  proof (cases "n = 0 \<or> iov u = []")
    case True
    with "1.prems" show ?thesis
      by (subst uio_copyout_loop.simps) (auto split: list.split)
  next
    case False
    then obtain v vs where n: "n \<noteq> 0" and v: "iov u = v # vs" by (cases "iov u") auto
    show ?thesis
    proof (cases "iov_len v = 0")
      case True
      then have "uio_addrs u = uio_addrs (u\<lparr>iov := vs\<rparr>)"
        using v by (simp add: uio_addrs_Cons seg_addrs_empty)
      moreover have "uio_ok m (u\<lparr>iov := vs\<rparr>)" using "1.prems" v by (auto simp: uio_ok_def)
      ultimately show ?thesis using "1.IH"(1) [OF n v True] n v True
        by (subst uio_copyout_loop.simps) simp
    next
      case False
      let ?k = "seg_size v n"
      have k: "unat ?k \<le> unat (iov_len v)" "unat ?k \<le> unat n" by (simp_all add: unat_seg_size)
      then have nk: "unat (n - ?k) = unat n - unat ?k" by (simp add: unat_diff_le)
      have pre: "take (unat ?k) (uio_addrs u) = take (unat ?k) (seg_addrs v)"
        using k by (simp add: uio_addrs_Cons [OF v])
      let ?bs = "map (mbyte m (userbuf u)) (take (unat ?k) (uio_addrs u))"
      have load: "(if userbuf u then vm_copyin (vm_space m) (iov_base v) ?k
          else (None, mem_load (kmem m) (iov_base v) (unat ?k))) = (None, ?bs)"
        using "1.prems" v False k vm_copyin_seg [of m v ?k]
        by (simp add: uio_ok_def pre seg_addrs_take mem_load_def mbyte_def comp_def)
      have adv: "uio_addrs (uio_advance u ?k) = drop (unat ?k) (uio_addrs u)"
        using v k by (simp add: uio_advance_addrs)
      have len: "unat ?k \<le> length (uio_addrs u)" using k by (simp add: uio_addrs_Cons [OF v])
      from "1.IH"(2) [OF n v False refl load [symmetric] refl refl uio_advance_ok [OF "1.prems" v k(1)]]
      obtain u' where u': "uio_copyout_loop m (uio_advance u ?k) (n - ?k) (wr + ?k) (acc @ ?bs) =
          (Inr (wr + ?k + of_nat (min (unat n - unat ?k) (length (uio_addrs u) - unat ?k))),
           acc @ ?bs @ map (mbyte m (userbuf u)) (take (unat n - unat ?k) (drop (unat ?k) (uio_addrs u))), u')"
        "uio_addrs u' = drop (unat n) (uio_addrs u)" "userbuf u' = userbuf u" "uio_ok m u'"
        "count u' = count u - ?k - of_nat (min (unat n - unat ?k) (length (uio_addrs u) - unat ?k))"
        "off u' = off u + ?k + of_nat (min (unat n - unat ?k) (length (uio_addrs u) - unat ?k))"
        using k by (auto simp: adv nk)
      have "uio_copyout_loop m u n wr acc =
          uio_copyout_loop m (uio_advance u ?k) (n - ?k) (wr + ?k) (acc @ ?bs)"
        using n v False by (subst uio_copyout_loop.simps) (simp add: load Let_def)
      with u' show ?thesis unfolding split_amount [OF k(2) len]
        by (intro exI [of _ u']) (simp add: split_take [OF k(2)] add.assoc diff_diff_eq)
    qed
  qed
qed

text \<open>What storing through a \<^verbatim>\<open>uio\<close> leaves alone: the other memory, the layout of the user space.\<close>

definition same_layout :: "bool \<Rightarrow> machine \<Rightarrow> machine \<Rightarrow> bool" where
  "same_layout user m m' \<longleftrightarrow>
     (if user then kmem m' = kmem m \<and> populate (vm_space m') = populate (vm_space m)
        \<and> region_addr (vm_space m') = region_addr (vm_space m)
        \<and> region_size (vm_space m') = region_size (vm_space m)
      else vm_space m' = vm_space m)"

lemma same_layout_refl [simp]: "same_layout user m m"
  by (simp add: same_layout_def)

lemma same_layout_trans:
  "same_layout user m m' \<Longrightarrow> same_layout user m' m'' \<Longrightarrow> same_layout user m m''"
  by (simp add: same_layout_def split: if_splits)

lemma ubyte_mapped: "(\<exists>b. ubyte s a = Inr b) \<longleftrightarrow> (\<exists>f. populate s (a - (a AND PAGE_MASK)) VM_PROT_R = Inr f)"
  by (auto simp: ubyte_def split: sum.splits)

lemma uio_ok_layout:
  assumes "same_layout (userbuf u) m m'" "uio_ok m u"
  shows "uio_ok m' u"
proof (cases "userbuf u")
  case True
  then have eq: "populate (vm_space m') = populate (vm_space m)"
    "is_range_user (vm_space m') a n = is_range_user (vm_space m) a n" for a n
    using assms(1) by (simp_all add: same_layout_def is_range_user_iff)
  show ?thesis using assms(2) True
    by (simp add: uio_ok_def seg_ok_def frames_inj_def ubyte_mapped eq)
qed (simp add: uio_ok_def)

text \<open>One round of storing.\<close>

definition store_seg :: "machine \<Rightarrow> bool \<Rightarrow> uintptr_t \<Rightarrow> u8 list \<Rightarrow> size_t \<Rightarrow> errno option \<times> machine" where
  "store_seg m user a bs k =
     (if user then let (e, s') = vm_copyout (vm_space m) a bs k in (e, m\<lparr>vm_space := s'\<rparr>)
      else (None, m\<lparr>kmem := mem_store (kmem m) a (take (unat k) bs)\<rparr>))"

lemma store_seg_ok:
  assumes "uio_ok m u" "iov u = v # vs" "iov_len v \<noteq> 0" "unat k \<le> unat (iov_len v)" "unat k \<le> length bs"
  obtains m' where "store_seg m (userbuf u) (iov_base v) bs k = (None, m')"
    "same_layout (userbuf u) m m'"
    "mbyte m' (userbuf u) = upd_bytes (mbyte m (userbuf u)) (take (unat k) (uio_addrs u)) (take (unat k) bs)"
proof -
  let ?t = "take (unat k) bs"
  have t: "length ?t = unat k" using assms(5) by simp
  have addrs: "take (unat k) (uio_addrs u) = map (\<lambda>i. iov_base v + of_nat i) [0..<length ?t]"
    using assms(2,4) t by (simp add: uio_addrs_Cons seg_addrs_take)
  have upd: "mem_store f (iov_base v) ?t = upd_bytes f (take (unat k) (uio_addrs u)) ?t" for f
    unfolding addrs using t unat_lt64 [of k] by (intro mem_store_upd_bytes) simp
  show ?thesis
  proof (cases "userbuf u")
    case True
    then have ok: "frames_inj (vm_space m)" "is_range_user (vm_space m) (iov_base v) k"
      "\<forall>i < unat k. \<exists>b. ubyte (vm_space m) (iov_base v + of_nat i) = Inr b"
      using assms(1-4) by (auto simp: uio_ok_def seg_ok_def is_range_user_iff)
    from copyout_loop_ok [OF ok(1) assms(5) ok(3)] obtain s' where
      s': "copyout_loop (vm_space m) (iov_base v) bs k = (None, s')" "populate s' = populate (vm_space m)"
      "region_addr s' = region_addr (vm_space m)" "region_size s' = region_size (vm_space m)"
      "\<And>x. ubyte s' x = (if unat (x - iov_base v) < unat k then Inr (bs ! unat (x - iov_base v))
                        else ubyte (vm_space m) x)"
      by blast
    have "mbyte (m\<lparr>vm_space := s'\<rparr>) True = mem_store (mbyte m True) (iov_base v) ?t"
      using t by (auto simp: fun_eq_iff mbyte_def mem_store_def s'(5))
    with True s' ok(2) show ?thesis
      by (intro that [of "m\<lparr>vm_space := s'\<rparr>"])
        (simp_all add: store_seg_def vm_copyout_def same_layout_def upd)
  next
    case False
    have "mbyte (m\<lparr>kmem := mem_store (kmem m) (iov_base v) ?t\<rparr>) False
        = mem_store (mbyte m False) (iov_base v) ?t"
      by (simp add: mbyte_def mem_store_def fun_eq_iff)
    with False show ?thesis
      by (intro that [of "m\<lparr>kmem := mem_store (kmem m) (iov_base v) ?t\<rparr>"])
        (simp_all add: store_seg_def same_layout_def upd)
  qed
qed

lemma upd_bytes_split:
  assumes "k \<le> n" "k \<le> length as" "k \<le> length bs"
  shows "upd_bytes (upd_bytes f (take k as) (take k bs)) (take (n - k) (drop k as)) (drop k bs)
    = upd_bytes f (take n as) bs"
proof -
  have "upd_bytes f (take k as @ take (n - k) (drop k as)) (take k bs @ drop k bs)
      = upd_bytes (upd_bytes f (take k as) (take k bs)) (take (n - k) (drop k as)) (drop k bs)"
    using assms by (subst upd_bytes_append) simp_all
  then show ?thesis using split_take [OF assms(1), of as] by simp
qed

lemma uio_copyin_loop_ok:
  assumes "uio_ok m u" "unat n \<le> length src"
  shows "\<exists>m' u'. uio_copyin_loop m u src n rd =
      (Inr (rd + of_nat (min (unat n) (length (uio_addrs u)))), m', u')
    \<and> mbyte m' (userbuf u) = upd_bytes (mbyte m (userbuf u)) (take (unat n) (uio_addrs u)) src
    \<and> same_layout (userbuf u) m m'
    \<and> uio_addrs u' = drop (unat n) (uio_addrs u) \<and> userbuf u' = userbuf u \<and> uio_ok m' u'
    \<and> count u' = count u - of_nat (min (unat n) (length (uio_addrs u)))
    \<and> off u' = off u + of_nat (min (unat n) (length (uio_addrs u)))"
  using assms
proof (induction m u src n rd rule: uio_copyin_loop.induct)
  case (1 m u src n rd)
  show ?case
  proof (cases "n = 0 \<or> iov u = []")
    case True
    with "1.prems" show ?thesis
      by (subst uio_copyin_loop.simps) (auto split: list.split)
  next
    case False
    then obtain v vs where n: "n \<noteq> 0" and v: "iov u = v # vs" by (cases "iov u") auto
    show ?thesis
    proof (cases "iov_len v = 0")
      case True
      then have "uio_addrs u = uio_addrs (u\<lparr>iov := vs\<rparr>)"
        using v by (simp add: uio_addrs_Cons seg_addrs_empty)
      moreover have "uio_ok m (u\<lparr>iov := vs\<rparr>)" using "1.prems" v by (auto simp: uio_ok_def)
      ultimately show ?thesis using "1.IH"(1) [OF n v True] "1.prems"(2) n v True
        by (subst uio_copyin_loop.simps) simp
    next
      case False
      let ?k = "seg_size v n"
      have k: "unat ?k \<le> unat (iov_len v)" "unat ?k \<le> unat n" by (simp_all add: unat_seg_size)
      then have nk: "unat (n - ?k) = unat n - unat ?k" by (simp add: unat_diff_le)
      have ks: "unat ?k \<le> length src" using k "1.prems"(2) by simp
      obtain m' where m': "store_seg m (userbuf u) (iov_base v) src ?k = (None, m')"
        "same_layout (userbuf u) m m'"
        "mbyte m' (userbuf u) = upd_bytes (mbyte m (userbuf u)) (take (unat ?k) (uio_addrs u)) (take (unat ?k) src)"
        using store_seg_ok [OF "1.prems"(1) v False k(1) ks] by blast
      have ok: "uio_ok m' (uio_advance u ?k)"
        using m'(2) uio_advance_ok [OF "1.prems"(1) v k(1)] by (simp add: uio_ok_layout)
      have adv: "uio_addrs (uio_advance u ?k) = drop (unat ?k) (uio_addrs u)"
        using v k by (simp add: uio_advance_addrs)
      have len: "unat ?k \<le> length (uio_addrs u)" using k by (simp add: uio_addrs_Cons [OF v])
      have fit: "unat (n - ?k) \<le> length (drop (unat ?k) src)" using nk "1.prems"(2) by simp
      from "1.IH"(2) [OF n v False refl m'(1) [unfolded store_seg_def, symmetric] refl refl ok fit]
      obtain m'' u' where u': "uio_copyin_loop m' (uio_advance u ?k) (drop (unat ?k) src) (n - ?k) (rd + ?k) =
          (Inr (rd + ?k + of_nat (min (unat n - unat ?k) (length (uio_addrs u) - unat ?k))), m'', u')"
        "mbyte m'' (userbuf u) = upd_bytes (mbyte m' (userbuf u))
           (take (unat n - unat ?k) (drop (unat ?k) (uio_addrs u))) (drop (unat ?k) src)"
        "same_layout (userbuf u) m' m''"
        "uio_addrs u' = drop (unat n) (uio_addrs u)" "userbuf u' = userbuf u" "uio_ok m'' u'"
        "count u' = count u - ?k - of_nat (min (unat n - unat ?k) (length (uio_addrs u) - unat ?k))"
        "off u' = off u + ?k + of_nat (min (unat n - unat ?k) (length (uio_addrs u) - unat ?k))"
        using k by (auto simp: adv nk)
      have "uio_copyin_loop m u src n rd =
          uio_copyin_loop m' (uio_advance u ?k) (drop (unat ?k) src) (n - ?k) (rd + ?k)"
        using n v False m'(1) by (subst uio_copyin_loop.simps) (simp add: store_seg_def Let_def)
      moreover have "mbyte m'' (userbuf u) = upd_bytes (mbyte m (userbuf u)) (take (unat n) (uio_addrs u)) src"
        unfolding u'(2) m'(3) by (rule upd_bytes_split [OF k(2) len ks])
      ultimately show ?thesis
        unfolding split_amount [OF k(2) len]
        using u' m'(2) by (auto intro: same_layout_trans simp: add.assoc diff_diff_eq)
    qed
  qed
qed

lemma uio_copyz_loop_ok:
  assumes "uio_ok m u"
  shows "\<exists>m' u'. uio_copyz_loop m u n wr =
      (Inr (wr + of_nat (min (unat n) (length (uio_addrs u)))), m', u')
    \<and> mbyte m' (userbuf u) = upd_bytes (mbyte m (userbuf u)) (take (unat n) (uio_addrs u)) (replicate (unat n) 0)
    \<and> same_layout (userbuf u) m m'
    \<and> uio_addrs u' = drop (unat n) (uio_addrs u) \<and> userbuf u' = userbuf u \<and> uio_ok m' u'
    \<and> count u' = count u - of_nat (min (unat n) (length (uio_addrs u)))
    \<and> off u' = off u + of_nat (min (unat n) (length (uio_addrs u)))"
  using assms
proof (induction m u n wr rule: uio_copyz_loop.induct)
  case (1 m u n wr)
  show ?case
  proof (cases "n = 0 \<or> iov u = []")
    case True
    with "1.prems" show ?thesis
      by (subst uio_copyz_loop.simps) (auto split: list.split)
  next
    case False
    then obtain v vs where n: "n \<noteq> 0" and v: "iov u = v # vs" by (cases "iov u") auto
    show ?thesis
    proof (cases "iov_len v = 0")
      case True
      then have "uio_addrs u = uio_addrs (u\<lparr>iov := vs\<rparr>)"
        using v by (simp add: uio_addrs_Cons seg_addrs_empty)
      moreover have "uio_ok m (u\<lparr>iov := vs\<rparr>)" using "1.prems" v by (auto simp: uio_ok_def)
      ultimately show ?thesis using "1.IH"(1) [OF n v True] n v True
        by (subst uio_copyz_loop.simps) simp
    next
      case False
      let ?k = "zero_size v n" and ?z = "replicate 4096 0 :: u8 list"
      have k: "unat ?k \<le> unat (iov_len v)" "unat ?k \<le> unat n" "unat ?k \<le> length ?z"
        by (simp_all add: unat_zero_size)
      then have nk: "unat (n - ?k) = unat n - unat ?k" by (simp add: unat_diff_le)
      have z: "take (unat ?k) ?z = replicate (unat ?k) 0" using k(3) by (simp add: min_def)
      obtain m' where m': "store_seg m (userbuf u) (iov_base v) ?z ?k = (None, m')"
        "same_layout (userbuf u) m m'"
        "mbyte m' (userbuf u) = upd_bytes (mbyte m (userbuf u)) (take (unat ?k) (uio_addrs u)) (take (unat ?k) ?z)"
        using store_seg_ok [OF "1.prems"(1) v False k(1) k(3)] by blast
      have ok: "uio_ok m' (uio_advance u ?k)"
        using m'(2) uio_advance_ok [OF "1.prems"(1) v k(1)] by (simp add: uio_ok_layout)
      have adv: "uio_addrs (uio_advance u ?k) = drop (unat ?k) (uio_addrs u)"
        using v k by (simp add: uio_advance_addrs)
      have len: "unat ?k \<le> length (uio_addrs u)" using k by (simp add: uio_addrs_Cons [OF v])
      from "1.IH"(2) [OF n v False refl m'(1) [unfolded store_seg_def z, symmetric] refl refl ok]
      obtain m'' u' where u': "uio_copyz_loop m' (uio_advance u ?k) (n - ?k) (wr + ?k) =
          (Inr (wr + ?k + of_nat (min (unat n - unat ?k) (length (uio_addrs u) - unat ?k))), m'', u')"
        "mbyte m'' (userbuf u) = upd_bytes (mbyte m' (userbuf u))
           (take (unat n - unat ?k) (drop (unat ?k) (uio_addrs u))) (drop (unat ?k) (replicate (unat n) 0))"
        "same_layout (userbuf u) m' m''"
        "uio_addrs u' = drop (unat n) (uio_addrs u)" "userbuf u' = userbuf u" "uio_ok m'' u'"
        "count u' = count u - ?k - of_nat (min (unat n - unat ?k) (length (uio_addrs u) - unat ?k))"
        "off u' = off u + ?k + of_nat (min (unat n - unat ?k) (length (uio_addrs u) - unat ?k))"
        using k by (auto simp: adv nk)
      have "uio_copyz_loop m u n wr = uio_copyz_loop m' (uio_advance u ?k) (n - ?k) (wr + ?k)"
        using n v False m'(1) [unfolded store_seg_def z]
        by (subst uio_copyz_loop.simps) (simp add: Let_def [of "zero_size v n"])
      moreover have "take (unat ?k) ?z = take (unat ?k) (replicate (unat n) 0)"
        using z k(2) by (simp add: min_def)
      then have "mbyte m'' (userbuf u) =
          upd_bytes (mbyte m (userbuf u)) (take (unat n) (uio_addrs u)) (replicate (unat n) 0)"
        unfolding u'(2) m'(3) using upd_bytes_split [OF k(2) len, of "replicate (unat n) 0"] k(2) by simp
      ultimately show ?thesis
        unfolding split_amount [OF k(2) len]
        using u' m'(2) by (auto intro: same_layout_trans simp: add.assoc diff_diff_eq)
    qed
  qed
qed

section \<open>Properties\<close>

text \<open>The number of bytes a transfer of \<open>n\<close> bytes moves.\<close>

definition uio_amount :: "uio \<Rightarrow> size_t \<Rightarrow> nat" where
  "uio_amount u n = min (min (unat n) (unat (count u))) (length (uio_addrs u))"

lemma uio_amount_cut:
  "min (unat (if n > count u then count u else n)) (length (uio_addrs u)) = uio_amount u n"
  by (auto simp: uio_amount_def word_less_nat_alt)

lemma take_uio_amount:
  "take (unat (if n > count u then count u else n)) (uio_addrs u) = take (uio_amount u n) (uio_addrs u)"
  "drop (unat (if n > count u then count u else n)) (uio_addrs u) = drop (uio_amount u n) (uio_addrs u)"
  unfolding uio_amount_cut [symmetric] by (auto simp: min_def)

lemma uio_copyout_ok:
  assumes "uio_ok m u"
  shows "\<exists>u'. uio_copyout m u n = (Inr (of_nat (uio_amount u n)),
      map (mbyte m (userbuf u)) (take (uio_amount u n) (uio_addrs u)), u')
    \<and> uio_addrs u' = drop (uio_amount u n) (uio_addrs u) \<and> userbuf u' = userbuf u \<and> uio_ok m u'
    \<and> count u' = count u - of_nat (uio_amount u n) \<and> off u' = off u + of_nat (uio_amount u n)"
  using uio_copyout_loop_ok [OF assms, of "if n > count u then count u else n" 0 "[]"]
  unfolding uio_copyout_def uio_amount_cut take_uio_amount by simp

lemma uio_copyin_ok:
  assumes "uio_ok m u" "unat n \<le> length src"
  shows "\<exists>m' u'. uio_copyin m u src n = (Inr (of_nat (uio_amount u n)), m', u')
    \<and> mbyte m' (userbuf u) = upd_bytes (mbyte m (userbuf u)) (take (uio_amount u n) (uio_addrs u)) src
    \<and> same_layout (userbuf u) m m'
    \<and> uio_addrs u' = drop (uio_amount u n) (uio_addrs u) \<and> userbuf u' = userbuf u \<and> uio_ok m' u'
    \<and> count u' = count u - of_nat (uio_amount u n) \<and> off u' = off u + of_nat (uio_amount u n)"
proof -
  have "unat (if n > count u then count u else n) \<le> length src"
    using assms(2) by (auto simp: word_less_nat_alt)
  from uio_copyin_loop_ok [OF assms(1) this, of 0] show ?thesis
    unfolding uio_copyin_def uio_amount_cut take_uio_amount by simp
qed

text \<open>
  C14. \<^verbatim>\<open>uio_copyout\<close> gathers exactly the next bytes of the transfer, over any number of segments, empty
  ones included: as many as were asked for, as the count allows and as the segments hold. It delivers
  them in order and leaves the \<^verbatim>\<open>uio\<close> at the byte after them, with count and offset moved by as much.
\<close>

theorem uio_copyout_gathers:
  assumes "uio_ok m u"
  shows "\<exists>u'. uio_copyout m u n = (Inr (of_nat (uio_amount u n)),
      map (mbyte m (userbuf u)) (take (uio_amount u n) (uio_addrs u)), u')
    \<and> uio_addrs u' = drop (uio_amount u n) (uio_addrs u)
    \<and> count u' = count u - of_nat (uio_amount u n) \<and> off u' = off u + of_nat (uio_amount u n)"
  using uio_copyout_ok [OF assms, of n] by blast

definition three_segs :: uio where
  "three_segs = \<lparr>iov = [\<lparr>iov_base = 100, iov_len = 2\<rparr>, \<lparr>iov_base = 7, iov_len = 0\<rparr>,
      \<lparr>iov_base = 50, iov_len = 3\<rparr>], count = 5, off = 0, userbuf = False\<rparr>"

definition kernel_machine :: machine where
  "kernel_machine = \<lparr>kmem = (\<lambda>a. ucast a), vm_space = one_page_space\<rparr>"

lemma three_segs_facts:
  "uio_ok kernel_machine three_segs" "uio_addrs three_segs = [100, 101, 50, 51, 52]"
  by (simp_all add: uio_ok_def three_segs_def uio_addrs_def seg_addrs_def upt_conv_Cons)

theorem uio_copyout_gathers_witness:
  "\<exists>u'. uio_copyout kernel_machine three_segs 4 = (Inr 4, [100, 101, 50, 51], u') \<and> uio_addrs u' = [52]"
proof -
  have "uio_amount three_segs 4 = 4"
    by (simp add: uio_amount_def three_segs_facts) (simp add: three_segs_def)
  moreover have "map (mbyte kernel_machine (userbuf three_segs)) [100, 101, 50, 51] = [100, 101, 50, 51]"
    by (simp add: mbyte_def kernel_machine_def three_segs_def)
  ultimately show ?thesis
    using uio_copyout_gathers [OF three_segs_facts(1), of 4] by (auto simp: three_segs_facts(2))
qed

text \<open>
  C15. Scatter then gather: what \<^verbatim>\<open>uio_copyin\<close> stores through a \<^verbatim>\<open>uio\<close> whose segments do not overlap,
  \<^verbatim>\<open>uio_copyout\<close> through the same \<^verbatim>\<open>uio\<close> reads back, and no byte outside the segments changes, in the
  memory of the \<^verbatim>\<open>uio\<close> or in the other one.
\<close>

theorem uio_scatter_gather:
  assumes "uio_ok m u" "distinct (uio_addrs u)" "unat n \<le> length src"
  shows "\<exists>m' u' u''. uio_copyin m u src n = (Inr (of_nat (uio_amount u n)), m', u')
    \<and> uio_copyout m' u n = (Inr (of_nat (uio_amount u n)), take (uio_amount u n) src, u'')
    \<and> (\<forall>a. a \<notin> set (uio_addrs u) \<longrightarrow> mbyte m' (userbuf u) a = mbyte m (userbuf u) a)
    \<and> (if userbuf u then kmem m' = kmem m else vm_space m' = vm_space m)"
proof -
  let ?as = "take (uio_amount u n) (uio_addrs u)"
  obtain m' u' where m': "uio_copyin m u src n = (Inr (of_nat (uio_amount u n)), m', u')"
    "mbyte m' (userbuf u) = upd_bytes (mbyte m (userbuf u)) ?as src" "same_layout (userbuf u) m m'"
    using uio_copyin_ok [OF assms(1,3)] by blast
  have len: "length ?as = uio_amount u n" "uio_amount u n \<le> length src"
    using assms(3) by (simp_all add: uio_amount_def)
  then have "map (mbyte m' (userbuf u)) ?as = take (uio_amount u n) src"
    unfolding m'(2) using assms(2) by (subst upd_bytes_hit) simp_all
  with uio_copyout_ok [OF uio_ok_layout [OF m'(3) assms(1)], of n]
  obtain u'' where "uio_copyout m' u n = (Inr (of_nat (uio_amount u n)), take (uio_amount u n) src, u'')"
    by auto
  moreover have "mbyte m' (userbuf u) a = mbyte m (userbuf u) a" if "a \<notin> set (uio_addrs u)" for a
    unfolding m'(2) using that in_set_takeD by (intro upd_bytes_other) fastforce
  ultimately show ?thesis using m' by (auto simp: same_layout_def split: if_splits)
qed

theorem uio_scatter_gather_witness:
  "\<exists>m' u' u''. uio_copyin kernel_machine three_segs [1, 2, 3, 4, 5] 5 = (Inr 5, m', u')
    \<and> uio_copyout m' three_segs 5 = (Inr 5, [1, 2, 3, 4, 5], u'')"
proof -
  have "uio_amount three_segs 5 = 5"
    by (simp add: uio_amount_def three_segs_facts) (simp add: three_segs_def)
  then show ?thesis
    using uio_scatter_gather [OF three_segs_facts(1), of 5 "[1, 2, 3, 4, 5]"]
    by (auto simp: three_segs_facts(2))
qed

end
