(* ===== verification/Ringbuf.thy ===== *)
theory Ringbuf
  imports Uio
begin

text \<open>
  The byte ring (kern/ringbuf.c, net/include/ringbuf.h) that pipes, sockets and ttys buffer in. The
  array the \<^verbatim>\<open>data\<close> pointer names is the list of its bytes (\<open>None\<close> for a null pointer); positions and
  sizes are 64-bit words, as in the code. \<open>contents\<close> abstracts a ring to the bytes it holds, and the
  operations refine those of a bounded first-in first-out queue.
\<close>

section \<open>Model\<close>

record ringbuf =
  data :: "u8 list option"
  rb_size :: size_t
  read_pos :: size_t
  write_pos :: size_t

text \<open>\<open>vmalloc\<close> is the kernel's page allocator: the array it returns for a size, or nothing.\<close>

definition ringbuf_init :: "(size_t \<Rightarrow> u8 list option) \<Rightarrow> size_t \<Rightarrow> errno + ringbuf" where
  "ringbuf_init vmalloc sz =
     (if sz \<noteq> 0
      then let alloc_size = (sz + PAGE_MASK) AND NOT PAGE_MASK;
               alloc_size = alloc_size - alloc_size mod PAGE_SIZE
           in case vmalloc alloc_size of
                None \<Rightarrow> Inl ENOMEM
              | Some d \<Rightarrow> Inr \<lparr>data = Some d, rb_size = sz, read_pos = 0, write_pos = 0\<rparr>
      else Inr \<lparr>data = None, rb_size = sz, read_pos = 0, write_pos = 0\<rparr>)"

text \<open>\<^verbatim>\<open>ringbuf_destroy\<close>: the size it passes to \<^verbatim>\<open>vfree\<close>, if it calls it.\<close>

definition ringbuf_destroy :: "ringbuf \<Rightarrow> size_t option" where
  "ringbuf_destroy rb =
     (case data rb of None \<Rightarrow> None | Some _ \<Rightarrow> Some ((rb_size rb + PAGE_MASK) AND NOT PAGE_MASK))"

definition ringbuf_write_size :: "ringbuf \<Rightarrow> size_t" where
  "ringbuf_write_size rb =
     (if write_pos rb < read_pos rb then read_pos rb - write_pos rb - 1
      else rb_size rb - 1 - write_pos rb + read_pos rb)"

definition ringbuf_contiguous_write_size :: "ringbuf \<Rightarrow> size_t" where
  "ringbuf_contiguous_write_size rb =
     (if write_pos rb < read_pos rb then read_pos rb - write_pos rb - 1
      else if read_pos rb = 0 then rb_size rb - write_pos rb - 1
      else rb_size rb - write_pos rb)"

definition ringbuf_read_size :: "ringbuf \<Rightarrow> size_t" where
  "ringbuf_read_size rb =
     (if read_pos rb \<le> write_pos rb then write_pos rb - read_pos rb
      else rb_size rb - read_pos rb + write_pos rb)"

definition ringbuf_contiguous_read_size :: "ringbuf \<Rightarrow> size_t" where
  "ringbuf_contiguous_read_size rb =
     (if read_pos rb \<le> write_pos rb then write_pos rb - read_pos rb
      else rb_size rb - read_pos rb)"

text \<open>Accesses through \<^verbatim>\<open>ringbuf_write_ptr\<close> and \<^verbatim>\<open>ringbuf_read_ptr\<close>.\<close>

definition ringbuf_poke :: "ringbuf \<Rightarrow> u8 list \<Rightarrow> ringbuf" where
  "ringbuf_poke rb bs = rb\<lparr>data := map_option (\<lambda>d. block_write d (unat (write_pos rb)) bs) (data rb)\<rparr>"

definition ringbuf_pull :: "ringbuf \<Rightarrow> size_t \<Rightarrow> u8 list" where
  "ringbuf_pull rb n = (case data rb of None \<Rightarrow> [] | Some d \<Rightarrow> block_read d (unat (read_pos rb)) (unat n))"

definition ringbuf_advance_write :: "ringbuf \<Rightarrow> size_t \<Rightarrow> ringbuf" where
  "ringbuf_advance_write rb n = rb\<lparr>write_pos := (write_pos rb + n) mod rb_size rb\<rparr>"

definition ringbuf_advance_read :: "ringbuf \<Rightarrow> size_t \<Rightarrow> ringbuf" where
  "ringbuf_advance_read rb n = rb\<lparr>read_pos := (read_pos rb + n) mod rb_size rb\<rparr>"

text \<open>The amount of one round: \<^verbatim>\<open>available\<close> after the comparison with \<^verbatim>\<open>size\<close>.\<close>

definition clip :: "size_t \<Rightarrow> size_t \<Rightarrow> size_t" where
  "clip n available = (if n < available then n else available)"

lemma unat_clip: "unat (clip n a) = min (unat n) (unat a)"
  by (auto simp: clip_def word_less_nat_alt)

lemma clip_progress: "n \<noteq> 0 \<Longrightarrow> a \<noteq> 0 \<Longrightarrow> unat (n - clip n a) < unat n"
  by (subst unat_sub) (auto simp: unat_clip word_le_nat_alt unat_gt_0 [symmetric] simp del: unat_gt_0)

function ringbuf_write_loop :: "ringbuf \<Rightarrow> u8 list \<Rightarrow> size_t \<Rightarrow> size_t \<Rightarrow> size_t \<times> ringbuf" where
  "ringbuf_write_loop rb src n wr =
     (if n = 0 then (wr, rb)
      else let available = ringbuf_contiguous_write_size rb
           in if available = 0 then (wr, rb)
              else let available = clip n available;
                       rb = ringbuf_poke rb (take (unat available) (drop (unat wr) src))
                   in ringbuf_write_loop (ringbuf_advance_write rb available) src (n - available)
                        (wr + available))"
  by pat_completeness auto
termination
  by (relation "measure (\<lambda>(rb, src, n, wr). unat n)") (auto intro: clip_progress)

definition ringbuf_write :: "ringbuf \<Rightarrow> u8 list \<Rightarrow> size_t \<Rightarrow> size_t \<times> ringbuf" where
  "ringbuf_write rb src n = ringbuf_write_loop rb src n 0"

text \<open>\<^verbatim>\<open>ringbuf_read\<close>: the bytes stored at \<^verbatim>\<open>data\<close> come second.\<close>

function ringbuf_read_loop ::
  "ringbuf \<Rightarrow> size_t \<Rightarrow> size_t \<Rightarrow> u8 list \<Rightarrow> size_t \<times> u8 list \<times> ringbuf" where
  "ringbuf_read_loop rb n rd acc =
     (if n = 0 then (rd, acc, rb)
      else let available = ringbuf_contiguous_read_size rb
           in if available = 0 then (rd, acc, rb)
              else let available = clip n available
                   in ringbuf_read_loop (ringbuf_advance_read rb available) (n - available)
                        (rd + available) (acc @ ringbuf_pull rb available))"
  by pat_completeness auto
termination
  by (relation "measure (\<lambda>(rb, n, rd, acc). unat n)") (auto intro: clip_progress)

definition ringbuf_read :: "ringbuf \<Rightarrow> size_t \<Rightarrow> size_t \<times> u8 list \<times> ringbuf" where
  "ringbuf_read rb n = ringbuf_read_loop rb n 0 []"

definition ringbuf_peek :: "ringbuf \<Rightarrow> size_t \<Rightarrow> size_t \<times> u8 list \<times> ringbuf" where
  "ringbuf_peek rb n =
     (let current = read_pos rb; (ret, bs, rb') = ringbuf_read rb n
      in (ret, bs, rb'\<lparr>read_pos := current\<rparr>))"

text \<open>
  The transfers with a \<^verbatim>\<open>uio\<close>. A round that moves nothing is repeated for ever, so these loops have no
  termination proof of their own: \<open>None\<close> stands for a call that does not return.
\<close>

partial_function (option) ringbuf_writeuio_loop ::
  "machine \<Rightarrow> ringbuf \<Rightarrow> uio \<Rightarrow> size_t \<Rightarrow> size_t \<Rightarrow> ((errno + size_t) \<times> ringbuf \<times> uio) option" where
  "ringbuf_writeuio_loop m rb u n wr =
     (if n = 0 then Some (Inr wr, rb, u)
      else let available = ringbuf_contiguous_write_size rb
           in if available = 0 then Some (Inr wr, rb, u)
              else let r = uio_copyout m u (clip n available);
                       rb = ringbuf_poke rb (fst (snd r)); u = snd (snd r)
                   in case fst r of
                        Inl e \<Rightarrow> Some (Inl e, rb, u)
                      | Inr ret \<Rightarrow>
                          ringbuf_writeuio_loop m (ringbuf_advance_write rb ret) u (n - ret) (wr + ret))"

definition ringbuf_writeuio ::
  "machine \<Rightarrow> ringbuf \<Rightarrow> uio \<Rightarrow> size_t \<Rightarrow> ((errno + size_t) \<times> ringbuf \<times> uio) option" where
  "ringbuf_writeuio m rb u n = ringbuf_writeuio_loop m rb u n 0"

partial_function (option) ringbuf_readuio_loop ::
  "machine \<Rightarrow> ringbuf \<Rightarrow> uio \<Rightarrow> size_t \<Rightarrow> size_t \<Rightarrow>
    ((errno + size_t) \<times> machine \<times> ringbuf \<times> uio) option" where
  "ringbuf_readuio_loop m rb u n rd =
     (if n = 0 then Some (Inr rd, m, rb, u)
      else let available = ringbuf_contiguous_read_size rb
           in if available = 0 then Some (Inr rd, m, rb, u)
              else let available = clip n available;
                       r = uio_copyin m u (ringbuf_pull rb available) available;
                       m = fst (snd r); u = snd (snd r)
                   in case fst r of
                        Inl e \<Rightarrow> Some (Inl e, m, rb, u)
                      | Inr ret \<Rightarrow>
                          ringbuf_readuio_loop m (ringbuf_advance_read rb ret) u (n - ret) (rd + ret))"

definition ringbuf_readuio ::
  "machine \<Rightarrow> ringbuf \<Rightarrow> uio \<Rightarrow> size_t \<Rightarrow> ((errno + size_t) \<times> machine \<times> ringbuf \<times> uio) option" where
  "ringbuf_readuio m rb u n = ringbuf_readuio_loop m rb u n 0"

definition ringbuf_peekuio ::
  "machine \<Rightarrow> ringbuf \<Rightarrow> uio \<Rightarrow> size_t \<Rightarrow> ((errno + size_t) \<times> machine \<times> ringbuf \<times> uio) option" where
  "ringbuf_peekuio m rb u n =
     (let current = read_pos rb
      in case ringbuf_readuio m rb u n of
           None \<Rightarrow> None
         | Some (ret, m', rb', u') \<Rightarrow> Some (ret, m', rb'\<lparr>read_pos := current\<rparr>, u'))"

declare ringbuf_write_loop.simps [simp del] ringbuf_read_loop.simps [simp del]

section \<open>The invariant and the abstraction\<close>

definition ringbuf_wf :: "ringbuf \<Rightarrow> bool" where
  "ringbuf_wf rb \<longleftrightarrow> read_pos rb < rb_size rb \<and> write_pos rb < rb_size rb
     \<and> (\<exists>d. data rb = Some d \<and> unat (rb_size rb) \<le> length d)"

text \<open>The bytes held, oldest first.\<close>

definition contents :: "ringbuf \<Rightarrow> u8 list" where
  "contents rb =
     (let d = the (data rb); r = unat (read_pos rb); w = unat (write_pos rb)
      in if r \<le> w then drop r (take w d)
         else drop r (take (unat (rb_size rb)) d) @ take w d)"

text \<open>A ring of \<open>n\<close> bytes never holds more than \<open>n - 1\<close>.\<close>

definition room :: "ringbuf \<Rightarrow> nat" where
  "room rb = unat (rb_size rb) - 1 - length (contents rb)"

lemma ringbuf_wfE:
  assumes "ringbuf_wf rb"
  obtains d where "data rb = Some d" "unat (rb_size rb) \<le> length d"
    "unat (read_pos rb) < unat (rb_size rb)" "unat (write_pos rb) < unat (rb_size rb)"
  using assms by (auto simp: ringbuf_wf_def word_less_nat_alt)

lemma length_contents:
  assumes "ringbuf_wf rb"
  shows "length (contents rb) =
    (if unat (read_pos rb) \<le> unat (write_pos rb) then unat (write_pos rb) - unat (read_pos rb)
     else unat (rb_size rb) - unat (read_pos rb) + unat (write_pos rb))"
  using assms by (auto elim!: ringbuf_wfE simp: contents_def Let_def)

lemma contents_bound: "ringbuf_wf rb \<Longrightarrow> length (contents rb) < unat (rb_size rb)"
  by (auto simp: length_contents elim!: ringbuf_wfE)

lemma unat_ringbuf_read_size:
  assumes "ringbuf_wf rb"
  shows "unat (ringbuf_read_size rb) = length (contents rb)"
proof (cases "read_pos rb \<le> write_pos rb")
  case True
  then show ?thesis using assms
    by (simp add: ringbuf_read_size_def length_contents unat_diff64 word_le_nat_alt)
next
  case False
  with assms have "unat (rb_size rb - read_pos rb) + unat (write_pos rb) < 2 ^ 64"
    using unat_lt64 [of "rb_size rb"]
    by (auto elim!: ringbuf_wfE simp: unat_diff_le word_le_nat_alt)
  with False assms show ?thesis
    by (auto elim!: ringbuf_wfE simp: ringbuf_read_size_def length_contents unat_add64 unat_diff_le word_le_nat_alt)
qed

lemma unat_minus_1: "unat (x :: size_t) \<noteq> 0 \<Longrightarrow> unat (x - 1) = unat x - 1"
  by (subst unat_diff_le) auto

lemma unat_ringbuf_write_size:
  assumes "ringbuf_wf rb"
  shows "unat (ringbuf_write_size rb) = room rb"
proof -
  have d: "unat (read_pos rb) < unat (rb_size rb)" "unat (write_pos rb) < unat (rb_size rb)"
    using assms by (auto elim: ringbuf_wfE)
  show ?thesis
  proof (cases "write_pos rb < read_pos rb")
    case True
    then have "unat (read_pos rb - write_pos rb) = unat (read_pos rb) - unat (write_pos rb)"
      by (simp add: unat_diff_le word_less_nat_alt)
    with True d show ?thesis
      by (simp add: ringbuf_write_size_def room_def length_contents [OF assms] word_less_nat_alt unat_minus_1)
  next
    case False
    have "unat (rb_size rb - 1 - write_pos rb) = unat (rb_size rb) - 1 - unat (write_pos rb)"
      using d by (subst unat_diff_le) (simp_all add: unat_minus_1)
    with False d unat_lt64 [of "rb_size rb"] show ?thesis
      by (simp add: ringbuf_write_size_def room_def length_contents [OF assms] word_less_nat_alt unat_add64)
  qed
qed

lemma contiguous_write_cases:
  assumes "ringbuf_wf rb"
  shows "unat (ringbuf_contiguous_write_size rb) =
    (if unat (write_pos rb) < unat (read_pos rb) then unat (read_pos rb) - unat (write_pos rb) - 1
     else if unat (read_pos rb) = 0 then unat (rb_size rb) - unat (write_pos rb) - 1
     else unat (rb_size rb) - unat (write_pos rb))"
proof -
  have d: "unat (read_pos rb) < unat (rb_size rb)" "unat (write_pos rb) < unat (rb_size rb)"
    using assms by (auto elim: ringbuf_wfE)
  then have "unat (rb_size rb - write_pos rb) = unat (rb_size rb) - unat (write_pos rb)"
    by (simp add: unat_diff_le)
  moreover have "write_pos rb < read_pos rb \<Longrightarrow>
      unat (read_pos rb - write_pos rb) = unat (read_pos rb) - unat (write_pos rb)"
    by (simp add: unat_diff_le word_less_nat_alt)
  ultimately show ?thesis using d
    by (auto simp: ringbuf_contiguous_write_size_def word_less_nat_alt unat_minus_1 unat_eq_0)
qed

lemma contiguous_read_cases:
  assumes "ringbuf_wf rb"
  shows "unat (ringbuf_contiguous_read_size rb) =
    (if unat (read_pos rb) \<le> unat (write_pos rb) then unat (write_pos rb) - unat (read_pos rb)
     else unat (rb_size rb) - unat (read_pos rb))"
  using assms by (auto elim!: ringbuf_wfE
      simp: ringbuf_contiguous_read_size_def word_le_nat_alt unat_diff_le)

lemma contiguous_write_room:
  assumes "ringbuf_wf rb"
  shows "unat (ringbuf_contiguous_write_size rb) \<le> room rb"
    and "ringbuf_contiguous_write_size rb = 0 \<longleftrightarrow> room rb = 0"
  using assms unfolding unat_eq_0 [symmetric]
  by (auto elim!: ringbuf_wfE simp: contiguous_write_cases room_def length_contents)

lemma contiguous_read_contents:
  assumes "ringbuf_wf rb"
  shows "unat (ringbuf_contiguous_read_size rb) \<le> length (contents rb)"
    and "ringbuf_contiguous_read_size rb = 0 \<longleftrightarrow> contents rb = []"
  using assms unfolding unat_eq_0 [symmetric] length_0_conv [symmetric]
  by (auto elim!: ringbuf_wfE simp: contiguous_read_cases length_contents)

lemma drop_block_write:
  assumes "w + length bs \<le> r" "w + length bs \<le> length d"
  shows "drop r (take s (block_write d w bs)) = drop r (take s d)"
proof -
  have "drop r (block_write d w bs) = drop r d" using assms by (simp add: block_write_def)
  then show ?thesis by (simp only: drop_take)
qed

text \<open>The effect of one round on the bytes held.\<close>

lemma ringbuf_poke_contents:
  assumes "ringbuf_wf rb" "length bs \<le> unat (ringbuf_contiguous_write_size rb)"
  shows "ringbuf_wf (ringbuf_poke rb bs) \<and> contents (ringbuf_poke rb bs) = contents rb
    \<and> rb_size (ringbuf_poke rb bs) = rb_size rb"
proof -
  obtain d where d: "data rb = Some d" "unat (rb_size rb) \<le> length d"
    "unat (read_pos rb) < unat (rb_size rb)" "unat (write_pos rb) < unat (rb_size rb)"
    using assms(1) by (rule ringbuf_wfE)
  let ?r = "unat (read_pos rb)" and ?w = "unat (write_pos rb)"
  have fit: "?w + length bs \<le> length d" using assms d by (auto simp: contiguous_write_cases split: if_splits)
  have "take ?w (block_write d ?w bs) = take ?w d"
    using fit by (simp add: block_write_def)
  moreover have "?w + length bs \<le> ?r" if "\<not> ?r \<le> ?w"
    using that assms by (auto simp: contiguous_write_cases)
  then have "drop ?r (take (unat (rb_size rb)) (block_write d ?w bs)) = drop ?r (take (unat (rb_size rb)) d)"
    if "\<not> ?r \<le> ?w"
    using that fit by (intro drop_block_write) simp_all
  ultimately have "contents (ringbuf_poke rb bs) = contents rb"
    using d(1) by (simp add: contents_def ringbuf_poke_def Let_def)
  then show ?thesis using assms(1) fit d by (auto simp: ringbuf_wf_def ringbuf_poke_def)
qed

lemma ringbuf_write_round:
  assumes "ringbuf_wf rb" "unat k \<le> unat (ringbuf_contiguous_write_size rb)" "length bs = unat k"
  defines "rb' \<equiv> ringbuf_advance_write (ringbuf_poke rb bs) k"
  shows "ringbuf_wf rb' \<and> contents rb' = contents rb @ bs \<and> rb_size rb' = rb_size rb"
proof -
  obtain d where d: "data rb = Some d" "unat (rb_size rb) \<le> length d"
    "unat (read_pos rb) < unat (rb_size rb)" "unat (write_pos rb) < unat (rb_size rb)"
    using assms(1) by (rule ringbuf_wfE)
  let ?r = "unat (read_pos rb)" and ?w = "unat (write_pos rb)" and ?s = "unat (rb_size rb)"
  let ?d = "block_write d ?w bs"
  have bound: "?w + unat k \<le> ?s" and gap: "?w < ?r \<Longrightarrow> ?w + unat k < ?r" and nowrap: "0 < ?r \<or> ?w + unat k < ?s"
    using assms(1,2) d by (auto simp: contiguous_write_cases simp del: unat_gt_0 split: if_splits)
  then have "unat (write_pos rb + k) = ?w + unat k"
    using unat_lt64 [of "rb_size rb"] by (simp add: unat_add64)
  then have w': "unat (write_pos rb') = (if ?w + unat k = ?s then 0 else ?w + unat k)"
    using bound d by (simp add: rb'_def ringbuf_advance_write_def ringbuf_poke_def unat_mod)
  have rb': "data rb' = Some ?d" "rb_size rb' = rb_size rb" "read_pos rb' = read_pos rb"
    using d by (simp_all add: rb'_def ringbuf_advance_write_def ringbuf_poke_def)
  have fit: "?w + length bs \<le> length d" using bound d assms(3) by simp
  have wf: "ringbuf_wf rb'"
    using rb' w' d fit bound by (auto simp: ringbuf_wf_def word_less_nat_alt)
  have prefix: "take (?w + unat k) ?d = take ?w d @ bs"
    using fit assms(3) by (simp add: block_write_def)
  have "contents rb' = contents rb @ bs"
  proof (cases "?w < ?r")
    case True
    then have "drop ?r (take ?s ?d) = drop ?r (take ?s d)"
      using gap fit assms(3) by (intro drop_block_write) simp_all
    with True gap bound d prefix show ?thesis
      by (simp add: contents_def Let_def w' rb')
  next
    case False
    then show ?thesis using bound nowrap d prefix fit
      by (cases "?w + unat k = ?s") (simp_all add: contents_def Let_def w' rb')
  qed
  with wf rb' show ?thesis by simp
qed

lemma ringbuf_read_round:
  assumes "ringbuf_wf rb" "unat k \<le> unat (ringbuf_contiguous_read_size rb)"
  defines "rb' \<equiv> ringbuf_advance_read rb k"
  shows "ringbuf_wf rb' \<and> ringbuf_pull rb k = take (unat k) (contents rb)
    \<and> contents rb' = drop (unat k) (contents rb) \<and> rb_size rb' = rb_size rb"
proof -
  obtain d where d: "data rb = Some d" "unat (rb_size rb) \<le> length d"
    "unat (read_pos rb) < unat (rb_size rb)" "unat (write_pos rb) < unat (rb_size rb)"
    using assms(1) by (rule ringbuf_wfE)
  let ?r = "unat (read_pos rb)" and ?w = "unat (write_pos rb)" and ?s = "unat (rb_size rb)"
  have bound: "?r + unat k \<le> ?s" and upto: "?r \<le> ?w \<Longrightarrow> ?r + unat k \<le> ?w"
    using assms(1,2) d by (auto simp: contiguous_read_cases split: if_splits)
  then have "unat (read_pos rb + k) = ?r + unat k"
    using unat_lt64 [of "rb_size rb"] by (simp add: unat_add64)
  then have r': "unat (read_pos rb') = (if ?r + unat k = ?s then 0 else ?r + unat k)"
    using bound d by (simp add: rb'_def ringbuf_advance_read_def unat_mod)
  have rb': "data rb' = Some d" "rb_size rb' = rb_size rb" "write_pos rb' = write_pos rb"
    using d by (simp_all add: rb'_def ringbuf_advance_read_def)
  have wf: "ringbuf_wf rb'"
    using rb' r' d bound by (auto simp: ringbuf_wf_def word_less_nat_alt)
  have pull: "ringbuf_pull rb k = take (unat k) (contents rb)"
    using d bound upto by (auto simp: ringbuf_pull_def block_read_def contents_def Let_def min_def drop_take)
  have "contents rb' = drop (unat k) (contents rb)"
    using d bound upto by (cases "?r + unat k = ?s"; cases "?r \<le> ?w") (simp_all add: contents_def Let_def r' rb' add.commute)
  with wf rb' pull show ?thesis by simp
qed

section \<open>The loops\<close>

lemma clip_bounds:
  "unat (clip n a) \<le> unat n" "unat (clip n a) \<le> unat a" "unat (n - clip n a) = unat n - unat (clip n a)"
  by (simp_all add: unat_clip unat_diff_le)

lemma take_split_min:
  assumes "k \<le> n" "k \<le> r"
  shows "take (min n r) xs = take k xs @ take (min (n - k) (r - k)) (drop k xs)"
proof -
  have "min n r = k + min (n - k) (r - k)" using assms by simp
  then show ?thesis by (metis take_add)
qed

lemma room_append:
  "contents rb' = contents rb @ bs \<Longrightarrow> rb_size rb' = rb_size rb \<Longrightarrow> room rb' = room rb - length bs"
  by (simp add: room_def)

lemma ringbuf_write_loop_ok:
  assumes "ringbuf_wf rb" "unat wr + unat n \<le> length src" "unat wr + unat n < 2 ^ 64"
  shows "\<exists>rb'. ringbuf_write_loop rb src n wr = (wr + of_nat (min (unat n) (room rb)), rb')
    \<and> ringbuf_wf rb' \<and> rb_size rb' = rb_size rb
    \<and> contents rb' = contents rb @ take (min (unat n) (room rb)) (drop (unat wr) src)"
  using assms
proof (induction rb src n wr rule: ringbuf_write_loop.induct)
  case (1 rb src n wr)
  let ?a = "ringbuf_contiguous_write_size rb"
  show ?case
  proof (cases "n = 0 \<or> ?a = 0")
    case True
    then have "unat n = 0 \<or> room rb = 0" using contiguous_write_room(2) [OF "1.prems"(1)] by auto
    with True "1.prems"(1) show ?thesis by (subst ringbuf_write_loop.simps) auto
  next
    case False
    then have nz: "n \<noteq> 0" "?a \<noteq> 0" by auto
    let ?k = "clip n ?a"
    let ?bs = "take (unat ?k) (drop (unat wr) src)"
    let ?rb = "ringbuf_advance_write (ringbuf_poke rb ?bs) ?k"
    have k: "unat ?k \<le> unat n" "unat ?k \<le> room rb" "unat (n - ?k) = unat n - unat ?k"
      using clip_bounds [of n ?a] contiguous_write_room(1) [OF "1.prems"(1)] by auto
    have bs: "length ?bs = unat ?k" using "1.prems"(2) k(1) by simp
    have rb: "ringbuf_wf ?rb" "contents ?rb = contents rb @ ?bs" "rb_size ?rb = rb_size rb"
      using ringbuf_write_round [OF "1.prems"(1) clip_bounds(2) bs] by auto
    have room: "room ?rb = room rb - unat ?k" using room_append [OF rb(2,3)] bs by simp
    have wr: "unat (wr + ?k) = unat wr + unat ?k"
      using "1.prems"(3) k(1) by (intro unat_add64) simp
    have fit: "unat (wr + ?k) + unat (n - ?k) \<le> length src" "unat (wr + ?k) + unat (n - ?k) < 2 ^ 64"
      using "1.prems"(2,3) wr k(1,3) by simp_all
    from "1.IH" [OF nz(1) refl nz(2) refl refl rb(1) fit] obtain rb' where
      rb': "ringbuf_write_loop ?rb src (n - ?k) (wr + ?k) =
        (wr + ?k + of_nat (min (unat n - unat ?k) (room rb - unat ?k)), rb')"
      "ringbuf_wf rb'" "rb_size rb' = rb_size rb"
      "contents rb' = contents rb @ ?bs @
        take (min (unat n - unat ?k) (room rb - unat ?k)) (drop (unat ?k) (drop (unat wr) src))"
      by (auto simp: rb room k(3) wr add.commute)
    have "ringbuf_write_loop rb src n wr = ringbuf_write_loop ?rb src (n - ?k) (wr + ?k)"
      using nz by (subst ringbuf_write_loop.simps) (simp add: Let_def)
    with rb' show ?thesis
      unfolding split_amount [OF k(1,2)] take_split_min [OF k(1,2)] by (simp add: add.assoc)
  qed
qed

lemma ringbuf_read_loop_ok:
  assumes "ringbuf_wf rb"
  shows "\<exists>rb'. ringbuf_read_loop rb n rd acc =
      (rd + of_nat (min (unat n) (length (contents rb))), acc @ take (unat n) (contents rb), rb')
    \<and> ringbuf_wf rb' \<and> rb_size rb' = rb_size rb \<and> contents rb' = drop (unat n) (contents rb)
    \<and> write_pos rb' = write_pos rb \<and> data rb' = data rb"
  using assms
proof (induction rb n rd acc rule: ringbuf_read_loop.induct)
  case (1 rb n rd acc)
  let ?a = "ringbuf_contiguous_read_size rb"
  show ?case
  proof (cases "n = 0 \<or> ?a = 0")
    case True
    then have "unat n = 0 \<or> contents rb = []"
      using contiguous_read_contents(2) [OF "1.prems"] by auto
    with True "1.prems" show ?thesis by (subst ringbuf_read_loop.simps) auto
  next
    case False
    then have nz: "n \<noteq> 0" "?a \<noteq> 0" by auto
    let ?k = "clip n ?a"
    let ?rb = "ringbuf_advance_read rb ?k"
    have k: "unat ?k \<le> unat n" "unat ?k \<le> length (contents rb)" "unat (n - ?k) = unat n - unat ?k"
      using clip_bounds [of n ?a] contiguous_read_contents(1) [OF "1.prems"] by auto
    have rb: "ringbuf_wf ?rb" "ringbuf_pull rb ?k = take (unat ?k) (contents rb)"
      "contents ?rb = drop (unat ?k) (contents rb)" "rb_size ?rb = rb_size rb"
      using ringbuf_read_round [OF "1.prems" clip_bounds(2)] by auto
    have keep: "write_pos ?rb = write_pos rb" "data ?rb = data rb"
      by (simp_all add: ringbuf_advance_read_def)
    from "1.IH" [OF nz(1) refl nz(2) refl rb(1)] obtain rb' where
      rb': "ringbuf_read_loop ?rb (n - ?k) (rd + ?k) (acc @ ringbuf_pull rb ?k) =
        (rd + ?k + of_nat (min (unat n - unat ?k) (length (contents rb) - unat ?k)),
         acc @ take (unat ?k) (contents rb) @ take (unat n - unat ?k) (drop (unat ?k) (contents rb)), rb')"
      "ringbuf_wf rb'" "rb_size rb' = rb_size rb" "contents rb' = drop (unat n) (contents rb)"
      "write_pos rb' = write_pos rb" "data rb' = data rb"
      using k(1) by (auto simp: rb k(3) keep)
    have "ringbuf_read_loop rb n rd acc =
        ringbuf_read_loop ?rb (n - ?k) (rd + ?k) (acc @ ringbuf_pull rb ?k)"
      using nz by (subst ringbuf_read_loop.simps) (simp add: Let_def)
    with rb' show ?thesis
      unfolding split_amount [OF k(1,2)] split_take [OF k(1)] by (simp add: add.assoc)
  qed
qed

lemma room_bound: "ringbuf_wf rb \<Longrightarrow> room rb < 2 ^ 64"
  using unat_lt64 [of "rb_size rb"] by (auto simp: room_def elim: ringbuf_wfE)

lemma ringbuf_write_ok:
  assumes "ringbuf_wf rb" "unat n \<le> length src"
  shows "\<exists>rb'. ringbuf_write rb src n = (of_nat (min (unat n) (room rb)), rb')
    \<and> ringbuf_wf rb' \<and> rb_size rb' = rb_size rb
    \<and> contents rb' = contents rb @ take (min (unat n) (room rb)) src"
  using ringbuf_write_loop_ok [OF assms(1), of 0 n src] assms(2) unat_lt64 [of n]
  by (simp add: ringbuf_write_def)

lemma ringbuf_read_ok:
  assumes "ringbuf_wf rb"
  shows "\<exists>rb'. ringbuf_read rb n =
      (of_nat (min (unat n) (length (contents rb))), take (unat n) (contents rb), rb')
    \<and> ringbuf_wf rb' \<and> rb_size rb' = rb_size rb \<and> contents rb' = drop (unat n) (contents rb)
    \<and> write_pos rb' = write_pos rb \<and> data rb' = data rb"
  using ringbuf_read_loop_ok [OF assms, of n 0 "[]"] by (simp add: ringbuf_read_def)

section \<open>Transfers with a uio\<close>

lemma uio_amount_all:
  "unat k \<le> unat (count u) \<Longrightarrow> unat k \<le> length (uio_addrs u) \<Longrightarrow> uio_amount u k = unat k"
  by (simp add: uio_amount_def)

lemma ringbuf_writeuio_loop_ok:
  assumes "ringbuf_wf rb" "uio_ok m u" "unat n \<le> unat (count u)" "unat n \<le> length (uio_addrs u)"
  shows "\<exists>rb' u'. ringbuf_writeuio_loop m rb u n wr = Some (Inr (wr + of_nat (min (unat n) (room rb))), rb', u')
    \<and> ringbuf_wf rb' \<and> rb_size rb' = rb_size rb
    \<and> contents rb' = contents rb @ map (mbyte m (userbuf u)) (take (min (unat n) (room rb)) (uio_addrs u))
    \<and> uio_addrs u' = drop (min (unat n) (room rb)) (uio_addrs u) \<and> userbuf u' = userbuf u \<and> uio_ok m u'
    \<and> count u' = count u - of_nat (min (unat n) (room rb))"
  using assms
proof (induction "unat n" arbitrary: rb u n wr rule: less_induct)
  case less
  let ?a = "ringbuf_contiguous_write_size rb"
  show ?case
  proof (cases "n = 0 \<or> ?a = 0")
    case True
    then have "unat n = 0 \<or> room rb = 0" using contiguous_write_room(2) [OF less.prems(1)] by auto
    with True less.prems show ?thesis by (subst ringbuf_writeuio_loop.simps) auto
  next
    case False
    then have nz: "n \<noteq> 0" "?a \<noteq> 0" by auto
    let ?k = "clip n ?a"
    have k: "unat ?k \<le> unat n" "unat ?k \<le> room rb" "unat (n - ?k) = unat n - unat ?k"
      using clip_bounds [of n ?a] contiguous_write_room(1) [OF less.prems(1)] by auto
    have amount: "uio_amount u ?k = unat ?k" using less.prems(3,4) k(1) by (intro uio_amount_all) simp_all
    let ?bs = "map (mbyte m (userbuf u)) (take (unat ?k) (uio_addrs u))"
    obtain u1 where u1: "uio_copyout m u ?k = (Inr ?k, ?bs, u1)"
      "uio_addrs u1 = drop (unat ?k) (uio_addrs u)" "userbuf u1 = userbuf u" "uio_ok m u1"
      "count u1 = count u - ?k"
      using uio_copyout_ok [OF less.prems(2), of ?k] by (auto simp: amount)
    let ?rb = "ringbuf_advance_write (ringbuf_poke rb ?bs) ?k"
    have bs: "length ?bs = unat ?k" using less.prems(4) k(1) by simp
    have rb: "ringbuf_wf ?rb" "contents ?rb = contents rb @ ?bs" "rb_size ?rb = rb_size rb"
      using ringbuf_write_round [OF less.prems(1) clip_bounds(2) bs] by auto
    have room: "room ?rb = room rb - unat ?k" using room_append [OF rb(2,3)] bs by simp
    have fit: "unat (n - ?k) \<le> unat (count u1)" "unat (n - ?k) \<le> length (uio_addrs u1)"
      using less.prems(3,4) k(1,3) u1(2,5) by (simp_all add: unat_diff_le)
    from less.hyps [OF clip_progress [OF nz] rb(1) u1(4) fit, of "wr + ?k"] obtain rb' u' where
      u': "ringbuf_writeuio_loop m ?rb u1 (n - ?k) (wr + ?k) =
        Some (Inr (wr + ?k + of_nat (min (unat n - unat ?k) (room rb - unat ?k))), rb', u')"
      "ringbuf_wf rb'" "rb_size rb' = rb_size rb"
      "contents rb' = contents rb @ ?bs @ map (mbyte m (userbuf u))
        (take (min (unat n - unat ?k) (room rb - unat ?k)) (drop (unat ?k) (uio_addrs u)))"
      "uio_addrs u' = drop (min (unat n - unat ?k) (room rb - unat ?k)) (drop (unat ?k) (uio_addrs u))"
      "userbuf u' = userbuf u" "uio_ok m u'"
      "count u' = count u - ?k - of_nat (min (unat n - unat ?k) (room rb - unat ?k))"
      unfolding rb(2,3) room k(3) u1(2,3,5) by auto
    have step: "ringbuf_writeuio_loop m rb u n wr = ringbuf_writeuio_loop m ?rb u1 (n - ?k) (wr + ?k)"
      using nz u1(1) by (subst ringbuf_writeuio_loop.simps) (simp add: Let_def)
    have all: "min (unat n) (room rb) = min (unat n - unat ?k) (room rb - unat ?k) + unat ?k"
      using k by simp
    have drop: "uio_addrs u' = drop (min (unat n) (room rb)) (uio_addrs u)"
      unfolding u'(5) all by simp
    show ?thesis unfolding step split_amount [OF k(1,2)] take_split_min [OF k(1,2)]
      using u' drop by (simp add: add.assoc diff_diff_eq)
  qed
qed

lemma ringbuf_readuio_loop_ok:
  assumes "ringbuf_wf rb" "uio_ok m u" "unat n \<le> unat (count u)" "unat n \<le> length (uio_addrs u)"
  defines "l \<equiv> min (unat n) (length (contents rb))"
  shows "\<exists>m' rb' u'. ringbuf_readuio_loop m rb u n rd = Some (Inr (rd + of_nat l), m', rb', u')
    \<and> ringbuf_wf rb' \<and> rb_size rb' = rb_size rb \<and> contents rb' = drop (unat n) (contents rb)
    \<and> write_pos rb' = write_pos rb \<and> data rb' = data rb
    \<and> mbyte m' (userbuf u) = upd_bytes (mbyte m (userbuf u)) (take l (uio_addrs u)) (contents rb)
    \<and> same_layout (userbuf u) m m'
    \<and> uio_addrs u' = drop l (uio_addrs u) \<and> userbuf u' = userbuf u \<and> uio_ok m' u'
    \<and> count u' = count u - of_nat l"
  using assms(1-4) unfolding l_def
proof (induction "unat n" arbitrary: m rb u n rd rule: less_induct)
  case less
  let ?a = "ringbuf_contiguous_read_size rb"
  show ?case
  proof (cases "n = 0 \<or> ?a = 0")
    case True
    then have "unat n = 0 \<or> contents rb = []"
      using contiguous_read_contents(2) [OF less.prems(1)] by auto
    with True less.prems show ?thesis by (subst ringbuf_readuio_loop.simps) auto
  next
    case False
    then have nz: "n \<noteq> 0" "?a \<noteq> 0" by auto
    let ?k = "clip n ?a" and ?c = "contents rb" and ?as = "uio_addrs u" and ?b = "userbuf u"
    let ?rb = "ringbuf_advance_read rb ?k"
    let ?l = "min (unat n - unat ?k) (length ?c - unat ?k)"
    have k: "unat ?k \<le> unat n" "unat ?k \<le> length ?c" "unat (n - ?k) = unat n - unat ?k"
      using clip_bounds [of n ?a] contiguous_read_contents(1) [OF less.prems(1)] by auto
    have amount: "uio_amount u ?k = unat ?k" using less.prems(3,4) k(1) by (intro uio_amount_all) simp_all
    have rb: "ringbuf_wf ?rb" "ringbuf_pull rb ?k = take (unat ?k) ?c"
      "contents ?rb = drop (unat ?k) ?c" "rb_size ?rb = rb_size rb"
      using ringbuf_read_round [OF less.prems(1) clip_bounds(2)] by auto
    have keep: "write_pos ?rb = write_pos rb" "data ?rb = data rb"
      by (simp_all add: ringbuf_advance_read_def)
    have "unat ?k \<le> length (take (unat ?k) ?c)" using k(2) by simp
    from uio_copyin_ok [OF less.prems(2) this] obtain m1 u1 where
      u1: "uio_copyin m u (take (unat ?k) ?c) ?k = (Inr ?k, m1, u1)"
      "mbyte m1 ?b = upd_bytes (mbyte m ?b) (take (unat ?k) ?as) (take (unat ?k) ?c)"
      "same_layout ?b m m1"
      "uio_addrs u1 = drop (unat ?k) ?as" "userbuf u1 = ?b" "uio_ok m1 u1" "count u1 = count u - ?k"
      by (auto simp: amount)
    have fit: "unat (n - ?k) \<le> unat (count u1)" "unat (n - ?k) \<le> length (uio_addrs u1)"
      using less.prems(3,4) k(1,3) u1(4,7) by (simp_all add: unat_diff_le)
    from less.hyps [OF clip_progress [OF nz] rb(1) u1(6) fit, of "rd + ?k"] obtain m' rb' u' where
      u': "ringbuf_readuio_loop m1 ?rb u1 (n - ?k) (rd + ?k) = Some (Inr (rd + ?k + of_nat ?l), m', rb', u')"
      "ringbuf_wf rb'" "rb_size rb' = rb_size rb"
      "contents rb' = drop (unat n - unat ?k) (drop (unat ?k) ?c)"
      "write_pos rb' = write_pos rb" "data rb' = data rb"
      "mbyte m' ?b = upd_bytes (mbyte m1 ?b) (take ?l (drop (unat ?k) ?as)) (drop (unat ?k) ?c)"
      "same_layout ?b m1 m'"
      "uio_addrs u' = drop ?l (drop (unat ?k) ?as)" "userbuf u' = ?b" "uio_ok m' u'"
      "count u' = count u - ?k - of_nat ?l"
      unfolding rb(3,4) keep k(3) u1(4,5,7) length_drop by auto
    have step: "ringbuf_readuio_loop m rb u n rd = ringbuf_readuio_loop m1 ?rb u1 (n - ?k) (rd + ?k)"
      using nz u1(1) rb(2) by (subst ringbuf_readuio_loop.simps) (simp add: Let_def)
    have all: "min (unat n) (length ?c) = ?l + unat ?k" using k by simp
    then have lk: "min (unat n) (length ?c) - unat ?k = ?l" "unat ?k \<le> min (unat n) (length ?c)" by simp_all
    have drop: "uio_addrs u' = drop (min (unat n) (length ?c)) ?as"
      unfolding u'(9) all by simp
    have "mbyte m' ?b = upd_bytes (mbyte m ?b) (take (min (unat n) (length ?c)) ?as) ?c"
      unfolding u'(7) u1(2)
      using upd_bytes_split [OF lk(2), of ?as ?c "mbyte m ?b"] k less.prems(4) lk(1) by simp
    moreover have "contents rb' = drop (unat n) ?c" using u'(4) k(1) by simp
    moreover have "same_layout ?b m m'" using u1(3) u'(8) by (rule same_layout_trans)
    ultimately show ?thesis
      using u' drop step unfolding split_amount [OF k(1,2)] by (simp add: add.assoc diff_diff_eq)
  qed
qed

lemma ringbuf_writeuio_ok:
  assumes "ringbuf_wf rb" "uio_ok m u" "unat n \<le> unat (count u)" "unat n \<le> length (uio_addrs u)"
  shows "\<exists>rb' u'. ringbuf_writeuio m rb u n = Some (Inr (of_nat (min (unat n) (room rb))), rb', u')
    \<and> ringbuf_wf rb' \<and> rb_size rb' = rb_size rb
    \<and> contents rb' = contents rb @ map (mbyte m (userbuf u)) (take (min (unat n) (room rb)) (uio_addrs u))
    \<and> uio_addrs u' = drop (min (unat n) (room rb)) (uio_addrs u) \<and> userbuf u' = userbuf u \<and> uio_ok m u'
    \<and> count u' = count u - of_nat (min (unat n) (room rb))"
  using ringbuf_writeuio_loop_ok [OF assms, of 0] by (simp add: ringbuf_writeuio_def)

lemma ringbuf_readuio_ok:
  assumes "ringbuf_wf rb" "uio_ok m u" "unat n \<le> unat (count u)" "unat n \<le> length (uio_addrs u)"
  defines "l \<equiv> min (unat n) (length (contents rb))"
  shows "\<exists>m' rb' u'. ringbuf_readuio m rb u n = Some (Inr (of_nat l), m', rb', u')
    \<and> ringbuf_wf rb' \<and> rb_size rb' = rb_size rb \<and> contents rb' = drop (unat n) (contents rb)
    \<and> write_pos rb' = write_pos rb \<and> data rb' = data rb
    \<and> mbyte m' (userbuf u) = upd_bytes (mbyte m (userbuf u)) (take l (uio_addrs u)) (contents rb)
    \<and> same_layout (userbuf u) m m'
    \<and> uio_addrs u' = drop l (uio_addrs u) \<and> userbuf u' = userbuf u \<and> uio_ok m' u'
    \<and> count u' = count u - of_nat l"
  using ringbuf_readuio_loop_ok [OF assms(1-4), of 0] by (simp add: ringbuf_readuio_def l_def)

section \<open>A byte queue and its clients\<close>

text \<open>
  What a client of a bounded byte queue relies on: a write takes as many bytes as fit, in order, a read
  delivers the oldest ones. From these laws alone, any sequence of writes and reads delivers exactly
  the bytes accepted, in the order they were accepted.
\<close>

datatype queue_op = Write "u8 list" | Read size_t

fun run_queue ::
  "('q \<Rightarrow> u8 list \<Rightarrow> size_t \<Rightarrow> size_t \<times> 'q) \<Rightarrow> ('q \<Rightarrow> size_t \<Rightarrow> size_t \<times> u8 list \<times> 'q) \<Rightarrow>
    queue_op list \<Rightarrow> 'q \<Rightarrow> u8 list \<times> u8 list \<times> 'q" where
  "run_queue put get [] q = ([], [], q)"
| "run_queue put get (Write bs # ops) q =
     (let (k, q) = put q bs (of_nat (length bs)); (accepted, delivered, q) = run_queue put get ops q
      in (take (unat k) bs @ accepted, delivered, q))"
| "run_queue put get (Read n # ops) q =
     (let (k, bs, q) = get q n; (accepted, delivered, q) = run_queue put get ops q
      in (accepted, take (unat k) bs @ delivered, q))"

fun fits :: "queue_op \<Rightarrow> bool" where
  "fits (Write bs) = (length bs < 2 ^ 64)"
| "fits (Read n) = True"

locale byte_queue =
  fixes inv :: "'q \<Rightarrow> bool" and held :: "'q \<Rightarrow> u8 list" and capacity :: "'q \<Rightarrow> nat"
    and put :: "'q \<Rightarrow> u8 list \<Rightarrow> size_t \<Rightarrow> size_t \<times> 'q"
    and get :: "'q \<Rightarrow> size_t \<Rightarrow> size_t \<times> u8 list \<times> 'q"
  assumes held_bound: "inv q \<Longrightarrow> length (held q) \<le> capacity q"
    and put_law: "inv q \<Longrightarrow> unat n \<le> length bs \<Longrightarrow> put q bs n = (k, q') \<Longrightarrow>
      inv q' \<and> capacity q' = capacity q \<and> unat k = min (unat n) (capacity q - length (held q))
      \<and> held q' = held q @ take (unat k) bs"
    and get_law: "inv q \<Longrightarrow> get q n = (k, bs, q') \<Longrightarrow>
      inv q' \<and> capacity q' = capacity q \<and> bs = take (unat n) (held q) \<and> unat k = length bs
      \<and> held q' = drop (unat n) (held q)"
begin

lemma run_fifo:
  assumes "inv q" "list_all fits ops" "run_queue put get ops q = (accepted, delivered, q')"
  shows "inv q' \<and> capacity q' = capacity q \<and> held q @ accepted = delivered @ held q'"
  using assms
proof (induction ops arbitrary: q accepted delivered)
  case Nil
  then show ?case by simp
next
  case (Cons op ops)
  show ?case
  proof (cases op)
    case (Write bs)
    obtain k q1 where put: "put q bs (of_nat (length bs)) = (k, q1)" by fastforce
    obtain a d where rest: "run_queue put get ops q1 = (a, d, q')" "accepted = take (unat k) bs @ a"
      "delivered = d"
      using Cons.prems(3) Write put by (auto split: prod.splits)
    have "unat (of_nat (length bs) :: size_t) \<le> length bs"
      using Cons.prems(2) Write by (simp add: unat_of_nat64)
    note q1 = put_law [OF Cons.prems(1) this put]
    from Cons.IH [OF _ _ rest(1)] q1 Cons.prems(2) have "inv q' \<and> capacity q' = capacity q1"
      "held q1 @ a = d @ held q'" by auto
    with q1 show ?thesis by (simp add: rest(2,3))
  next
    case (Read n)
    obtain k bs q1 where get: "get q n = (k, bs, q1)" by (metis prod_cases3)
    obtain a d where rest: "run_queue put get ops q1 = (a, d, q')" "accepted = a"
      "delivered = take (unat k) bs @ d"
      using Cons.prems(3) Read get by (auto split: prod.splits)
    note q1 = get_law [OF Cons.prems(1) get]
    from Cons.IH [OF _ _ rest(1)] q1 Cons.prems(2) have "inv q' \<and> capacity q' = capacity q1"
      "held q1 @ a = d @ held q'" by auto
    with q1 have "inv q' \<and> capacity q' = capacity q" "drop (unat n) (held q) @ a = d @ held q'"
      "take (unat k) bs = take (unat n) (held q)" by (simp_all add: min_def)
    moreover have "held q @ a = take (unat n) (held q) @ drop (unat n) (held q) @ a" by simp
    ultimately show ?thesis unfolding rest(2,3) by simp
  qed
qed

lemma run_bound:
  assumes "inv q" "list_all fits ops" "run_queue put get ops q = (accepted, delivered, q')"
  shows "length accepted \<le> length delivered + capacity q"
proof -
  have "inv q'" "capacity q' = capacity q" "held q @ accepted = delivered @ held q'"
    using run_fifo [OF assms] by auto
  moreover from this(3) have "length (held q) + length accepted = length delivered + length (held q')"
    by (metis length_append)
  ultimately show ?thesis using held_bound [of q'] by simp
qed

end

definition ring_capacity :: "ringbuf \<Rightarrow> nat" where
  "ring_capacity rb = unat (rb_size rb) - 1"

interpretation ring: byte_queue ringbuf_wf contents ring_capacity ringbuf_write ringbuf_read
proof unfold_locales
  fix rb assume "ringbuf_wf rb"
  then show "length (contents rb) \<le> ring_capacity rb"
    using contents_bound [of rb] by (simp add: ring_capacity_def)
next
  fix rb rb' :: ringbuf and n k :: size_t and bs :: "u8 list"
  assume wf: "ringbuf_wf rb" and "unat n \<le> length bs" "ringbuf_write rb bs n = (k, rb')"
  moreover have "min (unat n) (room rb) < 2 ^ 64" using room_bound [OF wf] by simp
  ultimately show "ringbuf_wf rb' \<and> ring_capacity rb' = ring_capacity rb
      \<and> unat k = min (unat n) (ring_capacity rb - length (contents rb))
      \<and> contents rb' = contents rb @ take (unat k) bs"
    using ringbuf_write_ok [of rb n bs] by (auto simp: ring_capacity_def room_def unat_of_nat64)
next
  fix rb rb' :: ringbuf and n k :: size_t and bs :: "u8 list"
  assume wf: "ringbuf_wf rb" and "ringbuf_read rb n = (k, bs, rb')"
  moreover have "min (unat n) (length (contents rb)) < 2 ^ 64" using unat_lt64 [of n] by simp
  ultimately show "ringbuf_wf rb' \<and> ring_capacity rb' = ring_capacity rb
      \<and> bs = take (unat n) (contents rb) \<and> unat k = length bs \<and> contents rb' = drop (unat n) (contents rb)"
    using ringbuf_read_ok [of rb n] by (auto simp: ring_capacity_def unat_of_nat64)
qed

section \<open>Properties\<close>

text \<open>
  C2. The ring is a FIFO: however writes and reads of any sizes follow each other, and however often the
  positions wrap, the bytes delivered are the bytes accepted, in order, with none lost, repeated or
  invented: what was held before, then what was accepted, is what was delivered, then what is held.
  The positions stay in bounds and at most \<^verbatim>\<open>size - 1\<close> bytes are pending.
\<close>

theorem ringbuf_fifo:
  assumes "ringbuf_wf rb" "list_all fits ops"
    and "run_queue ringbuf_write ringbuf_read ops rb = (accepted, delivered, rb')"
  shows "ringbuf_wf rb' \<and> contents rb @ accepted = delivered @ contents rb'
    \<and> length (contents rb') \<le> unat (rb_size rb) - 1"
  using ring.run_fifo [OF assms] ring.held_bound [of rb'] by (simp add: ring_capacity_def)

text \<open>A ring of four bytes whose positions wrap.\<close>

definition small_ring :: ringbuf where
  "small_ring = \<lparr>data = Some [0, 0, 0, 0], rb_size = 4, read_pos = 2, write_pos = 2\<rparr>"

lemma small_ring_wf: "ringbuf_wf small_ring"
  by (simp add: ringbuf_wf_def small_ring_def)

lemmas ringbuf_eval = ringbuf_write_def ringbuf_read_def ringbuf_write_loop.simps ringbuf_read_loop.simps
  ringbuf_contiguous_write_size_def ringbuf_contiguous_read_size_def clip_def ringbuf_poke_def
  ringbuf_pull_def ringbuf_advance_write_def ringbuf_advance_read_def block_write_def block_read_def Let_def

theorem ringbuf_fifo_witness:
  "\<exists>rb'. run_queue ringbuf_write ringbuf_read [Write [1, 2], Read 1, Write [3, 4, 5], Read 9] small_ring
     = ([1, 2, 3, 4], [1, 2, 3, 4], rb') \<and> ringbuf_wf rb' \<and> contents rb' = []"
proof -
  let ?ops = "[Write [1, 2], Read 1, Write [3, 4, 5], Read 9]"
  have fits: "list_all fits ?ops" by simp
  obtain rb' where run: "run_queue ringbuf_write ringbuf_read ?ops small_ring = ([1, 2, 3, 4], [1, 2, 3, 4], rb')"
    by (simp add: small_ring_def ringbuf_eval)
  have "contents small_ring = []" by (simp add: contents_def small_ring_def)
  with run ringbuf_fifo [OF small_ring_wf fits run] show ?thesis by simp
qed

text \<open>The size \<^verbatim>\<open>ringbuf_init\<close> asks the allocator for.\<close>

lemma ringbuf_alloc_size:
  assumes "unat sz + 4095 < 2 ^ 64"
  defines "a \<equiv> (sz + PAGE_MASK) AND NOT PAGE_MASK"
  shows "unat (a - a mod PAGE_SIZE) = (unat sz + 4095) div 4096 * 4096"
proof -
  let ?x = "unat sz + 4095"
  have x: "unat (sz + PAGE_MASK) = ?x"
    using assms(1) by (subst unat_add64) (simp_all add: PAGE_MASK_def)
  have "unat a = ?x - ?x mod 4096"
    unfolding a_def page_start by (subst unat_diff_le) (simp_all add: unat_and_page_mask x)
  also have "\<dots> = ?x div 4096 * 4096" by (rule minus_mod_eq_div_mult)
  finally have a: "unat a = ?x div 4096 * 4096" .
  then have "unat (a mod PAGE_SIZE) = 0" by (simp add: unat_mod PAGE_SIZE_def)
  with a show ?thesis by (simp add: unat_eq_0)
qed

lemma round_up_covers: "n \<le> (n + 4095) div 4096 * (4096 :: nat)"
proof -
  have "(n + 4095) div 4096 * 4096 = (n + 4095) - (n + 4095) mod 4096"
    by (rule minus_mod_eq_div_mult [symmetric])
  moreover have "(n + 4095) mod 4096 < 4096" by simp
  ultimately show ?thesis by linarith
qed

text \<open>
  \<^verbatim>\<open>ringbuf_init\<close> establishes the invariant with an empty ring whenever the allocator, if it answers,
  returns the bytes it was asked for: rounding up to pages never asks for less than the size.
\<close>

theorem ringbuf_init_wf:
  assumes "unat sz + 4095 < 2 ^ 64" "sz \<noteq> 0" "\<And>n d. vmalloc n = Some d \<Longrightarrow> length d = unat n"
    and "ringbuf_init vmalloc sz = Inr rb"
  shows "ringbuf_wf rb \<and> contents rb = [] \<and> rb_size rb = sz"
proof -
  let ?a = "(sz + PAGE_MASK) AND NOT PAGE_MASK"
  obtain d where d: "vmalloc (?a - ?a mod PAGE_SIZE) = Some d"
    "rb = \<lparr>data = Some d, rb_size = sz, read_pos = 0, write_pos = 0\<rparr>"
    using assms(2,4) by (auto simp: ringbuf_init_def Let_def split: option.splits)
  have "unat sz \<le> length d"
    using assms(3) [OF d(1)] ringbuf_alloc_size [OF assms(1)] round_up_covers by simp
  with d(2) assms(2) show ?thesis
    by (auto simp: ringbuf_wf_def contents_def word_less_nat_alt word_unat_eq_iff)
qed

theorem ringbuf_init_wf_witness:
  "\<exists>rb. ringbuf_init (\<lambda>n. Some (replicate (unat n) 0)) 4096 = Inr rb \<and> ringbuf_wf rb \<and> contents rb = []"
proof -
  let ?v = "\<lambda>n :: size_t. Some (replicate (unat n) (0 :: u8))"
  have init: "ringbuf_init ?v 4096 = Inr \<lparr>data = ?v 4096, rb_size = 4096, read_pos = 0, write_pos = 0\<rparr>"
    by (simp add: ringbuf_init_def PAGE_MASK_def PAGE_SIZE_def)
  show ?thesis using ringbuf_init_wf [of 4096 ?v, OF _ _ _ init] init by simp
qed

text \<open>
  \<^verbatim>\<open>ringbuf_peek\<close> returns what \<^verbatim>\<open>ringbuf_read\<close> would and leaves the ring as it was.
\<close>

theorem ringbuf_peek_pure:
  assumes "ringbuf_wf rb"
  shows "ringbuf_peek rb n = (of_nat (min (unat n) (length (contents rb))), take (unat n) (contents rb), rb)"
  using ringbuf_read_ok [OF assms, of n] by (auto simp: ringbuf_peek_def)

theorem ringbuf_peek_pure_witness: "ringbuf_peek small_ring 3 = (0, [], small_ring)"
  using ringbuf_peek_pure [OF small_ring_wf, of 3] by (simp add: contents_def small_ring_def)

text \<open>
  C16. Through the ring: bytes that \<^verbatim>\<open>ringbuf_writeuio\<close> takes from one scatter-gather list and
  \<^verbatim>\<open>ringbuf_readuio\<close> delivers to another, on the kernel or the user side, arrive unchanged and in order,
  and both calls return, with the whole amount when the ring has room for it.
\<close>

theorem ringbuf_uio_roundtrip:
  assumes "ringbuf_wf rb" "contents rb = []" "unat n \<le> room rb"
    and "uio_ok m u" "unat n \<le> unat (count u)" "unat n \<le> length (uio_addrs u)"
    and "uio_ok m v" "unat n \<le> unat (count v)" "unat n \<le> length (uio_addrs v)" "distinct (uio_addrs v)"
  shows "\<exists>rb1 u1 m' rb2 v1. ringbuf_writeuio m rb u n = Some (Inr n, rb1, u1)
    \<and> ringbuf_readuio m rb1 v n = Some (Inr n, m', rb2, v1)
    \<and> map (mbyte m' (userbuf v)) (take (unat n) (uio_addrs v))
        = map (mbyte m (userbuf u)) (take (unat n) (uio_addrs u))
    \<and> contents rb2 = []"
proof -
  let ?bs = "map (mbyte m (userbuf u)) (take (unat n) (uio_addrs u))"
  obtain rb1 u1 where w: "ringbuf_writeuio m rb u n = Some (Inr n, rb1, u1)" "ringbuf_wf rb1" "contents rb1 = ?bs"
    using ringbuf_writeuio_ok [OF assms(1,4-6)] assms(2,3) by auto
  have len: "length ?bs = unat n" using assms(6) by simp
  obtain m' rb2 v1 where r: "ringbuf_readuio m rb1 v n = Some (Inr n, m', rb2, v1)" "contents rb2 = []"
    "mbyte m' (userbuf v) = upd_bytes (mbyte m (userbuf v)) (take (unat n) (uio_addrs v)) ?bs"
    using ringbuf_readuio_ok [OF w(2) assms(7-9)] len w(3) by auto
  have "map (mbyte m' (userbuf v)) (take (unat n) (uio_addrs v)) = ?bs"
    unfolding r(3) using assms(9,10) len by (subst upd_bytes_hit) simp_all
  with w(1) r(1,2) show ?thesis by blast
qed

definition other_segs :: uio where
  "other_segs = \<lparr>iov = [\<lparr>iov_base = 1, iov_len = 3\<rparr>, \<lparr>iov_base = 200, iov_len = 3\<rparr>],
     count = 6, off = 0, userbuf = False\<rparr>"

theorem ringbuf_uio_roundtrip_witness:
  "\<exists>rb1 u1 m' rb2 v1. ringbuf_writeuio kernel_machine small_ring three_segs 3 = Some (Inr 3, rb1, u1)
    \<and> ringbuf_readuio kernel_machine rb1 other_segs 3 = Some (Inr 3, m', rb2, v1)
    \<and> map (mbyte m' False) [1, 2, 3] = [100, 101, 50]"
proof -
  have v: "uio_ok kernel_machine other_segs" "uio_addrs other_segs = [1, 2, 3, 200, 201, 202]"
    by (simp_all add: uio_ok_def other_segs_def uio_addrs_def seg_addrs_def upt_conv_Cons)
  have c: "contents small_ring = []" "room small_ring = 3"
    by (simp_all add: contents_def small_ring_def room_def)
  have s: "userbuf three_segs = False" "count three_segs = 5" "userbuf other_segs = False" "count other_segs = 6"
    by (simp_all add: three_segs_def other_segs_def)
  have "map (mbyte kernel_machine False) [100, 101, 50] = [100, 101, 50]"
    by (simp add: mbyte_def kernel_machine_def)
  then show ?thesis
    using ringbuf_uio_roundtrip [OF small_ring_wf c(1), of 3 kernel_machine three_segs other_segs]
    by (simp add: three_segs_facts v c s) blast
qed

end
