(* ===== verification/Pipe.thy ===== *)
theory Pipe
  imports Ringbuf
begin

text \<open>
  Blocking pipes (kern/pipebuf.c, net/include/pipebuf.h) and the file operations on them (kern/pipe.c).
  A call that sleeps on a wait queue releases the mutex, so other threads change the buffer meanwhile:
  \<open>wakes\<close> lists, for the sleeps of a call in turn, the value \<^verbatim>\<open>waitq_wait_*\<close> returns and the buffer as
  it is then. A call whose list runs out is still asleep. The calls on wait queues and pollers are
  logged in order.
\<close>

section \<open>Model\<close>

definition PIPE_BUF :: size_t where
  "PIPE_BUF = 4096"

text \<open>A wait queue is named by a number; \<open>None\<close> is a null pointer.\<close>

record pipebuf =
  ring :: ringbuf
  rwaitq :: "nat option"
  wwaitq :: "nat option"
  nreaders :: size_t
  nwriters :: size_t

datatype event = Wait_head nat | Wait_tail nat | Broadcast nat | Poller_broadcast u32

record wake =
  wake_ret :: "errno option"
  wake_pb :: pipebuf

record pstate =
  mach :: machine
  pbuf :: pipebuf
  puio :: uio
  wakes :: "wake list"
  log :: "event list"

datatype outcome = Returned "errno + size_t" | Asleep

definition pipebuf_init ::
  "(size_t \<Rightarrow> u8 list option) \<Rightarrow> size_t \<Rightarrow> nat option \<Rightarrow> nat option \<Rightarrow> errno + pipebuf" where
  "pipebuf_init vmalloc sz rq wq =
     (case ringbuf_init vmalloc sz of
        Inl e \<Rightarrow> Inl e
      | Inr rb \<Rightarrow> Inr \<lparr>ring = rb, rwaitq = rq, wwaitq = wq, nreaders = 0, nwriters = 0\<rparr>)"

definition pipebuf_destroy :: "pipebuf \<Rightarrow> size_t option" where
  "pipebuf_destroy pb = ringbuf_destroy (ring pb)"

text \<open>How the inner loop is left: with the variables \<^verbatim>\<open>available\<close> and \<^verbatim>\<open>read_sz\<close>, by a return, or not yet.\<close>

datatype wait_exit = Ready size_t size_t | Return "errno + size_t" | Sleep

definition would_block :: "size_t \<Rightarrow> errno + size_t" where
  "would_block done = (if done \<noteq> 0 then Inr done else Inl EAGAIN)"

text \<open>\<^verbatim>\<open>waitq_wait_head_mutex\<close> for a call that has moved bytes, \<^verbatim>\<open>waitq_wait_tail_mutex\<close> otherwise.\<close>

definition wait_event :: "size_t \<Rightarrow> nat \<Rightarrow> event" where
  "wait_event done q = (if done \<noteq> 0 then Wait_head q else Wait_tail q)"

fun read_wait ::
  "size_t \<Rightarrow> size_t \<Rightarrow> size_t \<Rightarrow> size_t \<Rightarrow> pipebuf \<Rightarrow> wake list \<Rightarrow> event list \<Rightarrow>
    wait_exit \<times> pipebuf \<times> wake list \<times> event list" where
  "read_wait rd mn available read_sz pb ws lg =
     (if available \<noteq> 0 then (Ready available read_sz, pb, ws, lg)
      else if nwriters pb = 0 then (Ready available available, pb, ws, lg)
      else case rwaitq pb of
        None \<Rightarrow> (Return (would_block rd), pb, ws, lg)
      | Some q \<Rightarrow>
          if rd \<ge> mn then (Return (would_block rd), pb, ws, lg)
          else (case ws of
             [] \<Rightarrow> (Sleep, pb, [], lg @ [wait_event rd q])
           | w # ws' \<Rightarrow>
               (case wake_ret w of
                  Some e \<Rightarrow>
                    if e \<noteq> EINTR \<or> rd = 0 then (Return (Inl e), wake_pb w, ws', lg @ [wait_event rd q])
                    else (Ready available 0, wake_pb w, ws', lg @ [wait_event rd q])
                | None \<Rightarrow>
                    read_wait rd mn (ringbuf_read_size (ring (wake_pb w))) read_sz (wake_pb w) ws'
                      (lg @ [wait_event rd q]))))"

fun write_wait ::
  "size_t \<Rightarrow> size_t \<Rightarrow> size_t \<Rightarrow> size_t \<Rightarrow> pipebuf \<Rightarrow> wake list \<Rightarrow> event list \<Rightarrow>
    wait_exit \<times> pipebuf \<times> wake list \<times> event list" where
  "write_wait wr mn available write_sz pb ws lg =
     (if available \<noteq> 0 then (Ready available write_sz, pb, ws, lg)
      else if nreaders pb = 0 then (Ready available available, pb, ws, lg)
      else case wwaitq pb of
        None \<Rightarrow> (Return (would_block wr), pb, ws, lg)
      | Some q \<Rightarrow>
          if wr \<ge> mn then (Return (would_block wr), pb, ws, lg)
          else (case ws of
             [] \<Rightarrow> (Sleep, pb, [], lg @ [wait_event wr q])
           | w # ws' \<Rightarrow>
               (case wake_ret w of
                  Some e \<Rightarrow>
                    if e \<noteq> EINTR \<or> wr = 0 then (Return (Inl e), wake_pb w, ws', lg @ [wait_event wr q])
                    else (Ready available 0, wake_pb w, ws', lg @ [wait_event wr q])
                | None \<Rightarrow>
                    write_wait wr mn (ringbuf_write_size (ring (wake_pb w))) write_sz (wake_pb w) ws'
                      (lg @ [wait_event wr q]))))"

definition broadcast_opt :: "nat option \<Rightarrow> event list" where
  "broadcast_opt q = (case q of None \<Rightarrow> [] | Some n \<Rightarrow> [Broadcast n])"

text \<open>The state once the inner loop is left, and after the transfer of a round.\<close>

definition after_wait :: "pstate \<Rightarrow> wait_exit \<times> pipebuf \<times> wake list \<times> event list \<Rightarrow> pstate" where
  "after_wait st r = st\<lparr>pbuf := fst (snd r), wakes := fst (snd (snd r)), log := snd (snd (snd r))\<rparr>"

definition after_read :: "pstate \<Rightarrow> machine \<Rightarrow> ringbuf \<Rightarrow> uio \<Rightarrow> pstate" where
  "after_read st m rb u =
     st\<lparr>mach := m, pbuf := (pbuf st)\<lparr>ring := rb\<rparr>, puio := u,
        log := log st @ broadcast_opt (wwaitq (pbuf st))\<rparr>"

definition after_write :: "pstate \<Rightarrow> ringbuf \<Rightarrow> uio \<Rightarrow> pstate" where
  "after_write st rb u =
     st\<lparr>pbuf := (pbuf st)\<lparr>ring := rb\<rparr>, puio := u, log := log st @ broadcast_opt (rwaitq (pbuf st))\<rparr>"

text \<open>\<^verbatim>\<open>read_sz\<close> and \<^verbatim>\<open>write_sz\<close> at the start of a round.\<close>

definition chunk :: "size_t \<Rightarrow> size_t" where
  "chunk n = (if n > PIPE_BUF then PIPE_BUF else n)"

partial_function (option) pipebuf_read_loop ::
  "size_t \<Rightarrow> size_t \<Rightarrow> pstate \<Rightarrow> (outcome \<times> pstate) option" where
  "pipebuf_read_loop mn rd st =
     (if count (puio st) = 0 then Some (Returned (Inr rd), st)
      else let available = ringbuf_read_size (ring (pbuf st))
      in if available = 0 \<and> (nwriters (pbuf st) = 0 \<or> rd \<noteq> 0) then Some (Returned (Inr rd), st)
      else let r = read_wait rd mn available (chunk (count (puio st)))
                     (pbuf st) (wakes st) (log st);
               st = after_wait st r
      in case fst r of
           Sleep \<Rightarrow> Some (Asleep, st)
         | Return x \<Rightarrow> Some (Returned x, st)
         | Ready available read_sz \<Rightarrow>
             if read_sz = 0 then Some (Returned (Inr rd), st)
             else (case ringbuf_readuio (mach st) (ring (pbuf st)) (puio st)
                          (if available < read_sz then available else read_sz) of
                     None \<Rightarrow> None
                   | Some (ret, m, rb, u) \<Rightarrow>
                       (case ret of
                          Inl e \<Rightarrow> Some (Returned (Inl e), after_read st m rb u)
                        | Inr k \<Rightarrow> pipebuf_read_loop mn (rd + k) (after_read st m rb u))))"

definition pipebuf_read_locked :: "size_t \<Rightarrow> pstate \<Rightarrow> (outcome \<times> pstate) option" where
  "pipebuf_read_locked mn st = pipebuf_read_loop mn 0 st"

partial_function (option) pipebuf_write_loop ::
  "size_t \<Rightarrow> size_t \<Rightarrow> pstate \<Rightarrow> (outcome \<times> pstate) option" where
  "pipebuf_write_loop mn wr st =
     (if count (puio st) = 0 then Some (Returned (Inr wr), st)
      else let available = ringbuf_write_size (ring (pbuf st))
      in if available = 0 \<and> nreaders (pbuf st) = 0 then Some (Returned (Inr wr), st)
      else let r = write_wait wr mn available (chunk (count (puio st)))
                     (pbuf st) (wakes st) (log st);
               st = after_wait st r
      in case fst r of
           Sleep \<Rightarrow> Some (Asleep, st)
         | Return x \<Rightarrow> Some (Returned x, st)
         | Ready available write_sz \<Rightarrow>
             if write_sz = 0 then Some (Returned (Inr wr), st)
             else (case ringbuf_writeuio (mach st) (ring (pbuf st)) (puio st) write_sz of
                     None \<Rightarrow> None
                   | Some (ret, rb, u) \<Rightarrow>
                       (case ret of
                          Inl e \<Rightarrow> Some (Returned (Inl e), after_write st rb u)
                        | Inr k \<Rightarrow> pipebuf_write_loop mn (wr + k) (after_write st rb u))))"

definition pipebuf_write_locked :: "size_t \<Rightarrow> pstate \<Rightarrow> (outcome \<times> pstate) option" where
  "pipebuf_write_locked mn st =
     (if nreaders (pbuf st) = 0 then Some (Returned (Inl EPIPE), st) else pipebuf_write_loop mn 0 st)"

definition POLLIN :: u32 where "POLLIN = 1"
definition POLLOUT :: u32 where "POLLOUT = 4"
definition POLLERR :: u32 where "POLLERR = 8"
definition POLLHUP :: u32 where "POLLHUP = 16"

definition pipebuf_poll_locked :: "pipebuf \<Rightarrow> u32 \<Rightarrow> u32" where
  "pipebuf_poll_locked pb events =
     (let ret = 0;
          ret = (if events AND POLLIN \<noteq> 0
                 then let ret = (if ringbuf_read_size (ring pb) \<noteq> 0 then ret OR POLLIN else ret)
                      in if nwriters pb = 0 then ret OR POLLHUP else ret
                 else ret);
          ret = (if events AND POLLOUT \<noteq> 0
                 then let ret = (if ringbuf_write_size (ring pb) \<noteq> 0 then ret OR POLLOUT else ret)
                      in if nreaders pb = 0 then ret OR POLLERR else ret
                 else ret)
      in ret)"

declare read_wait.simps [simp del] write_wait.simps [simp del]

section \<open>File operations on pipes (kern/pipe.c)\<close>

text \<open>
  \<^verbatim>\<open>getpipe\<close> finds the pipe behind a file or nothing; \<open>flags\<close> are the open flags. The wait queues of
  a pipe are its own, so \<open>rwaitq\<close> and \<open>wwaitq\<close> name them in the buffer too.
\<close>

definition O_NONBLOCK :: u32 where "O_NONBLOCK = 512"

definition is_positive :: "outcome \<Rightarrow> bool" where
  "is_positive r = (case r of Returned (Inr k) \<Rightarrow> k \<noteq> 0 | _ \<Rightarrow> False)"

definition pipe_read :: "bool \<Rightarrow> u32 \<Rightarrow> pstate \<Rightarrow> (outcome \<times> pstate) option" where
  "pipe_read has_pipe flags st =
     (if \<not> has_pipe then Some (Returned (Inl EINVAL), st)
      else case pipebuf_read_locked (if flags AND O_NONBLOCK \<noteq> 0 then 0 else count (puio st)) st of
             None \<Rightarrow> None
           | Some (ret, st') \<Rightarrow>
               Some (ret, if is_positive ret then st'\<lparr>log := log st' @ [Poller_broadcast POLLOUT]\<rparr> else st'))"

definition pipe_write :: "bool \<Rightarrow> u32 \<Rightarrow> pstate \<Rightarrow> (outcome \<times> pstate) option" where
  "pipe_write has_pipe flags st =
     (if \<not> has_pipe then Some (Returned (Inl EINVAL), st)
      else case pipebuf_write_locked (if flags AND O_NONBLOCK \<noteq> 0 then 0 else count (puio st)) st of
             None \<Rightarrow> None
           | Some (ret, st') \<Rightarrow>
               Some (ret, if is_positive ret then st'\<lparr>log := log st' @ [Poller_broadcast POLLIN]\<rparr> else st'))"

definition drop_reader :: "pipebuf \<Rightarrow> pipebuf \<times> event list" where
  "drop_reader pb =
     (let pb' = pb\<lparr>nreaders := nreaders pb - 1\<rparr>
      in (pb', if nreaders pb' = 0 then broadcast_opt (wwaitq pb) @ [Poller_broadcast POLLERR] else []))"

definition drop_writer :: "pipebuf \<Rightarrow> pipebuf \<times> event list" where
  "drop_writer pb =
     (let pb' = pb\<lparr>nwriters := nwriters pb - 1\<rparr>
      in (pb', if nwriters pb' = 0 then broadcast_opt (rwaitq pb) @ [Poller_broadcast POLLHUP] else []))"

definition pipe_release :: "u32 \<Rightarrow> pipebuf \<Rightarrow> pipebuf \<times> event list" where
  "pipe_release flags pb =
     (if flags AND 3 = 0 then drop_reader pb
      else if flags AND 3 = 1 then drop_writer pb
      else if flags AND 3 = 2
      then let (pb1, e1) = drop_reader pb; (pb2, e2) = drop_writer pb1 in (pb2, e1 @ e2)
      else (pb, []))"

definition pipe_fopen :: "u32 \<Rightarrow> pipebuf \<Rightarrow> errno + pipebuf" where
  "pipe_fopen flags pb =
     (if flags AND 3 = 0 then Inr (pb\<lparr>nreaders := nreaders pb + 1\<rparr>)
      else if flags AND 3 = 1 then Inr (pb\<lparr>nwriters := nwriters pb + 1\<rparr>)
      else if flags AND 3 = 2
      then Inr (pb\<lparr>nreaders := nreaders pb + 1, nwriters := nwriters pb + 1\<rparr>)
      else Inl EINVAL)"

definition pipe_seek :: "int \<Rightarrow> int \<Rightarrow> errno + int" where
  "pipe_seek offset whence = Inl ESPIPE"

text \<open>\<^verbatim>\<open>pipe_alloc\<close> up to the objects it initialises: the buffer over two fresh wait queues.\<close>

definition pipe_alloc :: "(size_t \<Rightarrow> u8 list option) \<Rightarrow> nat \<Rightarrow> nat \<Rightarrow> errno + pipebuf" where
  "pipe_alloc vmalloc rq wq = pipebuf_init vmalloc (PIPE_BUF * 2) (Some rq) (Some wq)"

section \<open>Transfers without sleeping\<close>

text \<open>A sound ring and a \<^verbatim>\<open>uio\<close> whose segments cover its count.\<close>

definition pst_ok :: "pstate \<Rightarrow> bool" where
  "pst_ok st \<longleftrightarrow> ringbuf_wf (ring (pbuf st)) \<and> uio_ok (mach st) (puio st)
     \<and> unat (count (puio st)) \<le> length (uio_addrs (puio st))"

abbreviation pcontents :: "pstate \<Rightarrow> u8 list" where
  "pcontents st \<equiv> contents (ring (pbuf st))"

abbreviation pbytes :: "pstate \<Rightarrow> uintptr_t \<Rightarrow> u8" where
  "pbytes st \<equiv> mbyte (mach st) (userbuf (puio st))"

lemma upd_bytes_two:
  assumes "s \<le> k" "k \<le> length as" "k \<le> length c"
  shows "upd_bytes (upd_bytes f (take s as) c) (take (k - s) (drop s as)) (drop s c) = upd_bytes f (take k as) c"
proof -
  have "upd_bytes f (take s as) c = upd_bytes f (take s as) (take s c)"
    using assms by (subst upd_bytes_take) simp
  then show ?thesis using upd_bytes_split [of s k as c f] assms by simp
qed

lemma read_size_zero:
  "ringbuf_wf rb \<Longrightarrow> ringbuf_read_size rb = 0 \<longleftrightarrow> contents rb = []"
  using unat_ringbuf_read_size [of rb] by (auto simp: unat_eq_0 [symmetric] simp del: unat_eq_0)

lemma write_size_zero:
  "ringbuf_wf rb \<Longrightarrow> ringbuf_write_size rb = 0 \<longleftrightarrow> room rb = 0"
  using unat_ringbuf_write_size [of rb] by (auto simp: unat_eq_0 [symmetric] simp del: unat_eq_0)

lemma unat_chunk: "unat (chunk n) = min (unat n) 4096"
  by (auto simp: chunk_def PIPE_BUF_def word_less_nat_alt)

lemma after_simps [simp]:
  "mach (after_read st m rb u) = m" "ring (pbuf (after_read st m rb u)) = rb"
  "puio (after_read st m rb u) = u" "wakes (after_read st m rb u) = wakes st"
  "nwriters (pbuf (after_read st m rb u)) = nwriters (pbuf st)"
  "nreaders (pbuf (after_read st m rb u)) = nreaders (pbuf st)"
  "rwaitq (pbuf (after_read st m rb u)) = rwaitq (pbuf st)"
  "mach (after_write st rb u) = mach st" "ring (pbuf (after_write st rb u)) = rb"
  "puio (after_write st rb u) = u" "wakes (after_write st rb u) = wakes st"
  "nreaders (pbuf (after_write st rb u)) = nreaders (pbuf st)"
  "nwriters (pbuf (after_write st rb u)) = nwriters (pbuf st)"
  "wwaitq (pbuf (after_write st rb u)) = wwaitq (pbuf st)"
  by (simp_all add: after_read_def after_write_def)

lemma after_wait_same [simp]: "after_wait st (x, pbuf st, wakes st, log st) = st"
  by (simp add: after_wait_def)

lemma min_round:
  fixes n r m :: nat
  shows "min n r = min (n - min n (min m r)) (r - min n (min m r)) + min n (min m r)"
  by linarith

lemma read_loop_round:
  assumes "pst_ok st" "count (puio st) \<noteq> 0" "pcontents st \<noteq> []"
  defines "s \<equiv> min (unat (count (puio st))) (min 4096 (length (pcontents st)))"
  obtains st' where "pipebuf_read_loop mn rd st = pipebuf_read_loop mn (rd + of_nat s) st'"
    "pst_ok st'" "pcontents st' = drop s (pcontents st)"
    "pbytes st' = upd_bytes (pbytes st) (take s (uio_addrs (puio st))) (pcontents st)"
    "uio_addrs (puio st') = drop s (uio_addrs (puio st))"
    "unat (count (puio st')) = unat (count (puio st)) - s" "wakes st' = wakes st"
    "same_layout (userbuf (puio st)) (mach st) (mach st')" "userbuf (puio st') = userbuf (puio st)"
proof -
  let ?rb = "ring (pbuf st)" and ?u = "puio st"
  have ok: "ringbuf_wf ?rb" "uio_ok (mach st) ?u" "unat (count ?u) \<le> length (uio_addrs ?u)"
    using assms(1) by (auto simp: pst_ok_def)
  let ?av = "ringbuf_read_size ?rb"
  have av: "unat ?av = length (pcontents st)" "?av \<noteq> 0"
    using ok(1) assms(3) by (simp_all add: unat_ringbuf_read_size read_size_zero)
  define k where "k = (if ?av < chunk (count ?u) then ?av else chunk (count ?u))"
  have k: "unat k = s"
    by (auto simp: k_def s_def word_less_nat_alt unat_chunk av(1))
  have "unat k \<le> unat (count ?u)" "unat k \<le> length (uio_addrs ?u)"
    using ok(3) k by (simp_all add: s_def)
  from ringbuf_readuio_ok [OF ok(1,2) this] obtain m rb u where r:
    "ringbuf_readuio (mach st) ?rb ?u k = Some (Inr (of_nat s), m, rb, u)"
    "ringbuf_wf rb" "contents rb = drop s (pcontents st)"
    "mbyte m (userbuf ?u) = upd_bytes (pbytes st) (take s (uio_addrs ?u)) (pcontents st)"
    "same_layout (userbuf ?u) (mach st) m"
    "uio_addrs u = drop s (uio_addrs ?u)" "userbuf u = userbuf ?u" "uio_ok m u" "count u = count ?u - of_nat s"
    unfolding k by (auto simp: s_def min.absorb1)
  have "of_nat s = k" by (simp flip: k)
  then have cnt: "unat (count u) = unat (count ?u) - s"
    using k by (simp add: r(9) unat_diff_le s_def)
  have sz: "chunk (count ?u) \<noteq> 0"
    using assms(2) unat_chunk [of "count ?u"] by (auto simp: word_unat_eq_iff)
  have "read_wait rd mn ?av (chunk (count ?u)) (pbuf st) (wakes st) (log st)
      = (Ready ?av (chunk (count ?u)), pbuf st, wakes st, log st)"
    using av by (simp add: read_wait.simps)
  then have "pipebuf_read_loop mn rd st = pipebuf_read_loop mn (rd + of_nat s) (after_read st m rb u)"
    using assms(2) av(2) sz r(1)
    by (subst pipebuf_read_loop.simps) (simp add: Let_def k_def [symmetric])
  moreover have "pst_ok (after_read st m rb u)"
    using r ok(3) cnt by (simp add: pst_ok_def)
  ultimately show ?thesis using r cnt by (intro that [of "after_read st m rb u"]) simp_all
qed

lemma read_loop_drain:
  assumes "pst_ok st" "pcontents st \<noteq> [] \<or> rd \<noteq> 0 \<or> nwriters (pbuf st) = 0"
    and "unat rd + unat (count (puio st)) < 2 ^ 64"
  defines "k \<equiv> min (unat (count (puio st))) (length (pcontents st))"
  shows "\<exists>st'. pipebuf_read_loop mn rd st = Some (Returned (Inr (rd + of_nat k)), st')
    \<and> pst_ok st' \<and> pcontents st' = drop k (pcontents st)
    \<and> pbytes st' = upd_bytes (pbytes st) (take k (uio_addrs (puio st))) (pcontents st)
    \<and> uio_addrs (puio st') = drop k (uio_addrs (puio st)) \<and> wakes st' = wakes st
    \<and> same_layout (userbuf (puio st)) (mach st) (mach st')"
  using assms(1-3) unfolding k_def
proof (induction "unat (count (puio st))" arbitrary: st rd rule: less_induct)
  case less
  let ?c = "pcontents st" and ?as = "uio_addrs (puio st)" and ?n = "unat (count (puio st))"
  show ?case
  proof (cases "count (puio st) = 0 \<or> ?c = []")
    case True
    then have "pipebuf_read_loop mn rd st = Some (Returned (Inr rd), st)"
      using less.prems(1,2) by (subst pipebuf_read_loop.simps) (auto simp: Let_def pst_ok_def read_size_zero)
    with True less.prems(1) show ?thesis by auto
  next
    case False
    let ?k = "min ?n (length ?c)"
    define s where "s = min ?n (min 4096 (length ?c))"
    have pos: "0 < s" using False by (simp add: s_def unat_gt_0)
    have sn: "s \<le> ?n" by (simp add: s_def)
    then have s64: "s < 2 ^ 64" using unat_lt64 [of "count (puio st)"] by linarith
    obtain st1 where st1: "pipebuf_read_loop mn rd st = pipebuf_read_loop mn (rd + of_nat s) st1"
      "pst_ok st1" "pcontents st1 = drop s ?c" "pbytes st1 = upd_bytes (pbytes st) (take s ?as) ?c"
      "uio_addrs (puio st1) = drop s ?as" "unat (count (puio st1)) = ?n - s" "wakes st1 = wakes st"
      "same_layout (userbuf (puio st)) (mach st) (mach st1)" "userbuf (puio st1) = userbuf (puio st)"
      using read_loop_round [OF less.prems(1), of mn rd] False unfolding s_def by blast
    have rd: "unat (rd + of_nat s) = unat rd + s"
      using less.prems(3) sn s64 by (subst unat_add64) (simp_all add: unat_of_nat64)
    then have "rd + of_nat s \<noteq> 0" using pos by (auto simp: word_unat_eq_iff)
    then have more: "pcontents st1 \<noteq> [] \<or> rd + of_nat s \<noteq> 0 \<or> nwriters (pbuf st1) = 0" by simp
    have fit: "unat (rd + of_nat s) + unat (count (puio st1)) < 2 ^ 64"
      using less.prems(3) sn by (simp add: rd st1(6))
    have dec: "unat (count (puio st1)) < ?n" using pos sn by (simp add: st1(6))
    define l where "l = min (?n - s) (length ?c - s)"
    then have l: "min (unat (count (puio st1))) (length (pcontents st1)) = l" by (simp add: st1(3,6))
    from less.hyps [OF dec st1(2) more fit]
    obtain st' where st': "pipebuf_read_loop mn (rd + of_nat s) st1 =
        Some (Returned (Inr (rd + of_nat s + of_nat l)), st')"
      "pst_ok st'" "pcontents st' = drop l (drop s ?c)"
      "pbytes st' = upd_bytes (pbytes st1) (take l (drop s ?as)) (drop s ?c)"
      "uio_addrs (puio st') = drop l (drop s ?as)" "wakes st' = wakes st"
      "same_layout (userbuf (puio st)) (mach st1) (mach st')"
      unfolding l unfolding st1(3,5,7,9) by blast
    have lk: "?k = l + s" unfolding l_def s_def by (rule min_round)
    then have "s \<le> ?k" "?k - s = l" by simp_all
    moreover have "?k \<le> length ?as" using less.prems(1) by (auto simp: pst_ok_def)
    ultimately have "pbytes st' = upd_bytes (pbytes st) (take ?k ?as) ?c"
      unfolding st'(4) st1(4) using upd_bytes_two [of s ?k ?as ?c "pbytes st"] by simp
    moreover have "same_layout (userbuf (puio st)) (mach st) (mach st')"
      using st1(8) st'(7) by (rule same_layout_trans)
    moreover have "rd + of_nat s + of_nat l = rd + of_nat (l + s)" by (simp add: add.commute)
    ultimately show ?thesis using st' unfolding st1(1) lk drop_drop by (intro exI [of _ st']) simp
  qed
qed

lemma write_loop_round:
  assumes "pst_ok st" "count (puio st) \<noteq> 0" "room (ring (pbuf st)) \<noteq> 0"
  defines "s \<equiv> min (unat (count (puio st))) (min 4096 (room (ring (pbuf st))))"
  obtains st' where "pipebuf_write_loop mn wr st = pipebuf_write_loop mn (wr + of_nat s) st'"
    "pst_ok st'" "pcontents st' = pcontents st @ map (pbytes st) (take s (uio_addrs (puio st)))"
    "room (ring (pbuf st')) = room (ring (pbuf st)) - s" "mach st' = mach st"
    "uio_addrs (puio st') = drop s (uio_addrs (puio st))"
    "unat (count (puio st')) = unat (count (puio st)) - s" "wakes st' = wakes st"
    "userbuf (puio st') = userbuf (puio st)" "nreaders (pbuf st') = nreaders (pbuf st)"
proof -
  let ?rb = "ring (pbuf st)" and ?u = "puio st"
  have ok: "ringbuf_wf ?rb" "uio_ok (mach st) ?u" "unat (count ?u) \<le> length (uio_addrs ?u)"
    using assms(1) by (auto simp: pst_ok_def)
  let ?av = "ringbuf_write_size ?rb" and ?k = "chunk (count ?u)"
  have av: "?av \<noteq> 0" using ok(1) assms(3) by (simp add: write_size_zero)
  have s: "s = min (unat ?k) (room ?rb)" by (simp add: s_def unat_chunk min.assoc)
  have "unat ?k \<le> unat (count ?u)" "unat ?k \<le> length (uio_addrs ?u)"
    using ok(3) by (simp_all add: unat_chunk)
  from ringbuf_writeuio_ok [OF ok(1,2) this] obtain rb u where r:
    "ringbuf_writeuio (mach st) ?rb ?u ?k = Some (Inr (of_nat s), rb, u)"
    "ringbuf_wf rb" "contents rb = pcontents st @ map (pbytes st) (take s (uio_addrs ?u))"
    "rb_size rb = rb_size ?rb"
    "uio_addrs u = drop s (uio_addrs ?u)" "userbuf u = userbuf ?u" "uio_ok (mach st) u"
    "count u = count ?u - of_nat s"
    unfolding s by blast
  have le: "s \<le> unat (count ?u)" by (simp add: s_def)
  then have "unat (of_nat s :: size_t) = s" using unat_lt64 [of "count ?u"] by (simp add: unat_of_nat64)
  then have cnt: "unat (count u) = unat (count ?u) - s"
    using le by (simp add: r(8) unat_diff_le)
  have sz: "?k \<noteq> 0"
    using assms(2) unat_chunk [of "count ?u"] by (auto simp: word_unat_eq_iff)
  have "write_wait wr mn ?av ?k (pbuf st) (wakes st) (log st) = (Ready ?av ?k, pbuf st, wakes st, log st)"
    using av by (simp add: write_wait.simps)
  then have "pipebuf_write_loop mn wr st = pipebuf_write_loop mn (wr + of_nat s) (after_write st rb u)"
    using assms(2) av sz r(1)
    by (subst pipebuf_write_loop.simps) (simp add: Let_def)
  moreover have "pst_ok (after_write st rb u)"
    using r ok(3) cnt by (simp add: pst_ok_def)
  moreover have "room rb = room ?rb - s"
    using room_append [OF r(3,4)] ok(3) le by simp
  ultimately show ?thesis using r cnt by (intro that [of "after_write st rb u"]) simp_all
qed

lemma write_loop_fill:
  assumes "pst_ok st" "nreaders (pbuf st) \<noteq> 0" "mn = 0 \<or> unat (count (puio st)) \<le> room (ring (pbuf st))"
    and "unat wr + unat (count (puio st)) < 2 ^ 64"
  defines "k \<equiv> min (unat (count (puio st))) (room (ring (pbuf st)))"
  shows "\<exists>st'. pipebuf_write_loop mn wr st =
      Some (Returned (if k = unat (count (puio st)) then Inr (wr + of_nat k) else would_block (wr + of_nat k)), st')
    \<and> pst_ok st' \<and> pcontents st' = pcontents st @ map (pbytes st) (take k (uio_addrs (puio st)))
    \<and> uio_addrs (puio st') = drop k (uio_addrs (puio st)) \<and> mach st' = mach st \<and> wakes st' = wakes st"
  using assms(1-4) unfolding k_def
proof (induction "unat (count (puio st))" arbitrary: st wr rule: less_induct)
  case less
  let ?r = "room (ring (pbuf st))" and ?as = "uio_addrs (puio st)" and ?n = "unat (count (puio st))"
  have wf: "ringbuf_wf (ring (pbuf st))" using less.prems(1) by (simp add: pst_ok_def)
  consider "?n = 0" | "?n \<noteq> 0" "?r = 0" | "?n \<noteq> 0" "?r \<noteq> 0" by blast
  then show ?case
  proof cases
    case 1
    then have "pipebuf_write_loop mn wr st = Some (Returned (Inr wr), st)"
      by (subst pipebuf_write_loop.simps) (simp add: unat_eq_0)
    with 1 less.prems(1) show ?thesis by simp
  next
    case 2
    then have "mn = 0" using less.prems(3) by simp
    then have "write_wait wr mn 0 c (pbuf st) (wakes st) (log st)
        = (Return (would_block wr), pbuf st, wakes st, log st)" for c
      using less.prems(2) by (simp add: write_wait.simps split: option.split)
    moreover have "ringbuf_write_size (ring (pbuf st)) = 0" using 2(2) wf by (simp add: write_size_zero)
    ultimately have "pipebuf_write_loop mn wr st = Some (Returned (would_block wr), st)"
      using 2(1) less.prems(2)
      by (subst pipebuf_write_loop.simps) (simp add: Let_def unat_eq_0)
    with 2 less.prems(1) show ?thesis by simp
  next
    case 3
    let ?k = "min ?n ?r"
    define s where "s = min ?n (min 4096 ?r)"
    have sn: "s \<le> ?n" "0 < s" using 3 by (simp_all add: s_def)
    then have s64: "s < 2 ^ 64" using unat_lt64 [of "count (puio st)"] by linarith
    have nz: "count (puio st) \<noteq> 0" using 3(1) by (simp add: unat_eq_0)
    obtain st1 where st1: "pipebuf_write_loop mn wr st = pipebuf_write_loop mn (wr + of_nat s) st1"
      "pst_ok st1" "pcontents st1 = pcontents st @ map (pbytes st) (take s ?as)"
      "room (ring (pbuf st1)) = ?r - s" "mach st1 = mach st" "uio_addrs (puio st1) = drop s ?as"
      "unat (count (puio st1)) = ?n - s" "wakes st1 = wakes st"
      "userbuf (puio st1) = userbuf (puio st)" "nreaders (pbuf st1) = nreaders (pbuf st)"
      using write_loop_round [OF less.prems(1) nz 3(2), of mn wr] unfolding s_def by blast
    have wr: "unat (wr + of_nat s) = unat wr + s"
      using less.prems(4) sn s64 by (subst unat_add64) (simp_all add: unat_of_nat64)
    have fit: "unat (wr + of_nat s) + unat (count (puio st1)) < 2 ^ 64"
      using less.prems(4) sn by (simp add: wr st1(7))
    have dec: "unat (count (puio st1)) < ?n" using 3 sn by (simp add: st1(7))
    have cond: "mn = 0 \<or> unat (count (puio st1)) \<le> room (ring (pbuf st1))"
      using less.prems(3) by (auto simp: st1(4,7) diff_le_mono)
    have rd: "nreaders (pbuf st1) \<noteq> 0" using less.prems(2) st1(10) by simp
    define l where "l = min (?n - s) (?r - s)"
    then have l: "min (unat (count (puio st1))) (room (ring (pbuf st1))) = l" by (simp add: st1(4,7))
    from less.hyps [OF dec st1(2) rd cond fit]
    obtain st' where st': "pipebuf_write_loop mn (wr + of_nat s) st1 =
        Some (Returned (if l = ?n - s then Inr (wr + of_nat s + of_nat l)
                        else would_block (wr + of_nat s + of_nat l)), st')"
      "pst_ok st'"
      "pcontents st' = pcontents st @ map (pbytes st) (take s ?as) @ map (pbytes st) (take l (drop s ?as))"
      "uio_addrs (puio st') = drop l (drop s ?as)" "mach st' = mach st" "wakes st' = wakes st"
      unfolding l unfolding st1(3,5-9) by auto
    have lk: "?k = l + s" unfolding l_def s_def by (rule min_round)
    have tk: "take (l + s) ?as = take s ?as @ take l (drop s ?as)"
      by (metis add.commute take_add)
    have all: "l = ?n - s \<longleftrightarrow> l + s = ?n" using sn by linarith
    have amount: "wr + of_nat s + of_nat l = wr + of_nat (l + s)" by (simp add: add.commute)
    show ?thesis unfolding st1(1) st'(1) lk tk all amount
      using st'(2-6) by (intro exI [of _ st']) (simp add: add.commute)
  qed
qed

section \<open>Sleeping\<close>

text \<open>A wakeup that finds the pipe as it was: still empty, still with writers.\<close>

definition spurious :: "nat \<Rightarrow> wake \<Rightarrow> bool" where
  "spurious q w \<longleftrightarrow> wake_ret w = None \<and> rwaitq (wake_pb w) = Some q \<and> nwriters (wake_pb w) \<noteq> 0
     \<and> ringbuf_wf (ring (wake_pb w)) \<and> contents (ring (wake_pb w)) = []"

lemma read_wait_spurious:
  assumes "rwaitq pb = Some q" "nwriters pb \<noteq> 0" "mn \<noteq> 0" "list_all (spurious q) sp" "wake_ret w = None"
  shows "\<exists>lg'. read_wait 0 mn 0 sz pb (sp @ w # ws) lg =
    read_wait 0 mn (ringbuf_read_size (ring (wake_pb w))) sz (wake_pb w) ws lg'"
  using assms
proof (induction sp arbitrary: pb lg)
  case Nil
  then have "read_wait 0 mn 0 sz pb ([] @ w # ws) lg =
      read_wait 0 mn (ringbuf_read_size (ring (wake_pb w))) sz (wake_pb w) ws (lg @ [wait_event 0 q])"
    by (subst read_wait.simps) simp
  then show ?case by blast
next
  case (Cons s sp)
  then have s: "wake_ret s = None" "rwaitq (wake_pb s) = Some q" "nwriters (wake_pb s) \<noteq> 0"
    "ringbuf_read_size (ring (wake_pb s)) = 0" "list_all (spurious q) sp"
    by (auto simp: spurious_def [of q s] read_size_zero)
  then have "read_wait 0 mn 0 sz pb ((s # sp) @ w # ws) lg =
      read_wait 0 mn 0 sz (wake_pb s) (sp @ w # ws) (lg @ [wait_event 0 q])"
    using Cons.prems by (subst read_wait.simps) simp
  with Cons.IH [OF s(2,3) Cons.prems(3) s(5) Cons.prems(5)] show ?case by simp
qed

lemma read_loop_wakes:
  assumes "pst_ok st" "pcontents st = []" "count (puio st) \<noteq> 0"
    and "rwaitq (pbuf st) = Some q" "nwriters (pbuf st) \<noteq> 0" "mn \<noteq> 0"
    and "wakes st = sp @ w # ws" "list_all (spurious q) sp" "wake_ret w = None"
    and "ringbuf_wf (ring (wake_pb w))" "contents (ring (wake_pb w)) \<noteq> [] \<or> nwriters (wake_pb w) = 0"
  shows "\<exists>lg. pipebuf_read_loop mn 0 st =
    pipebuf_read_loop mn 0 (st\<lparr>pbuf := wake_pb w, wakes := ws, log := lg\<rparr>)"
proof -
  let ?av = "ringbuf_read_size (ring (wake_pb w))" and ?n = "chunk (count (puio st))"
  have zero: "ringbuf_read_size (ring (pbuf st)) = 0" using assms(1,2) by (simp add: pst_ok_def read_size_zero)
  obtain lg where lg: "read_wait 0 mn 0 ?n (pbuf st) (wakes st) (log st) =
      read_wait 0 mn ?av ?n (wake_pb w) ws lg"
    using read_wait_spurious [OF assms(4-6,8,9)] unfolding assms(7) by blast
  define st2 where "st2 = st\<lparr>pbuf := wake_pb w, wakes := ws, log := lg\<rparr>"
  have av: "?av = 0 \<longleftrightarrow> contents (ring (wake_pb w)) = []" using assms(10) by (rule read_size_zero)
  have sz: "?n \<noteq> 0" using assms(3) unat_chunk [of "count (puio st)"] by (auto simp: word_unat_eq_iff)
  have wait: "read_wait 0 mn ?av ?n (wake_pb w) ws lg = (Ready ?av (if ?av = 0 then 0 else ?n), wake_pb w, ws, lg)"
    using av assms(11) by (simp add: read_wait.simps)
  note lgw = trans [OF lg wait]
  have after: "after_wait st (x, wake_pb w, ws, lg) = st2" for x
    by (simp add: after_wait_def st2_def)
  have fields: "pbuf st2 = wake_pb w" "wakes st2 = ws" "log st2 = lg" "puio st2 = puio st" "mach st2 = mach st"
    by (simp_all add: st2_def)
  have same: "after_wait st2 (x, wake_pb w, ws, lg) = st2" for x
    by (simp add: after_wait_def st2_def)
  have "pipebuf_read_loop mn 0 st = pipebuf_read_loop mn 0 st2"
  proof (cases "?av = 0")
    case True
    then have "nwriters (wake_pb w) = 0" using av assms(11) by simp
    then show ?thesis using True assms(3,5)
      by (subst (1 2) pipebuf_read_loop.simps)
        (simp add: Let_def zero lgw after fields)
  next
    case False
    then show ?thesis using assms(3,5) sz
      by (subst (1 2) pipebuf_read_loop.simps)
        (simp add: Let_def zero lgw wait after fields same split: option.split sum.split)
  qed
  then show ?thesis by (auto simp: st2_def)
qed

section \<open>Properties\<close>

text \<open>
  C17. A blocking read returns exactly when there is something to return: after any number of spurious
  wakeups, at the first one that finds bytes, or no writer left, it delivers the oldest bytes of the
  pipe, as many as were asked for or are there (none at end of file), in order, to the reader's
  segments, and removes just those from the pipe.
\<close>

theorem pipebuf_read_blocking:
  assumes "pst_ok st" "pcontents st = []" "count (puio st) \<noteq> 0"
    and "rwaitq (pbuf st) = Some q" "nwriters (pbuf st) \<noteq> 0" "mn \<noteq> 0"
    and "wakes st = sp @ w # ws" "list_all (spurious q) sp" "wake_ret w = None"
    and "ringbuf_wf (ring (wake_pb w))" "contents (ring (wake_pb w)) \<noteq> [] \<or> nwriters (wake_pb w) = 0"
  defines "k \<equiv> min (unat (count (puio st))) (length (contents (ring (wake_pb w))))"
  shows "\<exists>st'. pipebuf_read_locked mn st = Some (Returned (Inr (of_nat k)), st')
    \<and> pcontents st' = drop k (contents (ring (wake_pb w)))
    \<and> pbytes st' = upd_bytes (pbytes st) (take k (uio_addrs (puio st))) (contents (ring (wake_pb w)))
    \<and> uio_addrs (puio st') = drop k (uio_addrs (puio st)) \<and> wakes st' = ws"
proof -
  obtain lg where lg: "pipebuf_read_loop mn 0 st =
      pipebuf_read_loop mn 0 (st\<lparr>pbuf := wake_pb w, wakes := ws, log := lg\<rparr>)"
    using read_loop_wakes [OF assms(1-11)] by blast
  let ?st = "st\<lparr>pbuf := wake_pb w, wakes := ws, log := lg\<rparr>"
  have "pst_ok ?st" using assms(1,10) by (simp add: pst_ok_def)
  moreover have "pcontents ?st \<noteq> [] \<or> (0 :: size_t) \<noteq> 0 \<or> nwriters (pbuf ?st) = 0" using assms(11) by simp
  moreover have "unat (0 :: size_t) + unat (count (puio ?st)) < 2 ^ 64" using unat_lt64 by simp
  ultimately have "\<exists>st'. pipebuf_read_loop mn 0 ?st = Some (Returned (Inr (0 + of_nat k)), st')
    \<and> pst_ok st' \<and> pcontents st' = drop k (contents (ring (wake_pb w)))
    \<and> pbytes st' = upd_bytes (pbytes st) (take k (uio_addrs (puio st))) (contents (ring (wake_pb w)))
    \<and> uio_addrs (puio st') = drop k (uio_addrs (puio st)) \<and> wakes st' = ws
    \<and> same_layout (userbuf (puio st)) (mach st) (mach st')"
    using read_loop_drain [of ?st 0 mn] by (simp add: k_def)
  then show ?thesis by (auto simp: pipebuf_read_locked_def lg)
qed

definition pipe_of :: "ringbuf \<Rightarrow> pipebuf" where
  "pipe_of rb = \<lparr>ring = rb, rwaitq = Some 1, wwaitq = Some 2, nreaders = 1, nwriters = 1\<rparr>"

definition two_byte_ring :: ringbuf where
  "two_byte_ring = \<lparr>data = Some [7, 8, 0, 0], rb_size = 4, read_pos = 0, write_pos = 2\<rparr>"

definition demo_pstate :: "pipebuf \<Rightarrow> wake list \<Rightarrow> pstate" where
  "demo_pstate pb ws = \<lparr>mach = kernel_machine, pbuf = pb, puio = three_segs, wakes = ws, log = []\<rparr>"

lemma demo_facts:
  "ringbuf_wf two_byte_ring" "contents two_byte_ring = [7, 8]" "contents small_ring = []" "room small_ring = 3"
  "userbuf three_segs = False" "count three_segs = 5"
  "ringbuf_wf (ring pb) \<Longrightarrow> pst_ok (demo_pstate pb ws)"
  by (simp_all add: ringbuf_wf_def two_byte_ring_def contents_def small_ring_def room_def pst_ok_def
      demo_pstate_def three_segs_facts)
    (simp_all add: three_segs_def)

theorem pipebuf_read_blocking_witness:
  "\<exists>st'. pipebuf_read_locked 5 (demo_pstate (pipe_of small_ring)
      [\<lparr>wake_ret = None, wake_pb = pipe_of small_ring\<rparr>, \<lparr>wake_ret = None, wake_pb = pipe_of two_byte_ring\<rparr>])
    = Some (Returned (Inr 2), st') \<and> pcontents st' = [] \<and> pbytes st' 101 = 8"
proof -
  let ?sp = "\<lparr>wake_ret = None, wake_pb = pipe_of small_ring\<rparr>"
  let ?w = "\<lparr>wake_ret = None, wake_pb = pipe_of two_byte_ring\<rparr>"
  let ?st = "demo_pstate (pipe_of small_ring) [?sp, ?w]"
  have ok: "pst_ok ?st" using small_ring_wf demo_facts(7) by (simp add: pipe_of_def)
  have "list_all (spurious 1) [?sp]"
    using small_ring_wf by (simp add: spurious_def pipe_of_def demo_facts)
  then show ?thesis
    using pipebuf_read_blocking [OF ok, of 1 5 "[?sp]" ?w "[]"]
    by (auto simp: demo_pstate_def pipe_of_def demo_facts three_segs_facts)
qed

text \<open>The write that need not wait, for the two properties below.\<close>

lemma pipe_write_nonblock:
  assumes "pst_ok st"
    and "flags AND O_NONBLOCK \<noteq> 0 \<or> unat (count (puio st)) \<le> room (ring (pbuf st))"
  defines "k \<equiv> min (unat (count (puio st))) (room (ring (pbuf st)))"
  shows "if nreaders (pbuf st) = 0 then pipe_write True flags st = Some (Returned (Inl EPIPE), st)
    else \<exists>st'. pipe_write True flags st = Some (Returned
        (if k = 0 \<and> count (puio st) \<noteq> 0 then Inl EAGAIN else Inr (of_nat k)), st')
      \<and> pcontents st' = pcontents st @ map (pbytes st) (take k (uio_addrs (puio st)))
      \<and> uio_addrs (puio st') = drop k (uio_addrs (puio st)) \<and> mach st' = mach st"
proof (cases "nreaders (pbuf st) = 0")
  case True
  then show ?thesis by (simp add: pipe_write_def pipebuf_write_locked_def is_positive_def)
next
  case False
  let ?mn = "if flags AND O_NONBLOCK \<noteq> 0 then 0 else count (puio st)"
  have "unat (0 :: size_t) + unat (count (puio st)) < 2 ^ 64" using unat_lt64 by simp
  moreover have "?mn = 0 \<or> unat (count (puio st)) \<le> room (ring (pbuf st))" using assms(2) by simp
  ultimately obtain st' where st': "pipebuf_write_loop ?mn 0 st =
      Some (Returned (if k = unat (count (puio st)) then Inr (of_nat k) else would_block (of_nat k)), st')"
    "pcontents st' = pcontents st @ map (pbytes st) (take k (uio_addrs (puio st)))"
    "uio_addrs (puio st') = drop k (uio_addrs (puio st))" "mach st' = mach st"
    using write_loop_fill [OF assms(1) False, of ?mn 0] unfolding k_def [symmetric] by auto
  have "k < 2 ^ 64" unfolding k_def using unat_lt64 [of "count (puio st)"] by simp
  then have k0: "(of_nat k :: size_t) = 0 \<longleftrightarrow> k = 0"
    by (simp add: word_unat_eq_iff unat_of_nat64)
  have "(if k = unat (count (puio st)) then Inr (of_nat k) else would_block (of_nat k)) =
      (if k = 0 \<and> count (puio st) \<noteq> 0 then Inl EAGAIN else Inr (of_nat k :: size_t))"
    using k0 by (auto simp: would_block_def unat_eq_0)
  with st' False show ?thesis
    by (simp add: pipe_write_def pipebuf_write_locked_def)
qed

text \<open>
  C18. A pipe write that need not wait (the descriptor is non-blocking, or the bytes fit) appends the
  writer's bytes to the pipe in order, as many as fit: all of them when there is room, else what fits,
  with the short count as result, or EAGAIN when nothing fits. With no reader it is EPIPE and nothing
  is written.
\<close>

theorem pipe_write_appends:
  assumes "pst_ok st"
    and "flags AND O_NONBLOCK \<noteq> 0 \<or> unat (count (puio st)) \<le> room (ring (pbuf st))"
  defines "k \<equiv> min (unat (count (puio st))) (room (ring (pbuf st)))"
  shows "if nreaders (pbuf st) = 0 then pipe_write True flags st = Some (Returned (Inl EPIPE), st)
    else \<exists>st'. pipe_write True flags st = Some (Returned
        (if k = 0 \<and> count (puio st) \<noteq> 0 then Inl EAGAIN else Inr (of_nat k)), st')
      \<and> pcontents st' = pcontents st @ map (pbytes st) (take k (uio_addrs (puio st)))
      \<and> uio_addrs (puio st') = drop k (uio_addrs (puio st)) \<and> mach st' = mach st"
  using pipe_write_nonblock [OF assms(1,2)] unfolding k_def .

theorem pipe_write_appends_witness:
  "\<exists>st'. pipe_write True O_NONBLOCK (demo_pstate (pipe_of small_ring) []) = Some (Returned (Inr 3), st')
    \<and> pcontents st' = [100, 101, 50]"
proof -
  have "pst_ok (demo_pstate (pipe_of small_ring) [])"
    using small_ring_wf demo_facts(7) by (simp add: pipe_of_def)
  moreover have "map (mbyte kernel_machine False) [100, 101, 50] = [100, 101, 50]"
    by (simp add: mbyte_def kernel_machine_def)
  ultimately show ?thesis
    using pipe_write_appends [of "demo_pstate (pipe_of small_ring) []" O_NONBLOCK]
    by (auto simp: demo_pstate_def pipe_of_def demo_facts three_segs_facts O_NONBLOCK_def)
qed

text \<open>A non-blocking read: at end of file or with bytes there it answers a count, else EAGAIN.\<close>

lemma pipe_read_nonblock:
  assumes "pst_ok st" "count (puio st) \<noteq> 0"
  shows "\<exists>st'. pipe_read True O_NONBLOCK st = Some (Returned
    (if pcontents st = [] \<and> nwriters (pbuf st) \<noteq> 0 then Inl EAGAIN
     else Inr (of_nat (min (unat (count (puio st))) (length (pcontents st))))), st')"
proof (cases "pcontents st = [] \<and> nwriters (pbuf st) \<noteq> 0")
  case True
  then have zero: "ringbuf_read_size (ring (pbuf st)) = 0"
    using assms(1) by (simp add: pst_ok_def read_size_zero)
  moreover have "read_wait 0 0 0 n (pbuf st) (wakes st) (log st) =
      (Return (Inl EAGAIN), pbuf st, wakes st, log st)" for n
    using True by (simp add: read_wait.simps would_block_def split: option.split)
  ultimately have "pipebuf_read_loop 0 0 st = Some (Returned (Inl EAGAIN), st)"
    using True assms(2) by (subst pipebuf_read_loop.simps) (simp add: Let_def)
  with True show ?thesis
    by (simp add: pipe_read_def pipebuf_read_locked_def O_NONBLOCK_def is_positive_def)
next
  case False
  moreover have "unat (0 :: size_t) + unat (count (puio st)) < 2 ^ 64" using unat_lt64 by simp
  ultimately show ?thesis using read_loop_drain [OF assms(1), of 0 0]
    by (auto simp: pipe_read_def pipebuf_read_locked_def O_NONBLOCK_def)
qed

text \<open>
  Polling agrees with reading and writing: \<^verbatim>\<open>pipebuf_poll\<close> reports nothing for POLLIN exactly when a
  non-blocking read would answer EAGAIN, and nothing for POLLOUT exactly when a non-blocking write would.
\<close>

lemma pipe_poll_agrees:
  assumes "pst_ok st" "count (puio st) \<noteq> 0"
  shows "(pipebuf_poll_locked (pbuf st) POLLIN = 0 \<longleftrightarrow>
      (\<exists>st'. pipe_read True O_NONBLOCK st = Some (Returned (Inl EAGAIN), st')))
    \<and> (pipebuf_poll_locked (pbuf st) POLLOUT = 0 \<longleftrightarrow>
      (\<exists>st'. pipe_write True O_NONBLOCK st = Some (Returned (Inl EAGAIN), st')))"
proof
  have wf: "ringbuf_wf (ring (pbuf st))" using assms(1) by (simp add: pst_ok_def)
  have "pipebuf_poll_locked (pbuf st) POLLIN = 0 \<longleftrightarrow> pcontents st = [] \<and> nwriters (pbuf st) \<noteq> 0"
    by (simp add: pipebuf_poll_locked_def POLLIN_def POLLOUT_def POLLHUP_def read_size_zero [OF wf])
  with pipe_read_nonblock [OF assms]
  show "pipebuf_poll_locked (pbuf st) POLLIN = 0 \<longleftrightarrow>
      (\<exists>st'. pipe_read True O_NONBLOCK st = Some (Returned (Inl EAGAIN), st'))"
    by auto
  have poll: "pipebuf_poll_locked (pbuf st) POLLOUT = 0 \<longleftrightarrow> room (ring (pbuf st)) = 0 \<and> nreaders (pbuf st) \<noteq> 0"
    by (simp add: pipebuf_poll_locked_def POLLIN_def POLLOUT_def POLLERR_def write_size_zero [OF wf])
  have "unat (count (puio st)) \<noteq> 0" using assms(2) by (simp add: unat_eq_0)
  then have room: "min (unat (count (puio st))) r = 0 \<longleftrightarrow> r = 0" for r
    by linarith
  have nb: "O_NONBLOCK AND O_NONBLOCK \<noteq> 0" by (simp add: O_NONBLOCK_def)
  show "pipebuf_poll_locked (pbuf st) POLLOUT = 0 \<longleftrightarrow>
      (\<exists>st'. pipe_write True O_NONBLOCK st = Some (Returned (Inl EAGAIN), st'))"
    unfolding poll using pipe_write_nonblock [OF assms(1) disjI1 [OF nb]] assms(2)
    by (auto split: if_splits simp: room)
qed

lemma pipe_poll_agrees_witness:
  "pipebuf_poll_locked (pipe_of small_ring) POLLIN = 0
   \<and> (\<exists>st'. pipe_read True O_NONBLOCK (demo_pstate (pipe_of small_ring) []) = Some (Returned (Inl EAGAIN), st'))"
proof -
  let ?st = "demo_pstate (pipe_of small_ring) []"
  have "pst_ok ?st" using small_ring_wf demo_facts(7) by (simp add: pipe_of_def)
  moreover have "count (puio ?st) \<noteq> 0" by (simp add: demo_pstate_def demo_facts)
  moreover have "pipebuf_poll_locked (pbuf ?st) POLLIN = 0"
    by (simp add: demo_pstate_def pipe_of_def pipebuf_poll_locked_def POLLIN_def POLLOUT_def
        ringbuf_read_size_def small_ring_def)
  ultimately show ?thesis
    using pipe_poll_agrees [of ?st] by (simp add: demo_pstate_def)
qed

text \<open>
  Opening and releasing: a release undoes an open with the same access mode, and a release wakes the
  other side's sleepers, and reports POLLERR or POLLHUP, exactly when its own side has gone.
\<close>

lemma pipe_open_release:
  assumes "pipe_fopen flags pb = Inr pb'"
  shows "fst (pipe_release flags pb') = pb
    \<and> (Poller_broadcast POLLERR \<in> set (snd (pipe_release flags pb')) \<longleftrightarrow> flags AND 3 \<noteq> 1 \<and> nreaders pb = 0)
    \<and> (Poller_broadcast POLLHUP \<in> set (snd (pipe_release flags pb')) \<longleftrightarrow> flags AND 3 \<noteq> 0 \<and> nwriters pb = 0)"
  using assms
  by (auto simp: pipe_fopen_def pipe_release_def drop_reader_def drop_writer_def Let_def broadcast_opt_def
      POLLERR_def POLLHUP_def split: if_splits option.splits)

lemma pipe_open_release_witness:
  "fst (pipe_release 1 ((pipe_of small_ring)\<lparr>nwriters := 2\<rparr>)) = pipe_of small_ring"
proof -
  have "pipe_fopen 1 (pipe_of small_ring) = Inr ((pipe_of small_ring)\<lparr>nwriters := 2\<rparr>)"
    by (simp add: pipe_fopen_def pipe_of_def)
  from pipe_open_release [OF this] show ?thesis by simp
qed

end
