(* ===== verification/Cmem.thy ===== *)
theory Cmem
  imports Kmem "HOL-Library.Monad_Syntax"
begin

text \<open>
  The kernel's memory routines (kern/string.c, \<^verbatim>\<open>mem*\<close>), which work a machine word at a time where they
  can. Addresses are 64-bit words and wrap; indices and sizes are natural numbers, since no index exceeds
  a size that fits in \<^verbatim>\<open>size_t\<close>. The loops are instances of three combinators, partial because nothing in
  their shape makes them end: \<open>None\<close> is a loop that runs forever, and the lemmas show that none does.
\<close>

section \<open>Words in memory\<close>

text \<open>The accesses \<^verbatim>\<open>*(size_t*)p\<close>, little endian.\<close>

fun le_word :: "u8 list \<Rightarrow> u64" where
  "le_word [] = 0"
| "le_word (b # bs) = ucast b OR push_bit 8 (le_word bs)"

definition word_bytes :: "u64 \<Rightarrow> u8 list" where
  "word_bytes v = map (\<lambda>i. ucast (drop_bit (8 * i) v)) [0..<8]"

definition load64 :: "mem \<Rightarrow> uintptr_t \<Rightarrow> u64" where
  "load64 m a = le_word (mem_load m a 8)"

definition store64 :: "mem \<Rightarrow> uintptr_t \<Rightarrow> u64 \<Rightarrow> mem" where
  "store64 m a v = mem_store m a (word_bytes v)"

definition fillsize :: "u8 \<Rightarrow> u64" where
  "fillsize v = ucast v * 0x0101010101010101"

definition haszero :: "u64 \<Rightarrow> bool" where
  "haszero x \<longleftrightarrow> (x - fillsize 1) AND NOT x AND fillsize 0x80 \<noteq> 0"

section \<open>Loops\<close>

text \<open>
  The three loop shapes of the file. \<open>scan_head\<close> is \<^verbatim>\<open>while (((size_t)s + i) % sizeof(size_t)) ...\<close>, one
  byte a round, with a test \<open>pre\<close> before the alignment test where the source has one; \<open>scan_words\<close>
  advances a word at a time until its step declines; \<open>scan_tail\<close> goes byte by byte until it returns.
  The bodies get the index and the state and answer \<open>Inl\<close> to return.
\<close>

partial_function (option) scan_head ::
  "(nat \<Rightarrow> 's \<Rightarrow> 'r option) \<Rightarrow> (nat \<Rightarrow> 's \<Rightarrow> 'r + 's) \<Rightarrow> uintptr_t \<Rightarrow> nat \<Rightarrow> 's \<Rightarrow> ('r + nat \<times> 's) option" where
  "scan_head pre body s i st =
     (case pre i st of
        Some r \<Rightarrow> Some (Inl r)
      | None \<Rightarrow>
          if (s + of_nat i) mod 8 = 0 then Some (Inr (i, st))
          else (case body i st of
                  Inl r \<Rightarrow> Some (Inl r)
                | Inr st' \<Rightarrow> scan_head pre body s (i + 1) st'))"

partial_function (option) scan_words ::
  "(nat \<Rightarrow> 's \<Rightarrow> 's option) \<Rightarrow> nat \<Rightarrow> 's \<Rightarrow> (nat \<times> 's) option" where
  "scan_words step i st =
     (case step i st of None \<Rightarrow> Some (i, st) | Some st' \<Rightarrow> scan_words step (i + 8) st')"

partial_function (option) scan_tail :: "(nat \<Rightarrow> 's \<Rightarrow> 'r + 's) \<Rightarrow> nat \<Rightarrow> 's \<Rightarrow> 'r option" where
  "scan_tail body i st =
     (case body i st of Inl r \<Rightarrow> Some r | Inr st' \<Rightarrow> scan_tail body (i + 1) st')"

text \<open>Head, words and tail in sequence.\<close>

definition scan3 ::
  "(nat \<Rightarrow> 's \<Rightarrow> 'r option) \<Rightarrow> (nat \<Rightarrow> 's \<Rightarrow> 'r + 's) \<Rightarrow> (nat \<Rightarrow> 's \<Rightarrow> 's option) \<Rightarrow> (nat \<Rightarrow> 's \<Rightarrow> 'r + 's) \<Rightarrow>
    uintptr_t \<Rightarrow> 's \<Rightarrow> 'r option" where
  "scan3 pre head words tail s st =
     do { r \<leftarrow> scan_head pre head s 0 st;
          case r of
            Inl x \<Rightarrow> Some x
          | Inr (i, st1) \<Rightarrow> do { (j, st2) \<leftarrow> scan_words words i st1; scan_tail tail j st2 } }"

definition never :: "nat \<Rightarrow> 's \<Rightarrow> 'r option" where
  "never i st = None"

section \<open>Memory routines\<close>

text \<open>
  The word loops \<^verbatim>\<open>do ... while (i < end)\<close> run for \<^verbatim>\<open>n >= sizeof(size_t)\<close> only, where \<^verbatim>\<open>i < end\<close> holds
  at the start too, so the test may come first.
\<close>

definition word_end :: "nat \<Rightarrow> nat" where
  "word_end n = n - n mod 8"

definition memset :: "mem \<Rightarrow> uintptr_t \<Rightarrow> u32 \<Rightarrow> nat \<Rightarrow> mem option" where
  "memset m d c n =
     do { (i, m) \<leftarrow> (if n \<ge> 8
            then scan_words (\<lambda>i m. if i < word_end n then Some (store64 m (d + of_nat i) (fillsize (ucast c))) else None) 0 m
            else Some (0, m));
          scan_tail (\<lambda>i m. if i < n then Inr (m(d + of_nat i := ucast c)) else Inl m) i m }"

definition memcpy :: "mem \<Rightarrow> uintptr_t \<Rightarrow> uintptr_t \<Rightarrow> nat \<Rightarrow> mem option" where
  "memcpy m d s n =
     do { (i, m) \<leftarrow> (if n \<ge> 8
            then scan_words (\<lambda>i m. if i < word_end n
                   then Some (store64 m (d + of_nat i) (load64 m (s + of_nat i))) else None) 0 m
            else Some (0, m));
          scan_tail (\<lambda>i m. if i < n then Inr (m(d + of_nat i := m (s + of_nat i))) else Inl m) i m }"

text \<open>\<^verbatim>\<open>memccpy\<close> compares a byte with the \<^verbatim>\<open>int\<close> it was given, unconverted.\<close>

definition memccpy ::
  "mem \<Rightarrow> uintptr_t \<Rightarrow> uintptr_t \<Rightarrow> u32 \<Rightarrow> nat \<Rightarrow> (uintptr_t option \<times> mem) option" where
  "memccpy m d s c n =
     do { (i, m) \<leftarrow> (if n \<ge> 8
            then scan_words (\<lambda>i m. if i < word_end n
                   then let v = load64 m (s + of_nat i)
                        in if haszero (v XOR fillsize (ucast c)) then None
                           else Some (store64 m (d + of_nat i) v)
                   else None) 0 m
            else Some (0, m));
          scan_tail (\<lambda>i m. if i < n
             then if ucast (m (s + of_nat i)) = c
                  then Inl (Some (d + of_nat i + 1), m(d + of_nat i := ucast c))
                  else Inr (m(d + of_nat i := m (s + of_nat i)))
             else Inl (None, m)) i m }"

fun memmove_words :: "mem \<Rightarrow> uintptr_t \<Rightarrow> uintptr_t \<Rightarrow> nat \<Rightarrow> mem \<times> nat" where
  "memmove_words m d s n =
     (if n \<ge> 8
      then memmove_words (store64 m (d + of_nat (n - 8)) (load64 m (s + of_nat (n - 8)))) d s (n - 8)
      else (m, n))"

fun memmove_bytes :: "mem \<Rightarrow> uintptr_t \<Rightarrow> uintptr_t \<Rightarrow> nat \<Rightarrow> mem" where
  "memmove_bytes m d s 0 = m"
| "memmove_bytes m d s (Suc n) = memmove_bytes (m(d + of_nat n := m (s + of_nat n))) d s n"

definition memmove :: "mem \<Rightarrow> uintptr_t \<Rightarrow> uintptr_t \<Rightarrow> nat \<Rightarrow> mem option" where
  "memmove m d s n =
     (if n = 0 then Some m
      else if d = s then Some m
      else if d < s then memcpy m d s n
      else let (m, n) = (if d - s \<ge> 8 then memmove_words m d s n else (m, n))
           in Some (memmove_bytes m d s n))"

definition memchr :: "mem \<Rightarrow> uintptr_t \<Rightarrow> u32 \<Rightarrow> nat \<Rightarrow> uintptr_t option option" where
  "memchr m s c n =
     do { (i, _) \<leftarrow> (if n \<ge> 8
            then scan_words (\<lambda>i _. if i < word_end n
                   then if haszero (load64 m (s + of_nat i) XOR fillsize (ucast c)) then None else Some ()
                   else None) 0 ()
            else Some (0, ()));
          scan_tail (\<lambda>i _. if i < n
             then if m (s + of_nat i) = ucast c then Inl (Some (s + of_nat i)) else Inr ()
             else Inl None) i () }"

fun memrchr_words :: "mem \<Rightarrow> uintptr_t \<Rightarrow> u64 \<Rightarrow> nat \<Rightarrow> nat" where
  "memrchr_words m s cz n =
     (if n \<ge> 8
      then if haszero (load64 m (s + of_nat (n - 8)) XOR cz) then n else memrchr_words m s cz (n - 8)
      else n)"

fun memrchr_bytes :: "mem \<Rightarrow> uintptr_t \<Rightarrow> u8 \<Rightarrow> nat \<Rightarrow> uintptr_t option" where
  "memrchr_bytes m s c 0 = None"
| "memrchr_bytes m s c (Suc n) =
     (if m (s + of_nat n) = c then Some (s + of_nat n) else memrchr_bytes m s c n)"

declare memmove_words.simps [simp del] memrchr_words.simps [simp del]

definition memrchr :: "mem \<Rightarrow> uintptr_t \<Rightarrow> u32 \<Rightarrow> nat \<Rightarrow> uintptr_t option" where
  "memrchr m s c n =
     (let n = (if n \<ge> 8 then memrchr_words m s (fillsize (ucast c)) n else n)
      in memrchr_bytes m s (ucast c) n)"

text \<open>\<^verbatim>\<open>memcmp\<close> returns the difference as a \<^verbatim>\<open>uint8_t\<close>.\<close>

definition memcmp :: "mem \<Rightarrow> uintptr_t \<Rightarrow> uintptr_t \<Rightarrow> nat \<Rightarrow> int option" where
  "memcmp m s1 s2 n =
     do { (i, _) \<leftarrow> (if n \<ge> 8
            then scan_words (\<lambda>i _. if i < word_end n
                   then if load64 m (s1 + of_nat i) \<noteq> load64 m (s2 + of_nat i) then None else Some ()
                   else None) 0 ()
            else Some (0, ()));
          scan_tail (\<lambda>i _. if i < n
             then let d = m (s1 + of_nat i) - m (s2 + of_nat i)
                  in if d \<noteq> 0 then Inl (uint d) else Inr ()
             else Inl 0) i () }"

definition memmem ::
  "mem \<Rightarrow> uintptr_t \<Rightarrow> nat \<Rightarrow> uintptr_t \<Rightarrow> nat \<Rightarrow> uintptr_t option option" where
  "memmem m haystack haystacklen needle needlelen =
     (if needlelen > haystacklen then Some None
      else do { r \<leftarrow> scan_tail (\<lambda>i _. if i \<le> haystacklen - needlelen
                  then (case memcmp m (haystack + of_nat i) needle needlelen of
                          None \<Rightarrow> Inl None
                        | Some x \<Rightarrow> if x = 0 then Inl (Some (Some (haystack + of_nat i))) else Inr ())
                  else Inl (Some None)) 0 ();
                r })"

section \<open>Words and their bytes\<close>

lemma bit_le_word:
  "bit (le_word bs) n \<longleftrightarrow> n < 64 \<and> n div 8 < length bs \<and> bit (bs ! (n div 8)) (n mod 8)"
proof (induction bs arbitrary: n)
  case Nil
  then show ?case by simp
next
  case (Cons b bs)
  show ?case
  proof (cases "n < 8")
    case True
    then show ?thesis by (simp add: bit_simps)
  next
    case False
    then obtain k where n: "n = k + 8" by (metis le_add_diff_inverse2 not_less)
    have "\<not> bit b n" using False bit_imp_le_length [of b n] by auto
    moreover have "n div 8 = Suc (k div 8)" "n mod 8 = k mod 8" by (simp_all add: n)
    ultimately show ?thesis using Cons.IH [of k] n by (auto simp: bit_simps)
  qed
qed

lemma length_word_bytes [simp]: "length (word_bytes v) = 8"
  by (simp add: word_bytes_def)

lemma nth_word_bytes: "i < 8 \<Longrightarrow> word_bytes v ! i = ucast (drop_bit (8 * i) v)"
  by (simp add: word_bytes_def)

lemma bit_word_bytes: "i < 8 \<Longrightarrow> bit (word_bytes v ! i) k \<longleftrightarrow> k < 8 \<and> bit v (8 * i + k)"
  by (auto simp: nth_word_bytes bit_simps)

lemma word_bytes_le_word:
  assumes "length bs = 8"
  shows "word_bytes (le_word bs) = bs"
proof (rule nth_equalityI)
  fix i assume "i < length (word_bytes (le_word bs))"
  then have i: "i < 8" by simp
  show "word_bytes (le_word bs) ! i = bs ! i"
  proof (rule bit_word_eqI)
    fix k assume "k < LENGTH(8)"
    then have k: "k < 8" by simp
    then have "(8 * i + k) div 8 = i" "(8 * i + k) mod 8 = k" "8 * i + k < 64" using i by auto
    with i k assms show "bit (word_bytes (le_word bs) ! i) k = bit (bs ! i) k"
      by (simp add: bit_word_bytes bit_le_word)
  qed
qed (simp add: assms)

lemma le_word_word_bytes: "le_word (word_bytes v) = v"
proof (rule bit_word_eqI)
  fix n assume "n < LENGTH(64)"
  then have n: "n < 64" by simp
  then have "n div 8 < 8" "n mod 8 < 8" by auto
  with n show "bit (le_word (word_bytes v)) n = bit v n"
    by (simp add: bit_le_word bit_word_bytes)
qed

lemma word_bytes_load64 [simp]: "word_bytes (load64 m a) = mem_load m a 8"
  by (simp add: load64_def word_bytes_le_word)

lemma store64_load64: "store64 m d (load64 m' s) = mem_store m d (mem_load m' s 8)"
  by (simp add: store64_def)

section \<open>Zero bytes of a word\<close>

text \<open>The value of the \<open>j\<close> low bytes all 1.\<close>

fun ones :: "nat \<Rightarrow> int" where
  "ones 0 = 0"
| "ones (Suc j) = ones j + 256 ^ j"

definition byte_at :: "u64 \<Rightarrow> nat \<Rightarrow> int" where
  "byte_at x j = uint x div 256 ^ j mod 256"

lemma ones_8: "uint (fillsize 1) = ones 8"
proof -
  have "ones 8 = 0x0101010101010101" by code_simp
  then show ?thesis by (simp add: fillsize_def)
qed

lemma ones_split: "j \<le> k \<Longrightarrow> ones k = ones j + 256 ^ j * ones (k - j)"
proof (induction k)
  case (Suc k)
  show ?case
  proof (cases "j = Suc k")
    case False
    then have "j \<le> k" using Suc.prems by simp
    with Suc.IH show ?thesis by (simp add: Suc_diff_le algebra_simps flip: power_add)
  qed simp
qed simp

lemma ones_mod: "0 < j \<Longrightarrow> ones j mod 256 = 1"
  using ones_split [of 1 j] by simp

lemma low_bytes_bound:
  assumes "\<forall>i < j. byte_at x i \<noteq> 0"
  shows "ones j \<le> uint x mod 256 ^ j"
  using assms
proof (induction j)
  case (Suc j)
  have "uint x mod 256 ^ Suc j = uint x mod 256 ^ j + 256 ^ j * byte_at x j"
    unfolding byte_at_def using zmod_zmult2_eq [of 256 "uint x" "256 ^ j"] by (simp add: mult.commute)
  moreover have "1 \<le> byte_at x j"
    using Suc.prems pos_mod_sign [of 256 "uint x div 256 ^ j"] by (force simp: byte_at_def)
  then have "256 ^ j * 1 \<le> 256 ^ j * byte_at x j" by (intro mult_left_mono) simp_all
  moreover have "ones j \<le> uint x mod 256 ^ j" using Suc by simp
  ultimately show ?case unfolding ones.simps by linarith
qed simp

lemma bit_byte:
  fixes z :: int
  shows "bit z (8 * j + 7) \<longleftrightarrow> bit (z div 256 ^ j mod 256) 7"
proof -
  have "z div 256 ^ j mod 256 = take_bit 8 (drop_bit (8 * j) z)"
    by (simp add: take_bit_eq_mod drop_bit_eq_div power_mult)
  then show ?thesis by (simp add: bit_simps)
qed

lemma bit_7_byte:
  fixes b :: int
  assumes "0 \<le> b" "b < 256"
  shows "bit b 7 \<longleftrightarrow> 128 \<le> b"
proof -
  have "bit b 7 \<longleftrightarrow> odd (b div 128)" by (simp add: bit_iff_odd)
  moreover have "b div 128 = (if 128 \<le> b then 1 else 0)" using assms by auto
  ultimately show ?thesis by simp
qed

lemma byte_at_bounds: "0 \<le> byte_at x j" "byte_at x j < 256"
  by (simp_all add: byte_at_def)

text \<open>Below the first zero byte nothing is borrowed.\<close>

lemma minus_ones_bit:
  assumes "j < 8" "\<forall>i < j. byte_at x i \<noteq> 0"
  shows "bit (x - fillsize 1) (8 * j + 7) \<longleftrightarrow> bit ((byte_at x j - 1) mod 256) 7"
proof -
  let ?X = "uint x" and ?p = "256 ^ j :: int"
  let ?L = "?X mod ?p" and ?H = "?X div ?p"
  have low: "ones j \<le> ?L" using assms(2) by (rule low_bytes_bound)
  have ones0: "0 \<le> ones j" by (induction j) simp_all
  have "?X - ones 8 = (?L - ones j) + ?p * (?H - ones (8 - j))"
    using ones_split [of j 8] assms(1) by (simp add: algebra_simps)
  then have "(?X - ones 8) div ?p = ((?L - ones j) + ?p * (?H - ones (8 - j))) div ?p" by simp
  also have "\<dots> = (?H - ones (8 - j)) + (?L - ones j) div ?p" by (subst div_mult_self2) simp_all
  also have "(?L - ones j) div ?p = 0"
  proof (rule div_pos_pos_trivial)
    show "0 \<le> ?L - ones j" using low by simp
    have "?L < ?p" by simp
    then show "?L - ones j < ?p" using ones0 by linarith
  qed
  finally have "(?X - ones 8) div ?p mod 256 = (?H - ones (8 - j)) mod 256" by simp
  also have "\<dots> = (?H mod 256 - ones (8 - j) mod 256) mod 256" by (simp add: mod_diff_eq)
  also have "\<dots> = (byte_at x j - 1) mod 256" using ones_mod [of "8 - j"] assms(1) by (simp add: byte_at_def)
  finally have div: "(?X - ones 8) div ?p mod 256 = (byte_at x j - 1) mod 256" .
  have eq: "x - fillsize 1 = word_of_int (?X - ones 8)" by (simp flip: ones_8)
  have "bit (x - fillsize 1) (8 * j + 7) \<longleftrightarrow> bit (?X - ones 8) (8 * j + 7)"
    unfolding eq bit_word_of_int_iff using assms(1) by simp
  also have "\<dots> \<longleftrightarrow> bit ((byte_at x j - 1) mod 256) 7" unfolding bit_byte div ..
  finally show ?thesis .
qed

lemma bit_x_byte: "j < 8 \<Longrightarrow> bit x (8 * j + 7) \<longleftrightarrow> 128 \<le> byte_at x j"
proof -
  assume "j < 8"
  then have "bit x (8 * j + 7) \<longleftrightarrow> bit (uint x) (8 * j + 7)" by (simp add: bit_simps)
  also have "\<dots> \<longleftrightarrow> bit (byte_at x j) 7" unfolding bit_byte byte_at_def ..
  finally show ?thesis using bit_7_byte [OF byte_at_bounds] by simp
qed

lemma bit_0x80: "bit (0x80 :: u8) k \<longleftrightarrow> k = 7"
  using bit_exp_iff [of 7 k, where 'a = u8] by auto

lemma nth_all: "i < length xs \<Longrightarrow> list_all (\<lambda>x. x = c) xs \<Longrightarrow> xs ! i = c"
  by (simp add: list_all_length)

lemma bit_highs: "bit (fillsize 0x80) n \<longleftrightarrow> (\<exists>j < 8. n = 8 * j + 7)"
proof -
  let ?h = "0x80 :: u8"
  define hs where "hs = [?h, ?h, ?h, ?h, ?h, ?h, ?h, ?h]"
  have hs: "fillsize ?h = le_word hs" "length hs = 8" "list_all (\<lambda>b. b = ?h) hs"
    by (simp_all add: fillsize_def hs_def)
  have "bit (fillsize ?h) n \<longleftrightarrow> n < 64 \<and> n mod 8 = 7"
  proof (cases "n < 64")
    case True
    then have "n div 8 < length hs" using hs(2) by simp
    from nth_all [OF this hs(3)] show ?thesis
      using True \<open>n div 8 < length hs\<close> by (simp only: hs(1) bit_le_word bit_0x80 simp_thms)
  qed (simp add: hs(1) bit_le_word)
  also have "\<dots> \<longleftrightarrow> (\<exists>j < 8. n = 8 * j + 7)"
  proof
    assume n: "n < 64 \<and> n mod 8 = 7"
    then have "n = 8 * (n div 8) + 7" by (metis mult_div_mod_eq)
    moreover have "n div 8 < 8" using n less_mult_imp_div_less [of n 8 8] by simp
    ultimately show "\<exists>j < 8. n = 8 * j + 7" by blast
  qed auto
  finally show ?thesis .
qed

lemma nonzero_bit: "w \<noteq> 0 \<longleftrightarrow> (\<exists>n. bit w n)" for w :: u64
proof
  assume "w \<noteq> 0"
  show "\<exists>n. bit w n"
  proof (rule ccontr)
    assume "\<nexists>n. bit w n"
    then have "w = 0" by (intro bit_word_eqI) simp
    with \<open>w \<noteq> 0\<close> show False by simp
  qed
qed auto

lemma bit_masked: "bit (y AND NOT x AND h) n \<longleftrightarrow> bit h n \<and> bit y n \<and> \<not> bit x n" for x y h :: u64
  using bit_imp_le_length [of y n] by (auto simp: bit_simps)

lemma haszero_bit:
  "haszero x \<longleftrightarrow> (\<exists>j < 8. bit (x - fillsize 1) (8 * j + 7) \<and> \<not> bit x (8 * j + 7))"
  unfolding haszero_def nonzero_bit bit_masked bit_highs by blast

lemma haszero_byte_at: "haszero x \<longleftrightarrow> (\<exists>j < 8. byte_at x j = 0)"
proof
  assume "haszero x"
  then obtain j where j: "j < 8" "bit (x - fillsize 1) (8 * j + 7)" "\<not> bit x (8 * j + 7)"
    by (auto simp: haszero_bit)
  show "\<exists>j < 8. byte_at x j = 0"
  proof (rule ccontr)
    assume none: "\<not> (\<exists>j < 8. byte_at x j = 0)"
    with j(1) have "\<forall>i < j. byte_at x i \<noteq> 0" by simp
    from minus_ones_bit [OF j(1) this] j(2) have "bit ((byte_at x j - 1) mod 256) 7" by simp
    moreover have "byte_at x j \<noteq> 0" using none j(1) by blast
    then have pos: "0 < byte_at x j" "byte_at x j < 256"
      using byte_at_bounds [of x j] by linarith+
    then have "(byte_at x j - 1) mod 256 = byte_at x j - 1" by simp
    ultimately have "128 \<le> byte_at x j - 1" using pos bit_7_byte [of "byte_at x j - 1"] by simp
    then show False using j(1,3) bit_x_byte [of j x] by simp
  qed
next
  assume "\<exists>j < 8. byte_at x j = 0"
  then obtain j where j: "j < 8" "byte_at x j = 0" "\<forall>i < j. \<not> (i < 8 \<and> byte_at x i = 0)"
    using exists_least_iff [of "\<lambda>j. j < 8 \<and> byte_at x j = 0"] by auto
  then have "\<forall>i < j. byte_at x i \<noteq> 0" by simp
  from minus_ones_bit [OF j(1) this] have "bit (x - fillsize 1) (8 * j + 7)"
    using j(2) bit_7_byte [of 255] by simp
  moreover have "\<not> bit x (8 * j + 7)" using bit_x_byte [OF j(1)] j(2) by simp
  ultimately show "haszero x" using j(1) haszero_bit by blast
qed

text \<open>Zero bytes of a word read from memory, and bytes equal to a given one.\<close>

lemma byte_at_word_bytes:
  assumes "j < 8"
  shows "byte_at x j = uint (word_bytes x ! j)"
proof -
  have "uint (word_bytes x ! j) = take_bit 8 (drop_bit (8 * j) (uint x))"
    using assms by (intro bit_eqI) (auto simp: nth_word_bytes bit_simps dest: bit_imp_le_length)
  then show ?thesis by (simp add: byte_at_def take_bit_eq_mod drop_bit_eq_div power_mult)
qed

lemma haszero_bytes: "haszero x \<longleftrightarrow> (\<exists>j < 8. word_bytes x ! j = 0)"
proof -
  have "byte_at x j = 0 \<longleftrightarrow> word_bytes x ! j = 0" if "j < 8" for j
    using byte_at_word_bytes [OF that, of x] by (simp add: uint_0_iff)
  then show ?thesis unfolding haszero_byte_at by auto
qed

lemma haszero_load64: "haszero (load64 m a) \<longleftrightarrow> (\<exists>j < 8. m (a + of_nat j) = 0)"
  by (auto simp: haszero_bytes)

lemma le_word_add: "length bs \<le> 7 \<Longrightarrow> le_word (b # bs) = ucast b + 256 * le_word bs"
proof -
  have "ucast b OR push_bit 8 (le_word bs) = ucast b + push_bit 8 (le_word bs)"
    by (rule disjunctive_add_eq_or [symmetric])
      (auto simp: bit_eq_iff bit_simps dest: bit_imp_le_length)
  then show ?thesis by (simp add: push_bit_eq_mult)
qed

lemma fillsize_le_word: "fillsize c = le_word [c, c, c, c, c, c, c, c]"
proof -
  have "le_word [c, c, c, c, c, c, c, c] =
      ucast c * (1 + 256 * (1 + 256 * (1 + 256 * (1 + 256 * (1 + 256 * (1 + 256 * (1 + 256)))))))"
    by (simp only: le_word_add list.size le_word.simps(1)) (simp add: algebra_simps)
  then show ?thesis by (simp add: fillsize_def)
qed

lemma nth_fillsize: "j < 8 \<Longrightarrow> word_bytes (fillsize c) ! j = c"
  using word_bytes_le_word [of "[c, c, c, c, c, c, c, c]"] nth_all [of j "[c, c, c, c, c, c, c, c]" c]
  unfolding fillsize_le_word by (simp del: le_word.simps)

lemma word_bytes_fillsize: "word_bytes (fillsize c) = replicate 8 c"
  by (rule nth_equalityI) (simp_all add: nth_fillsize)

lemma nth_word_bytes_xor: "j < 8 \<Longrightarrow> word_bytes (v XOR w) ! j = word_bytes v ! j XOR word_bytes w ! j"
  by (rule bit_word_eqI) (simp add: bit_xor_iff bit_word_bytes)

lemma xor_eq_0: "(a XOR b = 0) = (a = b)" for a b :: u8
proof
  assume "a XOR b = 0"
  then have "(a XOR b) XOR b = 0 XOR b" by simp
  then show "a = b" by (simp add: xor.assoc)
qed simp

lemma haszero_xor:
  "haszero (load64 m a XOR fillsize c) \<longleftrightarrow> (\<exists>j < 8. m (a + of_nat j) = c)"
  unfolding haszero_bytes by (auto simp: nth_word_bytes_xor nth_fillsize xor_eq_0)

lemma load64_eq: "load64 m a = load64 m b \<longleftrightarrow> (\<forall>j < 8. m (a + of_nat j) = m (b + of_nat j))"
proof
  assume "load64 m a = load64 m b"
  then have "mem_load m a 8 = mem_load m b 8" by (metis word_bytes_load64)
  then show "\<forall>j < 8. m (a + of_nat j) = m (b + of_nat j)" by (metis nth_mem_load)
next
  assume "\<forall>j < 8. m (a + of_nat j) = m (b + of_nat j)"
  then have "mem_load m a 8 = mem_load m b 8" by (simp add: mem_load_def)
  then show "load64 m a = load64 m b" by (simp add: load64_def)
qed

section \<open>Rules for the loops\<close>

text \<open>
  A scan whose state after \<open>i\<close> bytes is \<open>S i\<close> and which returns at byte \<open>L\<close>: one rule per loop shape,
  and one for the three in sequence, whatever the alignment.
\<close>

lemma scan_tail_rule:
  assumes "\<And>i. i < L \<Longrightarrow> body i (S i) = Inr (S (Suc i))" "body L (S L) = Inl r" "i \<le> L"
  shows "scan_tail body i (S i) = Some r"
  using assms(3)
proof (induction "L - i" arbitrary: i)
  case 0
  then show ?case using assms(2) by (subst scan_tail.simps) simp
next
  case (Suc k)
  then have "i < L" "k = L - Suc i" by simp_all
  then show ?case using Suc.hyps(1) [of "Suc i"] assms(1) [of i] by (subst scan_tail.simps) simp
qed

lemma scan_words_rule:
  assumes "\<And>i. i \<le> L \<Longrightarrow> i mod 8 = r \<Longrightarrow>
      step i (S i) = None \<or> (i + 8 \<le> L \<and> step i (S i) = Some (S (i + 8)))"
    and "i \<le> L" "i mod 8 = r"
  shows "\<exists>j. i \<le> j \<and> j \<le> L \<and> scan_words step i (S i) = Some (j, S j)"
  using assms(2,3)
proof (induction "L - i" arbitrary: i rule: less_induct)
  case less
  show ?case
  proof (cases "step i (S i)")
    case None
    then show ?thesis using less.prems by (subst scan_words.simps) auto
  next
    case (Some st)
    then have st: "i + 8 \<le> L" "step i (S i) = Some (S (i + 8))" using assms(1) [OF less.prems] by auto
    have "(i + 8) mod 8 = r" using less.prems(2) by simp
    moreover have "L - (i + 8) < L - i" using st(1) by linarith
    ultimately obtain j where "i + 8 \<le> j" "j \<le> L" "scan_words step (i + 8) (S (i + 8)) = Some (j, S j)"
      using less.hyps [of "i + 8"] st(1) by auto
    then show ?thesis using st(2) by (subst scan_words.simps) (auto intro!: exI [of _ j])
  qed
qed

lemma scan_head_rule:
  assumes "\<And>i. i \<le> L \<Longrightarrow> pre i (S i) = None \<or> (i = L \<and> pre i (S i) = Some r)"
    and "\<And>i. i < L \<Longrightarrow> body i (S i) = Inr (S (Suc i))"
    and "pre L (S L) = None \<Longrightarrow> body L (S L) = Inl r" "i \<le> L"
  shows "scan_head pre body s i (S i) = Some (Inl r) \<or>
    (\<exists>j. i \<le> j \<and> j \<le> L \<and> scan_head pre body s i (S i) = Some (Inr (j, S j)))"
  using assms(4)
proof (induction "L - i" arbitrary: i)
  case 0
  then have "i = L" by simp
  then show ?case using assms(1) [of i] assms(3) by (subst scan_head.simps) (auto simp: scan_head.simps)
next
  case (Suc k)
  then have i: "i < L" "k = L - Suc i" "pre i (S i) = None" using assms(1) [of i] by auto
  show ?case
  proof (cases "(s + of_nat i) mod 8 = 0")
    case True
    then show ?thesis using i by (subst (2) scan_head.simps) auto
  next
    case False
    then have "scan_head pre body s i (S i) = scan_head pre body s (Suc i) (S (Suc i))"
      using i assms(2) [of i] by (subst scan_head.simps) simp
    then show ?thesis using Suc.hyps(1) [OF i(2)] i(1) by (auto intro: Suc_leD)
  qed
qed

lemma scan3_rule:
  assumes "\<And>i. i \<le> L \<Longrightarrow> pre i (S i) = None \<or> (i = L \<and> pre i (S i) = Some r)"
    and "\<And>i. i < L \<Longrightarrow> head i (S i) = Inr (S (Suc i))" "pre L (S L) = None \<Longrightarrow> head L (S L) = Inl r"
    and "\<And>i. i \<le> L \<Longrightarrow> words i (S i) = None \<or> (i + 8 \<le> L \<and> words i (S i) = Some (S (i + 8)))"
    and "\<And>i. i < L \<Longrightarrow> tail i (S i) = Inr (S (Suc i))" "tail L (S L) = Inl r"
  shows "scan3 pre head words tail s (S 0) = Some r"
proof -
  from scan_head_rule [of L pre S r head 0 s, OF assms(1-3)]
  consider "scan_head pre head s 0 (S 0) = Some (Inl r)"
    | j where "j \<le> L" "scan_head pre head s 0 (S 0) = Some (Inr (j, S j))" by auto
  then show ?thesis
  proof cases
    case 1
    then show ?thesis by (simp add: scan3_def)
  next
    case 2
    then obtain k where "k \<le> L" "scan_words words j (S j) = Some (k, S k)"
      using scan_words_rule [of L "j mod 8" words S j] assms(4) by blast
    with 2 scan_tail_rule [of L tail S r k, OF assms(5,6)] show ?thesis by (simp add: scan3_def)
  qed
qed

section \<open>Copies\<close>

text \<open>No byte is overwritten before it is read, going up, going down.\<close>

definition fwd_safe :: "uintptr_t \<Rightarrow> uintptr_t \<Rightarrow> nat \<Rightarrow> bool" where
  "fwd_safe d s n \<longleftrightarrow> (\<forall>l j. l < j \<longrightarrow> j < n \<longrightarrow> d + of_nat l \<noteq> s + of_nat j)"

definition bwd_safe :: "uintptr_t \<Rightarrow> uintptr_t \<Rightarrow> nat \<Rightarrow> bool" where
  "bwd_safe d s n \<longleftrightarrow> (\<forall>l j. j < l \<longrightarrow> l < n \<longrightarrow> d + of_nat l \<noteq> s + of_nat j)"

text \<open>The memory when the first \<open>i\<close> bytes, or all but the first \<open>i\<close> bytes, have been copied.\<close>

abbreviation copied :: "mem \<Rightarrow> uintptr_t \<Rightarrow> uintptr_t \<Rightarrow> nat \<Rightarrow> mem" where
  "copied m d s i \<equiv> mem_store m d (mem_load m s i)"

abbreviation copied_from :: "mem \<Rightarrow> uintptr_t \<Rightarrow> uintptr_t \<Rightarrow> nat \<Rightarrow> nat \<Rightarrow> mem" where
  "copied_from m d s n i \<equiv> mem_store m (d + of_nat i) (mem_load m (s + of_nat i) (n - i))"

lemma copied_read:
  assumes "fwd_safe d s n" "i \<le> j" "j < n"
  shows "copied m d s i (s + of_nat j) = m (s + of_nat j)"
proof -
  have "\<not> unat (s + of_nat j - d) < i"
  proof
    assume "unat (s + of_nat j - d) < i"
    moreover have "d + of_nat (unat (s + of_nat j - d)) = s + of_nat j" by simp
    ultimately show False using assms unfolding fwd_safe_def by (meson less_le_trans)
  qed
  then show ?thesis by (simp add: mem_store_def)
qed

lemma copied_step:
  assumes "fwd_safe d s n" "i + k \<le> n" "n \<le> 2 ^ 64"
  shows "mem_store (copied m d s i) (d + of_nat i) (mem_load (copied m d s i) (s + of_nat i) k)
    = copied m d s (i + k)"
proof -
  have "mem_load (copied m d s i) (s + of_nat i) k = mem_load m (s + of_nat i) k"
    using copied_read [OF assms(1), of i] assms(2)
    by (intro mem_load_cong) (simp add: add.assoc flip: of_nat_add)
  moreover have "copied m d s (i + k) =
      mem_store (copied m d s i) (d + of_nat i) (mem_load m (s + of_nat i) k)"
    using mem_store_append [of "mem_load m s i" "mem_load m (s + of_nat i) k" m d] assms(2,3)
    by (simp add: mem_load_add)
  ultimately show ?thesis by simp
qed

lemma mem_store_prepend:
  assumes "length bs + length as \<le> 2 ^ 64"
  shows "mem_store (mem_store m (a + of_nat (length bs)) as) a bs = mem_store m a (bs @ as)"
proof
  fix x
  show "mem_store (mem_store m (a + of_nat (length bs)) as) a bs x = mem_store m a (bs @ as) x"
  proof (cases "unat (x - a) < length bs")
    case True
    then show ?thesis by (simp add: mem_store_def nth_append)
  next
    case False
    have "length bs < 2 ^ 64" using False unat_lt64 [of "x - a"] by linarith
    then have "unat (x - (a + of_nat (length bs))) = unat (x - a) - length bs"
      using False unat_offset_shift [of "length bs" x a] by simp
    with False show ?thesis by (auto simp: mem_store_def nth_append)
  qed
qed

lemma copied_from_step:
  assumes "bwd_safe d s n" "k \<le> i" "i \<le> n" "n \<le> 2 ^ 64"
  shows "mem_store (copied_from m d s n i) (d + of_nat (i - k))
      (mem_load (copied_from m d s n i) (s + of_nat (i - k)) k) = copied_from m d s n (i - k)"
proof -
  have read: "copied_from m d s n i (s + of_nat j) = m (s + of_nat j)" if "j < i" for j
  proof -
    let ?o = "unat (s + of_nat j - (d + of_nat i))"
    have "\<not> ?o < n - i"
    proof
      assume "?o < n - i"
      then have "i + ?o < n" by simp
      moreover have "d + of_nat (i + ?o) = s + of_nat j" by (simp add: add.assoc [symmetric])
      ultimately show False using assms(1) that unfolding bwd_safe_def by (metis trans_less_add1)
    qed
    then show ?thesis by (simp add: mem_store_def)
  qed
  have load: "mem_load (copied_from m d s n i) (s + of_nat (i - k)) k = mem_load m (s + of_nat (i - k)) k"
  proof (rule mem_load_cong)
    fix x assume "x < k"
    then have "i - k + x < i" using assms(2) by simp
    from read [OF this]
    show "copied_from m d s n i (s + of_nat (i - k) + of_nat x) = m (s + of_nat (i - k) + of_nat x)"
      unfolding of_nat_add add.assoc .
  qed
  have addr: "a + of_nat (i - k) + of_nat k = a + of_nat i" for a :: uintptr_t
    using assms(2) by (simp add: add.assoc flip: of_nat_add)
  have "n - (i - k) = k + (n - i)" using assms(2,3) by simp
  then have "mem_load m (s + of_nat (i - k)) (n - (i - k)) =
      mem_load m (s + of_nat (i - k)) k @ mem_load m (s + of_nat i) (n - i)"
    by (simp add: mem_load_add addr)
  moreover have "length (mem_load m (s + of_nat (i - k)) k) + length (mem_load m (s + of_nat i) (n - i)) \<le> 2 ^ 64"
    using assms(2-4) by simp
  note mem_store_prepend [OF this, of m "d + of_nat (i - k)"]
  ultimately show ?thesis by (simp only: load addr length_mem_load)
qed

lemma word_end_step: "i < word_end n \<Longrightarrow> i mod 8 = 0 \<Longrightarrow> i + 8 \<le> n"
proof -
  assume i: "i < word_end n" "i mod 8 = 0"
  have "word_end n = 8 * (n div 8)" by (simp add: word_end_def minus_mod_eq_mult_div)
  moreover have "i = 8 * (i div 8)" using i(2) by auto
  ultimately have "i div 8 < n div 8" using i(1) by (metis nat_mult_less_cancel_disj)
  then have "8 * (i div 8 + 1) \<le> 8 * (n div 8)" by simp
  also have "\<dots> \<le> n" by simp
  finally show ?thesis using \<open>i = 8 * (i div 8)\<close> by simp
qed

lemma fun_upd_store: "m(a := v) = mem_store m a [v]"
  by (simp add: mem_store_single)

lemma fun_upd_load: "m(a := m b) = mem_store m a (mem_load m b 1)"
  by (simp add: mem_store_single mem_load_def)

lemma memcpy_ok:
  assumes "fwd_safe d s n" "n \<le> 2 ^ 64"
  shows "memcpy m d s n = Some (copied m d s n)"
proof -
  let ?S = "copied m d s"
  let ?w = "\<lambda>i m. if i < word_end n then Some (store64 m (d + of_nat i) (load64 m (s + of_nat i))) else None"
  have S0: "m = ?S 0" by simp
  obtain j where j: "j \<le> n" "(if n \<ge> 8 then scan_words ?w 0 m else Some (0, m)) = Some (j, ?S j)"
  proof (cases "n \<ge> 8")
    case True
    have "\<exists>j \<ge> 0. j \<le> n \<and> scan_words ?w 0 (?S 0) = Some (j, ?S j)"
      using copied_step [OF assms(1) _ assms(2)] word_end_step
      by (intro scan_words_rule [where r = 0]) (auto simp: store64_load64)
    with that True show ?thesis by auto
  qed (use that S0 in auto)
  have "scan_tail (\<lambda>i m. if i < n then Inr (m(d + of_nat i := m (s + of_nat i))) else Inl m) j (?S j) = Some (?S n)"
    using copied_step [OF assms(1) _ assms(2), of _ 1] j(1)
    by (intro scan_tail_rule [of n]) (auto simp: fun_upd_load)
  with j(2) show ?thesis by (simp add: memcpy_def)
qed

lemma memset_ok:
  assumes "n \<le> 2 ^ 64"
  shows "memset m d c n = Some (mem_store m d (replicate n (ucast c)))"
proof -
  let ?S = "\<lambda>i. mem_store m d (replicate i (ucast c))"
  let ?w = "\<lambda>i m. if i < word_end n then Some (store64 m (d + of_nat i) (fillsize (ucast c))) else None"
  have step: "mem_store (?S i) (d + of_nat i) (replicate k (ucast c)) = ?S (i + k)" if "i + k \<le> n" for i k
    using mem_store_append [of "replicate i (ucast c)" "replicate k (ucast c)" m d] that assms
    by (simp add: replicate_add)
  obtain j where j: "j \<le> n" "(if n \<ge> 8 then scan_words ?w 0 m else Some (0, m)) = Some (j, ?S j)"
  proof (cases "n \<ge> 8")
    case True
    have "\<exists>j \<ge> 0. j \<le> n \<and> scan_words ?w 0 (?S 0) = Some (j, ?S j)"
      using step word_end_step
      by (intro scan_words_rule [where r = 0]) (auto simp: store64_def word_bytes_fillsize)
    with that True show ?thesis by auto
  qed (use that [of 0] in auto)
  have "scan_tail (\<lambda>i m. if i < n then Inr (m(d + of_nat i := ucast c)) else Inl m) j (?S j) = Some (?S n)"
    using step [of _ 1] j(1) by (intro scan_tail_rule [of n]) (auto simp: fun_upd_store)
  with j(2) show ?thesis by (simp add: memset_def)
qed

lemma memmove_words_ok:
  assumes "bwd_safe d s n" "n \<le> 2 ^ 64" "i \<le> n"
  shows "\<exists>j \<le> i. memmove_words (copied_from m d s n i) d s i = (copied_from m d s n j, j)"
  using assms(3)
proof (induction i rule: less_induct)
  case (less i)
  show ?case
  proof (cases "i \<ge> 8")
    case True
    then have "memmove_words (copied_from m d s n i) d s i = memmove_words (copied_from m d s n (i - 8)) d s (i - 8)"
      using copied_from_step [OF assms(1) True less.prems assms(2)]
      by (subst memmove_words.simps) (simp add: store64_load64)
    moreover have "i - 8 < i" "i - 8 \<le> n" using True less.prems by simp_all
    from less.IH [OF this] obtain j where "j \<le> i - 8"
      "memmove_words (copied_from m d s n (i - 8)) d s (i - 8) = (copied_from m d s n j, j)" by blast
    ultimately show ?thesis by (intro exI [of _ j]) simp
  next
    case False
    then show ?thesis by (subst memmove_words.simps) auto
  qed
qed

lemma memmove_bytes_ok:
  assumes "bwd_safe d s n" "n \<le> 2 ^ 64" "i \<le> n"
  shows "memmove_bytes (copied_from m d s n i) d s i = copied_from m d s n 0"
  using assms(3)
proof (induction i)
  case (Suc i)
  then show ?case
    using copied_from_step [OF assms(1), of 1 "Suc i"] assms(2) by (simp add: fun_upd_load)
qed simp

lemma memmove_ok:
  assumes "unat d + n \<le> 2 ^ 64" "unat s + n \<le> 2 ^ 64"
  shows "memmove m d s n = Some (copied m d s n)"
proof -
  have n: "n \<le> 2 ^ 64" using assms(1) by simp
  have addr: "unat (a + of_nat l) = unat a + l" if "unat a + n \<le> 2 ^ 64" "l < n" for a :: uintptr_t and l
    using that by (subst unat_add64) (simp_all add: unat_of_nat64)
  have same: "copied m s s n = m"
    by (rule ext) (simp add: mem_store_def)
  consider "n = 0" | "n \<noteq> 0" "d = s" | "n \<noteq> 0" "d < s" | "n \<noteq> 0" "s < d"
    using linorder_less_linear [of d s] by blast
  then show ?thesis
  proof cases
    case 3
    have "fwd_safe d s n"
      unfolding fwd_safe_def
    proof (intro allI impI)
      fix l j assume "l < j" "j < n"
      then have "unat (d + of_nat l) < unat (s + of_nat j)"
        using addr [OF assms(1), of l] addr [OF assms(2), of j] 3 by (simp add: word_less_nat_alt)
      then show "d + of_nat l \<noteq> s + of_nat j" by auto
    qed
    with memcpy_ok [of d s n m] n 3 show ?thesis by (auto simp: memmove_def)
  next
    case 4
    have safe: "bwd_safe d s n"
      unfolding bwd_safe_def
    proof (intro allI impI)
      fix l j assume "j < l" "l < n"
      then have "unat (s + of_nat j) < unat (d + of_nat l)"
        using addr [OF assms(1), of l] addr [OF assms(2), of j] 4 by (simp add: word_less_nat_alt)
      then show "d + of_nat l \<noteq> s + of_nat j" by auto
    qed
    have start: "m = copied_from m d s n n" by simp
    obtain j where j: "j \<le> n" "(if d - s \<ge> 8 then memmove_words m d s n else (m, n)) = (copied_from m d s n j, j)"
    proof (cases "d - s \<ge> 8")
      case True
      then show ?thesis using that memmove_words_ok [OF safe n order.refl] start by auto
    qed (use that start in auto)
    have "memmove_bytes (copied_from m d s n j) d s j = copied m d s n"
      using memmove_bytes_ok [OF safe n j(1)] by simp
    then show ?thesis using 4 j(2) by (auto simp: memmove_def)
  qed (simp_all add: memmove_def same)
qed

section \<open>Searches\<close>

lemma find_upt_Some:
  "List.find P [0..<n] = Some i \<longleftrightarrow> i < n \<and> P i \<and> (\<forall>j < i. \<not> P j)"
  by (auto simp: find_Some_iff)

lemma find_upt_None: "List.find P [0..<n] = None \<longleftrightarrow> (\<forall>i < n. \<not> P i)"
  by (auto simp: find_None_iff)

text \<open>A word loop that only looks, then a byte loop that returns at the first byte where \<open>P\<close> holds.\<close>

lemma search_rule:
  assumes "\<And>i. i + 8 \<le> n \<Longrightarrow> \<not> stop i \<Longrightarrow> \<forall>k < 8. \<not> P (i + k)"
    and "\<And>i. i < n \<Longrightarrow> P i \<Longrightarrow> hit i = Inl (r (Some i))"
    and "\<And>i. i < n \<Longrightarrow> \<not> P i \<Longrightarrow> hit i = Inr ()" "hit n = Inl (r None)"
  shows "do { (i, _) \<leftarrow> (if n \<ge> 8 then scan_words (\<lambda>i _. if i < word_end n
                   then if stop i then None else Some () else None) 0 () else Some (0, ()));
              scan_tail (\<lambda>i _. hit i) i () } = Some (r (List.find P [0..<n]))"
proof -
  let ?w = "\<lambda>i (_ :: unit). if i < word_end n then if stop i then None else Some () else None"
  define L where "L = (case List.find P [0..<n] of None \<Rightarrow> n | Some i \<Rightarrow> i)"
  have L: "L \<le> n" "\<forall>i < L. \<not> P i" "L < n \<longrightarrow> P L"
    by (auto simp: L_def find_upt_Some find_upt_None split: option.splits)
  have find: "List.find P [0..<n] = (if L < n then Some L else None)"
    using L by (auto simp: find_upt_Some find_upt_None)
  have word: "?w i () = None \<or> i + 8 \<le> L \<and> ?w i () = Some ()" if "i \<le> L" "i mod 8 = 0" for i
  proof (cases "i < word_end n \<and> \<not> stop i")
    case True
    then have "i + 8 \<le> n" "\<forall>k < 8. \<not> P (i + k)" using word_end_step that(2) assms(1) by auto
    moreover have "i + 8 \<le> L"
    proof (rule ccontr)
      assume "\<not> i + 8 \<le> L"
      then have "L - i < 8" "i + (L - i) = L" using that(1) by simp_all
      then have "\<not> P L" using \<open>\<forall>k < 8. \<not> P (i + k)\<close> by metis
      then show False using L(1,3) \<open>i + 8 \<le> n\<close> \<open>\<not> i + 8 \<le> L\<close> by auto
    qed
    ultimately show ?thesis using True by simp
  qed auto
  obtain j where j: "j \<le> L" "(if n \<ge> 8 then scan_words ?w 0 () else Some (0, ())) = Some (j, ())"
    using scan_words_rule [of L 0 ?w "\<lambda>_. ()" 0] word by (cases "n \<ge> 8") auto
  have "scan_tail (\<lambda>i _. hit i) j () = Some (r (List.find P [0..<n]))"
    using assms(2-4) L j(1) find
    by (intro scan_tail_rule [of L _ "\<lambda>_. ()", simplified]) (auto simp: order_le_less)
  with j(2) show ?thesis by simp
qed

lemma memchr_ok:
  "memchr m s c n = Some (map_option (\<lambda>i. s + of_nat i) (List.find (\<lambda>i. m (s + of_nat i) = ucast c) [0..<n]))"
  unfolding memchr_def by (rule search_rule) (auto simp: haszero_xor add.assoc)

lemma memcmp_ok:
  "memcmp m s1 s2 n = Some (case List.find (\<lambda>i. m (s1 + of_nat i) \<noteq> m (s2 + of_nat i)) [0..<n] of
     None \<Rightarrow> 0 | Some i \<Rightarrow> uint (m (s1 + of_nat i) - m (s2 + of_nat i)))"
  unfolding memcmp_def by (rule search_rule) (auto simp: load64_eq add.assoc Let_def)

lemma memrchr_bytes_find:
  "memrchr_bytes m s c n = map_option (\<lambda>i. s + of_nat i) (List.find (\<lambda>i. m (s + of_nat i) = c) (rev [0..<n]))"
  by (induction n) auto

lemma memrchr_words_ok: "memrchr_bytes m s c (memrchr_words m s (fillsize c) n) = memrchr_bytes m s c n"
proof (induction n rule: less_induct)
  case (less n)
  have skip: "memrchr_bytes m s c n = memrchr_bytes m s c (n - k)"
    if "k \<le> n" "\<forall>i. n - k \<le> i \<longrightarrow> i < n \<longrightarrow> m (s + of_nat i) \<noteq> c" for k
    using that
  proof (induction k)
    case (Suc k)
    then have "n - k = Suc (n - Suc k)" by simp
    moreover have "m (s + of_nat (n - Suc k)) \<noteq> c" using Suc.prems by auto
    ultimately have "memrchr_bytes m s c (n - k) = memrchr_bytes m s c (n - Suc k)" by simp
    moreover have "memrchr_bytes m s c n = memrchr_bytes m s c (n - k)" using Suc by auto
    ultimately show ?case by simp
  qed simp
  show ?case
  proof (cases "n \<ge> 8 \<and> \<not> haszero (load64 m (s + of_nat (n - 8)) XOR fillsize c)")
    case True
    have "m (s + of_nat i) \<noteq> c" if i: "n - 8 \<le> i" "i < n" for i
    proof -
      have "i - (n - 8) < 8" using i by simp
      moreover have "s + of_nat (n - 8) + of_nat (i - (n - 8)) = s + of_nat i"
        using i(1) by (simp only: add.assoc of_nat_add [symmetric] le_add_diff_inverse)
      ultimately show ?thesis using True unfolding haszero_xor by metis
    qed
    then have "memrchr_bytes m s c n = memrchr_bytes m s c (n - 8)" using True skip [of 8] by simp
    moreover have "memrchr_words m s (fillsize c) n = memrchr_words m s (fillsize c) (n - 8)"
      using True by (subst memrchr_words.simps) (simp del: of_nat_diff)
    ultimately show ?thesis using less.IH [of "n - 8"] True by simp
  next
    case False
    then have "memrchr_words m s (fillsize c) n = n" by (subst memrchr_words.simps) auto
    then show ?thesis by simp
  qed
qed

lemma memrchr_ok:
  "memrchr m s c n = map_option (\<lambda>i. s + of_nat i) (List.find (\<lambda>i. m (s + of_nat i) = ucast c) (rev [0..<n]))"
  by (simp add: memrchr_def memrchr_words_ok flip: memrchr_bytes_find)

lemma memcmp_zero: "memcmp m s1 s2 n = Some 0 \<longleftrightarrow> mem_load m s1 n = mem_load m s2 n"
proof -
  have "mem_load m s1 n = mem_load m s2 n \<longleftrightarrow> (\<forall>i < n. m (s1 + of_nat i) = m (s2 + of_nat i))"
    by (auto simp: list_eq_iff_nth_eq)
  also have "\<dots> \<longleftrightarrow> List.find (\<lambda>i. m (s1 + of_nat i) \<noteq> m (s2 + of_nat i)) [0..<n] = None"
    by (simp add: find_upt_None)
  finally show ?thesis
    unfolding memcmp_ok by (auto simp: find_upt_Some uint_0_iff split: option.splits)
qed

lemma memcmp_total: "\<exists>x. memcmp m s1 s2 n = Some x \<and> 0 \<le> x"
  unfolding memcmp_ok by (auto split: option.split)

text \<open>The first place the needle occurs.\<close>

lemma memmem_ok:
  assumes "nl \<le> hl"
  shows "memmem m h hl nd nl = Some (map_option (\<lambda>i. h + of_nat i)
    (List.find (\<lambda>i. mem_load m (h + of_nat i) nl = mem_load m nd nl) [0..<hl - nl + 1]))"
proof -
  let ?P = "\<lambda>i. mem_load m (h + of_nat i) nl = mem_load m nd nl"
  let ?body = "\<lambda>i (_ :: unit). if i \<le> hl - nl
                  then (case memcmp m (h + of_nat i) nd nl of
                          None \<Rightarrow> Inl None
                        | Some x \<Rightarrow> if x = 0 then Inl (Some (Some (h + of_nat i))) else Inr ())
                  else Inl (Some None)"
  define L where "L = (case List.find ?P [0..<hl - nl + 1] of None \<Rightarrow> hl - nl + 1 | Some i \<Rightarrow> i)"
  have body: "?body i () = (if ?P i then Inl (Some (Some (h + of_nat i))) else Inr ())" if "i < hl - nl + 1" for i
  proof -
    obtain x where x: "memcmp m (h + of_nat i) nd nl = Some x" using memcmp_total by blast
    then have "x = 0 \<longleftrightarrow> ?P i" using memcmp_zero [of m "h + of_nat i" nd nl] by simp
    with x that show ?thesis by simp
  qed
  have "scan_tail ?body 0 () = Some (Some (map_option (\<lambda>i. h + of_nat i) (List.find ?P [0..<hl - nl + 1])))"
  proof (cases "List.find ?P [0..<hl - nl + 1]")
    case None
    then have "\<forall>i < hl - nl + 1. \<not> ?P i" by (simp only: find_upt_None)
    then show ?thesis using body None
      by (intro scan_tail_rule [of "hl - nl + 1" _ "\<lambda>_. ()", simplified]) auto
  next
    case (Some i)
    then have "i < hl - nl + 1 \<and> ?P i \<and> (\<forall>j < i. \<not> ?P j)" unfolding find_upt_Some .
    then show ?thesis using body Some
      by (intro scan_tail_rule [of i _ "\<lambda>_. ()", simplified]) auto
  qed
  then show ?thesis using assms by (simp add: memmem_def)
qed

section \<open>Properties\<close>

text \<open>
  C23. \<^verbatim>\<open>memmove\<close> leaves at the destination the bytes the source held before the call, and no other byte
  changed, for every overlap of two ranges that do not wrap: forwards and backwards, in words and in bytes,
  the copy never reads a byte it has already overwritten.
\<close>

theorem memmove_overlap:
  assumes "unat d + n \<le> 2 ^ 64" "unat s + n \<le> 2 ^ 64"
  shows "memmove m d s n = Some (mem_store m d (mem_load m s n))"
  by (rule memmove_ok [OF assms])

theorem memmove_overlap_witness:
  "memmove ucast 0x1003 0x1000 11 = Some (mem_store ucast 0x1003 (mem_load ucast 0x1000 11))"
  using memmove_overlap [of "0x1003" 11 "0x1000" ucast] by simp

text \<open>
  \<^verbatim>\<open>memchr\<close> finds the first and \<^verbatim>\<open>memrchr\<close> the last of the \<open>n\<close> bytes that equals the byte searched,
  and they return NULL when there is none: the word-wise scans agree with byte-wise searches.
\<close>

lemma memchr_first_memrchr_last:
  "memchr m s c n = Some (map_option (\<lambda>i. s + of_nat i) (List.find (\<lambda>i. m (s + of_nat i) = ucast c) [0..<n]))
   \<and> memrchr m s c n = map_option (\<lambda>i. s + of_nat i) (List.find (\<lambda>i. m (s + of_nat i) = ucast c) (rev [0..<n]))"
  using memchr_ok memrchr_ok by blast

text \<open>
  C24. \<^verbatim>\<open>memcmp\<close> decides equality of two byte ranges but does not order them: it returns zero exactly when
  they agree, and since it returns the difference of the first differing bytes as a \<^verbatim>\<open>uint8_t\<close>, it is never
  negative, so the result does not depend on which range is the smaller one.
\<close>

theorem memcmp_equality_only:
  "\<exists>x y. memcmp m s1 s2 n = Some x \<and> memcmp m s2 s1 n = Some y \<and> 0 \<le> x \<and> 0 \<le> y
    \<and> (x = 0 \<longleftrightarrow> mem_load m s1 n = mem_load m s2 n) \<and> (y = 0 \<longleftrightarrow> x = 0)"
proof -
  obtain x y where xy: "memcmp m s1 s2 n = Some x" "0 \<le> x" "memcmp m s2 s1 n = Some y" "0 \<le> y"
    using memcmp_total by metis
  then show ?thesis using memcmp_zero [of m s1 s2 n] memcmp_zero [of m s2 s1 n] by auto
qed

end
