(* ===== verification/Cstring.thy ===== *)
theory Cstring
  imports Cmem
begin

text \<open>
  The kernel's string routines (kern/string.c, \<^verbatim>\<open>str*\<close>), its character classes (kern/ctype.c) and number
  parsing (kern/stdlib.c). A string is a non-NUL byte sequence with a NUL after it; a scan that only a
  NUL byte stops is partial, \<open>None\<close> when it never ends.
\<close>

section \<open>String routines\<close>

definition strlen :: "mem \<Rightarrow> uintptr_t \<Rightarrow> nat option" where
  "strlen m s =
     scan3 never (\<lambda>i _. if m (s + of_nat i) = 0 then Inl i else Inr ())
       (\<lambda>i _. if haszero (load64 m (s + of_nat i)) then None else Some ())
       (\<lambda>i _. if m (s + of_nat i) = 0 then Inl i else Inr ()) s ()"

text \<open>\<^verbatim>\<open>strnlen\<close> takes at most one step before its word loop, which therefore need not be aligned.\<close>

definition strnlen :: "mem \<Rightarrow> uintptr_t \<Rightarrow> nat \<Rightarrow> nat option" where
  "strnlen m s maxlen =
     (if 0 < maxlen \<and> s mod 8 \<noteq> 0 \<and> m s = 0 then Some 0
      else do { (i, _) \<leftarrow> scan_words (\<lambda>i _. if i + 8 \<le> maxlen
                    then if haszero (load64 m (s + of_nat i)) then None else Some () else None)
                  (if 0 < maxlen \<and> s mod 8 \<noteq> 0 then 1 else 0) ();
                scan_tail (\<lambda>i _. if i < maxlen \<and> m (s + of_nat i) \<noteq> 0 then Inr () else Inl i) i () })"

definition strcpy :: "mem \<Rightarrow> uintptr_t \<Rightarrow> uintptr_t \<Rightarrow> mem option" where
  "strcpy m d s =
     (let body = (\<lambda>i m. let v = m (s + of_nat i); m = m(d + of_nat i := v) in if v = 0 then Inl m else Inr m)
      in scan3 never body
           (\<lambda>i m. let v = load64 m (s + of_nat i)
                   in if haszero v then None else Some (store64 m (d + of_nat i) v))
           body s m)"

text \<open>The loops of \<^verbatim>\<open>strncpy\<close> leave with the index to fill from, or \<open>n\<close> when nothing is left to fill.\<close>

definition strncpy :: "mem \<Rightarrow> uintptr_t \<Rightarrow> uintptr_t \<Rightarrow> nat \<Rightarrow> mem option" where
  "strncpy m d s n =
     (let step = (\<lambda>i m. let v = m (s + of_nat i); m = m(d + of_nat i := v)
                        in if v = 0 then Inl (Some (i + 1), m) else Inr m)
      in do { (r, m) \<leftarrow> scan3 (\<lambda>i m. if i \<ge> n then Some (None, m) else None) step
                (\<lambda>i m. if i + 8 \<le> n
                        then let v = load64 m (s + of_nat i)
                             in if haszero v then None else Some (store64 m (d + of_nat i) v)
                        else None)
                (\<lambda>i m. if i \<ge> n then Inl (None, m) else step i m) s m;
              (case r of None \<Rightarrow> Some m | Some i \<Rightarrow> memset m (d + of_nat i) 0 (n - i)) })"

text \<open>The loops of \<^verbatim>\<open>strlcpy\<close> return a length (\<open>Inl\<close>) or jump to \<^verbatim>\<open>end\<close> with an index (\<open>Inr\<close>).\<close>

definition strlcpy :: "mem \<Rightarrow> uintptr_t \<Rightarrow> uintptr_t \<Rightarrow> nat \<Rightarrow> (nat \<times> mem) option" where
  "strlcpy m d s n =
     (if n = 0 then map_option (\<lambda>l. (l, m)) (strlen m s)
      else let step = (\<lambda>i m. let v = m (s + of_nat i); m = m(d + of_nat i := v)
                             in if v = 0 then Inl (Inl i, m) else Inr m)
      in do { (r, m) \<leftarrow> scan3 (\<lambda>i m. if i \<ge> n - 1 then Some (Inr i, m) else None) step
                (\<lambda>i m. if i + 8 < n
                        then let v = load64 m (s + of_nat i)
                             in if haszero v then None else Some (store64 m (d + of_nat i) v)
                        else None)
                (\<lambda>i m. if i < n - 1 then step i m else Inl (Inr i, m)) s m;
              (case r of
                 Inl i \<Rightarrow> Some (i, m)
               | Inr i \<Rightarrow>
                   let m = m(d + of_nat i := 0)
                   in do { l \<leftarrow> strlen m (s + of_nat i); Some (i + l, m) }) })"

definition strcat :: "mem \<Rightarrow> uintptr_t \<Rightarrow> uintptr_t \<Rightarrow> mem option" where
  "strcat m d s = do { i \<leftarrow> strlen m d; strcpy m (d + of_nat i) s }"

text \<open>\<^verbatim>\<open>strncat\<close> and \<^verbatim>\<open>strlcat\<close> walk \<^verbatim>\<open>s\<close> with \<^verbatim>\<open>j\<close> and \<^verbatim>\<open>d\<close> with \<^verbatim>\<open>i\<close>, which is part of the state.\<close>

definition strncat :: "mem \<Rightarrow> uintptr_t \<Rightarrow> uintptr_t \<Rightarrow> nat \<Rightarrow> mem option" where
  "strncat m d s n =
     (let step = (\<lambda>j (i, m). let v = m (s + of_nat j); m = m(d + of_nat i := v)
                             in if v = 0 then Inl m else Inr (i + 1 :: nat, m));
          finish = (\<lambda>i m. m(d + of_nat i := 0))
      in do { i \<leftarrow> strlen m d;
              scan3 (\<lambda>j (i, m). if j \<ge> n then Some (finish i m) else None) step
                (\<lambda>j (i, m). if j + 8 \<le> n
                        then let v = load64 m (s + of_nat j)
                             in if haszero v then None else Some (i + 8, store64 m (d + of_nat i) v)
                        else None)
                (\<lambda>j (i, m). if j < n then step j (i, m) else Inl (finish i m)) s (i, m) })"

definition strlcat :: "mem \<Rightarrow> uintptr_t \<Rightarrow> uintptr_t \<Rightarrow> nat \<Rightarrow> (nat \<times> mem) option" where
  "strlcat m d s n =
     (if n = 0 then do { a \<leftarrow> strlen m d; b \<leftarrow> strlen m s; Some (a + b, m) }
      else do { i \<leftarrow> strlen m d;
        if i \<ge> n then do { b \<leftarrow> strlen m s; Some (i + b, m) }
        else let step = (\<lambda>j (i, m). let v = m (s + of_nat j); m = m(d + of_nat i := v)
                             in if v = 0 then Inl (Inl i, m) else Inr (i + 1 :: nat, m))
        in do { (r, m) \<leftarrow> scan3 (\<lambda>j (i, m). if i \<ge> n - 1 then Some (Inr (i, j), m) else None) step
                (\<lambda>j (i, m). if i + 8 < n
                        then let v = load64 m (s + of_nat j)
                             in if haszero v then None else Some (i + 8, store64 m (d + of_nat i) v)
                        else None)
                (\<lambda>j (i, m). if i < n - 1 then step j (i, m) else Inl (Inr (i, j), m)) s (i, m);
              (case r of
                 Inl i \<Rightarrow> Some (i, m)
               | Inr (i, j) \<Rightarrow>
                   let m = m(d + of_nat i := 0)
                   in do { l \<leftarrow> strlen m (s + of_nat j); Some (i + l, m) }) } })"

definition strchr :: "mem \<Rightarrow> uintptr_t \<Rightarrow> u32 \<Rightarrow> uintptr_t option option" where
  "strchr m s c =
     scan3 never
       (\<lambda>i _. let v = m (s + of_nat i)
               in if v = ucast c then Inl (Some (s + of_nat i))
                  else if v = 0 then Inl (if ucast c \<noteq> (0 :: u8) then None else Some (s + of_nat i))
                  else Inr ())
       (\<lambda>i _. let v = load64 m (s + of_nat i)
               in if haszero v then None
                  else if haszero (v XOR fillsize (ucast c)) then None else Some ())
       (\<lambda>i _. let v = m (s + of_nat i)
               in if v = ucast c then Inl (Some (s + of_nat i)) else if v = 0 then Inl None else Inr ()) s ()"

definition strchrnul :: "mem \<Rightarrow> uintptr_t \<Rightarrow> u32 \<Rightarrow> uintptr_t option" where
  "strchrnul m s c =
     (let body = (\<lambda>i _. let v = m (s + of_nat i)
               in if v = ucast c then Inl (s + of_nat i) else if v = 0 then Inl (s + of_nat i) else Inr ())
      in scan3 never body
       (\<lambda>i _. let v = load64 m (s + of_nat i)
               in if haszero v then None
                  else if haszero (v XOR fillsize (ucast c)) then None else Some ()) body s ())"

text \<open>The state of \<^verbatim>\<open>strrchr\<close> is \<^verbatim>\<open>ret\<close>. Its word loop stops at the first match and is not entered again.\<close>

definition strrchr :: "mem \<Rightarrow> uintptr_t \<Rightarrow> u32 \<Rightarrow> uintptr_t option option" where
  "strrchr m s c =
     scan3 never
       (\<lambda>i ret. let v = m (s + of_nat i); ret = (if v = ucast c then Some (s + of_nat i) else ret)
               in if v = 0 then Inl (if ucast c \<noteq> (0 :: u8) then ret else Some (s + of_nat i)) else Inr ret)
       (\<lambda>i ret. let v = load64 m (s + of_nat i)
               in if haszero v then None
                  else if haszero (v XOR fillsize (ucast c)) then None else Some ret)
       (\<lambda>i ret. let v = m (s + of_nat i); ret = (if v = ucast c then Some (s + of_nat i) else ret)
               in if v = 0 then Inl ret else Inr ret) s None"

definition strstr :: "mem \<Rightarrow> uintptr_t \<Rightarrow> uintptr_t \<Rightarrow> uintptr_t option option" where
  "strstr m s1 s2 =
     (if m s2 = 0 then Some (Some s1)
      else do { r \<leftarrow> scan_tail (\<lambda>i _. if m (s1 + of_nat i) \<noteq> 0
                  then (case scan_tail (\<lambda>j _.
                               if m (s1 + of_nat (i + j)) = m (s2 + of_nat j)
                               then if m (s2 + of_nat j) = 0 then Inl True else Inr ()
                               else Inl (m (s2 + of_nat j) = 0)) 0 () of
                          None \<Rightarrow> Inl None
                        | Some found \<Rightarrow> if found then Inl (Some (Some (s1 + of_nat i))) else Inr ())
                  else Inl (Some None)) 0 ();
                r })"

text \<open>The inner loop of \<^verbatim>\<open>strnstr\<close> finds (\<open>Some True\<close>), gives up (\<open>Some False\<close>) or goes on (\<open>None\<close>).\<close>

definition strnstr :: "mem \<Rightarrow> uintptr_t \<Rightarrow> uintptr_t \<Rightarrow> nat \<Rightarrow> uintptr_t option option" where
  "strnstr m s1 s2 n =
     (if m s2 = 0 then Some (Some s1)
      else do { r \<leftarrow> scan_tail (\<lambda>i _. if i < n \<and> m (s1 + of_nat i) \<noteq> 0
                  then (case scan_tail (\<lambda>j _.
                               if m (s1 + of_nat (i + j)) = m (s2 + of_nat j) \<or> m (s2 + of_nat j) = 0
                               then if m (s2 + of_nat j) = 0 then Inl (Some True)
                                    else if i + j \<ge> n then Inl (Some False) else Inr ()
                               else Inl None) 0 () of
                          None \<Rightarrow> Inl None
                        | Some None \<Rightarrow> Inr ()
                        | Some (Some found) \<Rightarrow> Inl (Some (if found then Some (s1 + of_nat i) else None)))
                  else Inl (Some None)) 0 ();
                r })"

definition strcmp :: "mem \<Rightarrow> uintptr_t \<Rightarrow> uintptr_t \<Rightarrow> int option" where
  "strcmp m s1 s2 =
     scan_tail (\<lambda>i _. let a = m (s1 + of_nat i); b = m (s2 + of_nat i)
       in if a \<noteq> 0 \<and> b \<noteq> 0 \<and> a = b then Inr () else Inl (uint a - uint b)) 0 ()"

text \<open>\<^verbatim>\<open>strncmp\<close> too returns the difference of two bytes as a \<^verbatim>\<open>uint8_t\<close> inside its loop.\<close>

definition strncmp :: "mem \<Rightarrow> uintptr_t \<Rightarrow> uintptr_t \<Rightarrow> nat \<Rightarrow> int option" where
  "strncmp m s1 s2 n =
     scan_tail (\<lambda>i _. let a = m (s1 + of_nat i); b = m (s2 + of_nat i)
       in if i < n \<and> a \<noteq> 0 \<and> b \<noteq> 0
          then let d = a - b in if d \<noteq> 0 then Inl (uint d) else Inr ()
          else Inl (if i = n then 0 else uint a - uint b)) 0 ()"

text \<open>The copies ask \<open>malloc\<close>, the kernel's allocator, for memory: its answer for a size.\<close>

definition strdup :: "(nat \<Rightarrow> uintptr_t option) \<Rightarrow> mem \<Rightarrow> uintptr_t \<Rightarrow> (uintptr_t option \<times> mem) option" where
  "strdup malloc m s =
     do { len \<leftarrow> strlen m s;
          case malloc (len + 1) of
            None \<Rightarrow> Some (None, m)
          | Some ret \<Rightarrow> do { m \<leftarrow> memcpy m ret s (len + 1); Some (Some ret, m) } }"

definition strndup ::
  "(nat \<Rightarrow> uintptr_t option) \<Rightarrow> mem \<Rightarrow> uintptr_t \<Rightarrow> nat \<Rightarrow> (uintptr_t option \<times> mem) option" where
  "strndup malloc m s n =
     do { len \<leftarrow> strlen m s;
          let len = (if n < len then n else len)
          in case malloc (len + 1) of
               None \<Rightarrow> Some (None, m)
             | Some ret \<Rightarrow> do { m \<leftarrow> memcpy m ret s len; Some (Some ret, m(ret + of_nat len := 0)) } }"

section \<open>Characters and numbers\<close>

text \<open>The arguments are \<^verbatim>\<open>int\<close>s; characters reach them sign extended.\<close>

definition isalnum :: "int \<Rightarrow> bool" where
  "isalnum c \<longleftrightarrow> (c \<ge> 0x61 \<and> c \<le> 0x7a) \<or> (c \<ge> 0x41 \<and> c \<le> 0x5a) \<or> (c \<ge> 0x30 \<and> c \<le> 0x39)"

definition isalpha :: "int \<Rightarrow> bool" where
  "isalpha c \<longleftrightarrow> (c \<ge> 0x61 \<and> c \<le> 0x7a) \<or> (c \<ge> 0x41 \<and> c \<le> 0x5a)"

definition iscntrl :: "int \<Rightarrow> bool" where
  "iscntrl c \<longleftrightarrow> c < 0x20 \<or> c > 0x7e"

definition isdigit :: "int \<Rightarrow> bool" where
  "isdigit c \<longleftrightarrow> c \<ge> 0x30 \<and> c \<le> 0x39"

definition isgraph :: "int \<Rightarrow> bool" where
  "isgraph c \<longleftrightarrow> c > 0x20 \<and> c \<le> 0x7e"

definition islower :: "int \<Rightarrow> bool" where
  "islower c \<longleftrightarrow> c \<ge> 0x61 \<and> c \<le> 0x7a"

definition isprint :: "int \<Rightarrow> bool" where
  "isprint c \<longleftrightarrow> c \<ge> 0x20 \<and> c \<le> 0x7e"

definition ispunct :: "int \<Rightarrow> bool" where
  "ispunct c \<longleftrightarrow> (c \<ge> 0x21 \<and> c \<le> 0x2f) \<or> (c \<ge> 0x3a \<and> c \<le> 0x40)
     \<or> (c \<ge> 0x5b \<and> c \<le> 0x60) \<or> (c \<ge> 0x7b \<and> c \<le> 0x7e)"

definition isspace :: "int \<Rightarrow> bool" where
  "isspace c \<longleftrightarrow> c = 0x20 \<or> c = 0x09 \<or> c = 0x0a \<or> c = 0x0c \<or> c = 0x0d \<or> c = 0x0b"

definition isupper :: "int \<Rightarrow> bool" where
  "isupper c \<longleftrightarrow> c \<ge> 0x41 \<and> c \<le> 0x5a"

definition isxdigit :: "int \<Rightarrow> bool" where
  "isxdigit c \<longleftrightarrow> (c \<ge> 0x30 \<and> c \<le> 0x39) \<or> (c \<ge> 0x61 \<and> c \<le> 0x66) \<or> (c \<ge> 0x41 \<and> c \<le> 0x46)"

definition isascii :: "int \<Rightarrow> bool" where
  "isascii c \<longleftrightarrow> c \<ge> 0 \<and> c \<le> 127"

definition isblank :: "int \<Rightarrow> bool" where
  "isblank c \<longleftrightarrow> c = 0x20 \<or> c = 0x09"

definition toupper :: "int \<Rightarrow> int" where
  "toupper c = (if c \<ge> 0x61 \<and> c \<le> 0x7a then c + 0x41 - 0x61 else c)"

definition tolower :: "int \<Rightarrow> int" where
  "tolower c = (if c \<ge> 0x41 \<and> c \<le> 0x5a then c + 0x61 - 0x41 else c)"

text \<open>
  Numbers accumulate in a 32-bit \<^verbatim>\<open>int\<close>. The digit loops step past a character above \<^verbatim>\<open>'9'\<close> before they
  return, which nothing observes.
\<close>

definition is_neg_result :: "bool \<Rightarrow> u32 \<Rightarrow> u32" where
  "is_neg_result is_neg result = (if is_neg then - result else result)"

definition atoi :: "mem \<Rightarrow> uintptr_t \<Rightarrow> u32 option" where
  "atoi m s =
     do { i \<leftarrow> scan_tail (\<lambda>i _. if m (s + of_nat i) \<noteq> 0 \<and> isspace (sint (m (s + of_nat i)))
                          then Inr () else Inl i) 0 ();
          let is_neg = (m (s + of_nat i) = 0x2d);
              i = (if m (s + of_nat i) = 0x2b \<or> m (s + of_nat i) = 0x2d then i + 1 else i)
          in do { i \<leftarrow> scan_tail (\<lambda>i _. if m (s + of_nat i) = 0x30 then Inr () else Inl i) i ();
                  scan_tail (\<lambda>i result. if m (s + of_nat i) \<noteq> 0
                    then if sint (m (s + of_nat i)) \<ge> 0x30 \<and> sint (m (s + of_nat i)) \<le> 0x39
                         then Inr (result * 10 + scast (m (s + of_nat i)) - 0x30)
                         else Inl (is_neg_result is_neg result)
                    else Inl (is_neg_result is_neg result)) i 0 } }"

definition atoin :: "mem \<Rightarrow> uintptr_t \<Rightarrow> nat \<Rightarrow> u32 option" where
  "atoin m s n =
     do { i \<leftarrow> scan_tail (\<lambda>i _. if m (s + of_nat i) \<noteq> 0 \<and> i < n \<and> isspace (sint (m (s + of_nat i)))
                          then Inr () else Inl i) 0 ();
          if i \<ge> n then Some 0
          else let is_neg = (m (s + of_nat i) = 0x2d);
                   i = (if m (s + of_nat i) = 0x2b \<or> m (s + of_nat i) = 0x2d then i + 1 else i)
          in if i \<ge> n then Some 0
          else do { i \<leftarrow> scan_tail (\<lambda>i _. if m (s + of_nat i) = 0x30 \<and> i < n then Inr () else Inl i) i ();
                  if i \<ge> n then Some 0
                  else scan_tail (\<lambda>i result. if m (s + of_nat i) \<noteq> 0 \<and> i < n
                    then if sint (m (s + of_nat i)) \<ge> 0x30 \<and> sint (m (s + of_nat i)) \<le> 0x39
                         then Inr (result * 10 + scast (m (s + of_nat i)) - 0x30)
                         else Inl (is_neg_result is_neg result)
                    else Inl (is_neg_result is_neg result)) i 0 } }"

section \<open>Strings\<close>

text \<open>The NUL-terminated string at an address.\<close>

definition cstr :: "mem \<Rightarrow> uintptr_t \<Rightarrow> u8 list \<Rightarrow> bool" where
  "cstr m s cs \<longleftrightarrow> 0 \<notin> set cs \<and> mem_load m s (length cs + 1) = cs @ [0]"

lemma cstr_nth: "cstr m s cs \<Longrightarrow> i < length cs \<Longrightarrow> m (s + of_nat i) = cs ! i"
  unfolding cstr_def by (metis less_add_one less_trans nth_append nth_mem_load)

lemma cstr_nonzero: "cstr m s cs \<Longrightarrow> i < length cs \<Longrightarrow> m (s + of_nat i) \<noteq> 0"
  using cstr_nth [of m s cs i] nth_mem [of i cs] unfolding cstr_def by metis

lemma cstr_end: "cstr m s cs \<Longrightarrow> m (s + of_nat (length cs)) = 0"
  unfolding cstr_def by (metis less_add_one nth_append_length nth_mem_load)

lemma cstr_load: "cstr m s cs \<Longrightarrow> i \<le> length cs \<Longrightarrow> mem_load m s i = take i cs"
  by (rule nth_equalityI) (auto simp: cstr_nth)

lemma cstr_drop:
  assumes "cstr m s cs" "i \<le> length cs"
  shows "cstr m (s + of_nat i) (drop i cs)"
proof -
  have "mem_load m (s + of_nat i) (length cs + 1 - i) = drop i (cs @ [0])"
    using assms mem_load_drop [of i "length cs + 1" m s] by (simp add: cstr_def)
  then show ?thesis using assms in_set_dropD [of 0 i cs] by (auto simp: cstr_def Suc_diff_le)
qed

text \<open>Where the word loops of string scans stop.\<close>

lemma haszero_last:
  assumes "i \<le> l" "l < i + 8" "m (s + of_nat l) = 0"
  shows "haszero (load64 m (s + of_nat i))"
proof -
  have "s + of_nat i + of_nat (l - i) = s + of_nat l"
    using assms(1) by (simp only: add.assoc of_nat_add [symmetric] le_add_diff_inverse)
  then have "m (s + of_nat i + of_nat (l - i)) = 0" using assms(3) by (simp only:)
  moreover have "l - i < 8" using assms(1,2) by linarith
  ultimately show ?thesis unfolding haszero_load64 by blast
qed

lemma word_stop:
  assumes "cstr m s cs" "i \<le> length cs" "\<not> haszero (load64 m (s + of_nat i))"
  shows "i + 8 \<le> length cs"
  using haszero_last [of i "length cs" m s] cstr_end [OF assms(1)] assms(2,3) by (meson not_le)

lemma strlen_ok: "cstr m s cs \<Longrightarrow> strlen m s = Some (length cs)"
  unfolding strlen_def
  by (rule scan3_rule [of "length cs" _ "\<lambda>_. ()", simplified])
    (auto simp: never_def cstr_nonzero cstr_end intro: word_stop)

lemma strnlen_ok:
  assumes "cstr m s cs"
  shows "strnlen m s n = Some (min n (length cs))"
proof -
  let ?L = "min n (length cs)"
  let ?w = "\<lambda>i (_ :: unit). if i + 8 \<le> n then if haszero (load64 m (s + of_nat i)) then None else Some () else None"
  let ?i0 = "if 0 < n \<and> s mod 8 \<noteq> 0 then 1 else 0 :: nat"
  show ?thesis
  proof (cases "0 < n \<and> s mod 8 \<noteq> 0 \<and> m s = 0")
    case True
    then have "cs = []" using cstr_nonzero [OF assms, of 0] by (cases cs) auto
    with True show ?thesis by (simp add: strnlen_def)
  next
    case False
    have "?i0 \<le> ?L"
    proof (cases "0 < n \<and> s mod 8 \<noteq> 0")
      case True
      then have "cs \<noteq> []" using False cstr_end [OF assms] by auto
      with True show ?thesis by (cases cs) auto
    qed auto
    moreover have "?w i () = None \<or> i + 8 \<le> ?L \<and> ?w i () = Some ()" if "i \<le> ?L" for i
      using that word_stop [OF assms, of i] by auto
    ultimately obtain j where j: "j \<le> ?L" "scan_words ?w ?i0 () = Some (j, ())"
      using scan_words_rule [of ?L "?i0 mod 8" ?w "\<lambda>_. ()" ?i0] by auto
    have "scan_tail (\<lambda>i _. if i < n \<and> m (s + of_nat i) \<noteq> 0 then Inr () else Inl i) j () = Some ?L"
      using j(1) assms
      by (intro scan_tail_rule [of ?L _ "\<lambda>_. ()"]) (auto simp: cstr_nonzero cstr_end min_def split: if_splits)
    with j(2) False show ?thesis by (auto simp: strnlen_def)
  qed
qed

lemma strcpy_ok:
  assumes "cstr m s cs" "fwd_safe d s (length cs + 1)" "length cs < 2 ^ 64"
  shows "strcpy m d s = Some (mem_store m d (cs @ [0]))"
proof -
  let ?L = "length cs" and ?S = "copied m d s"
  have read: "?S i (s + of_nat j) = m (s + of_nat j)" if "i \<le> j" "j \<le> ?L" for i j
    using copied_read [OF assms(2)] that by simp
  have word: "haszero (load64 (?S i) (s + of_nat i)) \<longleftrightarrow> haszero (load64 m (s + of_nat i))" if "i + 8 \<le> ?L" for i
    using read that by (auto simp: haszero_load64 add.assoc simp flip: of_nat_add)
  have last: "haszero (load64 (?S i) (s + of_nat i))" if "i \<le> ?L" "?L < i + 8" for i
    using haszero_last [OF that] read [OF that(1) order.refl] cstr_end [OF assms(1)] by simp
  have byte: "(?S i)(d + of_nat i := ?S i (s + of_nat i)) = ?S (Suc i)" if "i \<le> ?L" for i
    using copied_step [OF assms(2), of i 1] that assms(3) by (simp add: fun_upd_load)
  have step8: "store64 (?S i) (d + of_nat i) (load64 (?S i) (s + of_nat i)) = ?S (i + 8)" if "i + 8 \<le> ?L" for i
    using copied_step [OF assms(2), of i 8] that assms(3) by (simp add: store64_load64)
  have load: "mem_load m s (Suc ?L) = cs @ [0]" using assms(1) by (simp add: cstr_def)
  let ?body = "\<lambda>i m. let v = m (s + of_nat i); m = m(d + of_nat i := v) in if v = 0 then Inl m else Inr m"
  have body: "?body i (?S i) = (if i < ?L then Inr (?S (Suc i)) else Inl (?S (Suc i)))" if "i \<le> ?L" for i
    using that byte [OF that] read [OF order.refl that] cstr_nonzero [OF assms(1), of i] cstr_end [OF assms(1)]
    by (auto simp: Let_def order_le_less)
  have "scan3 never ?body (\<lambda>i m. let v = load64 m (s + of_nat i)
                   in if haszero v then None else Some (store64 m (d + of_nat i) v)) ?body s (?S 0)
      = Some (?S (Suc ?L))"
  proof (rule scan3_rule [of ?L])
    fix i assume i: "i \<le> ?L"
    show "(let v = load64 (?S i) (s + of_nat i)
           in if haszero v then None else Some (store64 (?S i) (d + of_nat i) v)) = None
        \<or> i + 8 \<le> ?L \<and> (let v = load64 (?S i) (s + of_nat i)
           in if haszero v then None else Some (store64 (?S i) (d + of_nat i) v)) = Some (?S (i + 8))"
      using last [OF i] step8 [of i] by (cases "i + 8 \<le> ?L") (auto simp: Let_def)
  qed (use body in \<open>auto simp: never_def\<close>)
  then show ?thesis by (simp add: strcpy_def Let_def load)
qed

text \<open>Two ranges of addresses that share no byte.\<close>

definition apart :: "uintptr_t \<Rightarrow> nat \<Rightarrow> uintptr_t \<Rightarrow> nat \<Rightarrow> bool" where
  "apart d n s k \<longleftrightarrow> (\<forall>i < n. \<forall>j < k. d + of_nat i \<noteq> s + of_nat j)"

lemma apart_above:
  assumes "unat s + k \<le> unat d" "unat d + n \<le> 2 ^ 64"
  shows "apart d n s k"
  unfolding apart_def
proof (intro allI impI)
  fix i j assume "i < n" "j < k"
  then have "unat (d + of_nat i) = unat d + i" "unat (s + of_nat j) = unat s + j"
    using assms unat_lt64 [of d] by (subst unat_add64; simp add: unat_of_nat64)+
  then have "unat (d + of_nat i) \<noteq> unat (s + of_nat j)" using \<open>j < k\<close> assms(1) by linarith
  then show "d + of_nat i \<noteq> s + of_nat j" by auto
qed

lemma apart_fwd_safe: "apart d n s k \<Longrightarrow> l \<le> n \<Longrightarrow> l \<le> k \<Longrightarrow> fwd_safe d s l"
  by (auto simp: apart_def fwd_safe_def)

lemma store_apart:
  assumes "apart d n s k" "length bs \<le> n" "j < k"
  shows "mem_store m d bs (s + of_nat j) = m (s + of_nat j)"
proof -
  have "\<not> unat (s + of_nat j - d) < length bs"
  proof
    assume "unat (s + of_nat j - d) < length bs"
    moreover have "d + of_nat (unat (s + of_nat j - d)) = s + of_nat j" by simp
    ultimately show False using assms unfolding apart_def by (metis less_le_trans)
  qed
  then show ?thesis by (simp add: mem_store_def)
qed

lemma cstr_store_apart:
  assumes "cstr m s cs" "apart d n s (length cs + 1)" "length bs \<le> n"
  shows "cstr (mem_store m d bs) s cs"
proof -
  have "mem_load (mem_store m d bs) s (length cs + 1) = mem_load m s (length cs + 1)"
    using store_apart [OF assms(2,3)] by (intro mem_load_cong) simp
  then show ?thesis using assms(1) by (simp add: cstr_def)
qed

lemma strlcpy_ok:
  assumes "cstr m s cs" "apart d n s (length cs + 1)" "0 < n" "n \<le> 2 ^ 64"
  shows "strlcpy m d s n = Some (length cs, mem_store m d (take (n - 1) cs @ [0]))"
proof -
  define L where "L = min (length cs) (n - 1)"
  let ?S = "copied m d s"
  have L: "L + 1 \<le> n" "L \<le> length cs" using assms(3) by (auto simp: L_def)
  have safe: "fwd_safe d s (L + 1)" using apart_fwd_safe [OF assms(2)] L by simp
  have read: "?S i (s + of_nat j) = m (s + of_nat j)" if "i \<le> j" "j \<le> L" for i j
    using copied_read [OF safe] that by simp
  have byte: "(?S i)(d + of_nat i := ?S i (s + of_nat i)) = ?S (Suc i)" if "i \<le> L" for i
    using copied_step [OF safe, of i 1] that assms(4) L by (simp add: fun_upd_load)
  have step8: "store64 (?S i) (d + of_nat i) (load64 (?S i) (s + of_nat i)) = ?S (i + 8)" if "i + 8 \<le> L" for i
    using copied_step [OF safe, of i 8] that assms(4) L by (simp add: store64_load64)
  have stop: "i + 8 \<le> L" if "i \<le> L" "i + 8 < n" "\<not> haszero (load64 (?S i) (s + of_nat i))" for i
  proof (rule ccontr)
    assume "\<not> i + 8 \<le> L"
    then have "L = length cs" "L < i + 8" using that(2) by (auto simp: L_def)
    then have "?S i (s + of_nat L) = 0" using read [OF that(1) order.refl] cstr_end [OF assms(1)] by simp
    then show False using haszero_last [OF that(1) \<open>L < i + 8\<close>] that(3) by blast
  qed
  let ?step = "\<lambda>i m. let v = m (s + of_nat i); m = m(d + of_nat i := v) in if v = 0 then Inl (Inl i, m) else Inr m"
  let ?pre = "\<lambda>i m. if i \<ge> n - 1 then Some (Inr i, m) else None"
  let ?tail = "\<lambda>i m. if i < n - 1 then ?step i m else Inl (Inr i, m)"
  let ?words = "\<lambda>i m. if i + 8 < n
                        then let v = load64 m (s + of_nat i)
                             in if haszero v then None else Some (store64 m (d + of_nat i) v)
                        else None"
  let ?r = "if length cs < n - 1 then (Inl L, ?S (Suc L)) else (Inr L, ?S L)"
  have step: "?step i (?S i) = (if i < length cs then Inr (?S (Suc i)) else Inl (Inl i, ?S (Suc i)))" if "i \<le> L" for i
    using that L(2) byte [OF that] read [OF order.refl that] cstr_nonzero [OF assms(1), of i] cstr_end [OF assms(1)]
    by (auto simp: Let_def order_le_less)
  have scan: "scan3 ?pre ?step ?words ?tail s (?S 0) = Some ?r"
  proof (rule scan3_rule [of L])
    fix i assume i: "i \<le> L"
    show "?words i (?S i) = None \<or> i + 8 \<le> L \<and> ?words i (?S i) = Some (?S (i + 8))"
      using stop [OF i] step8 [of i] by (auto simp: Let_def)
    show "?pre i (?S i) = None \<or> i = L \<and> ?pre i (?S i) = Some ?r" using i by (auto simp: L_def)
  next
    fix i assume "i < L"
    then have i: "i \<le> L" "i < length cs" "i < n - 1" by (auto simp: L_def)
    show "?step i (?S i) = Inr (?S (Suc i))" using step [OF i(1)] i(2) by simp
    then show "?tail i (?S i) = Inr (?S (Suc i))" using i(3) by simp
  next
    assume "?pre L (?S L) = None"
    then have "length cs < n - 1" "L = length cs" using L by (auto simp: L_def split: if_splits)
    then show "?step L (?S L) = Inl ?r" using step [OF order.refl] by simp
  next
    show "?tail L (?S L) = Inl ?r"
    proof (cases "length cs < n - 1")
      case True
      then have "L = length cs" "L < n - 1" by (auto simp: L_def)
      with True step [OF order.refl] show ?thesis by simp
    next
      case False
      then have "\<not> L < n - 1" by (simp add: L_def)
      with False show ?thesis by simp
    qed
  qed
  have load: "mem_load m s L = take (n - 1) cs" if "\<not> length cs < n - 1"
    using cstr_load [OF assms(1) L(2)] that by (simp add: L_def)
  have all: "mem_load m s (Suc L) = take (n - 1) cs @ [0]" if "length cs < n - 1"
    using that assms(1) by (simp add: L_def cstr_def)
  show ?thesis
  proof (cases "length cs < n - 1")
    case True
    moreover from this have "L = length cs" by (simp add: L_def)
    ultimately show ?thesis using scan all assms(3) by (simp add: strlcpy_def Let_def cong: if_cong)
  next
    case False
    then have Ln: "L = n - 1" by (simp add: L_def)
    have len: "length (take (n - 1) cs) = L" using False by (simp add: L_def)
    have m1: "(?S L)(d + of_nat L := 0) = mem_store m d (take (n - 1) cs @ [0])"
      unfolding load [OF False] fun_upd_store
      using mem_store_append [of "take (n - 1) cs" "[0]" m d, unfolded len] assms(3,4) Ln by simp
    have "cstr (mem_store m d (take (n - 1) cs @ [0])) s cs"
      using cstr_store_apart [OF assms(1,2)] assms(3) by simp
    then have "strlen (mem_store m d (take (n - 1) cs @ [0])) (s + of_nat L) = Some (length cs - L)"
      using strlen_ok [OF cstr_drop [OF _ L(2)]] by simp
    with scan False m1 assms(3) L(2) show ?thesis by (simp add: strlcpy_def Let_def cong: if_cong)
  qed
qed

lemma strcat_ok:
  assumes "cstr m d ds" "cstr m s cs" "fwd_safe (d + of_nat (length ds)) s (length cs + 1)" "length cs < 2 ^ 64"
  shows "strcat m d s = Some (mem_store m (d + of_nat (length ds)) (cs @ [0]))"
  using strlen_ok [OF assms(1)] strcpy_ok [OF assms(2-4)] by (simp add: strcat_def)

section \<open>Searching and comparing strings\<close>

text \<open>The index at which a scan for \<open>c\<close> or the end of the string stops.\<close>

definition stop_at :: "u8 list \<Rightarrow> u8 \<Rightarrow> nat" where
  "stop_at cs c = length (takeWhile (\<lambda>x. x \<noteq> c) cs)"

lemma stop_at_bounds: "stop_at cs c \<le> length cs"
  by (simp add: stop_at_def length_takeWhile_le)

lemma stop_at_before: "i < stop_at cs c \<Longrightarrow> cs ! i \<noteq> c"
  unfolding stop_at_def by (induction cs arbitrary: i) (auto simp: nth_Cons split: nat.split if_splits)

lemma stop_at_hit: "stop_at cs c < length cs \<Longrightarrow> cs ! stop_at cs c = c"
  unfolding stop_at_def using nth_length_takeWhile by fastforce

lemma stop_at_word:
  assumes "cstr m s cs" "i \<le> stop_at cs c" "\<not> haszero (load64 m (s + of_nat i))"
    and "\<not> haszero (load64 m (s + of_nat i) XOR fillsize c)"
  shows "i + 8 \<le> stop_at cs c"
proof (rule ccontr)
  assume less: "\<not> i + 8 \<le> stop_at cs c"
  let ?L = "stop_at cs c"
  have len: "i + 8 \<le> length cs" using word_stop [OF assms(1) _ assms(3)] assms(2) stop_at_bounds order.trans by blast
  then have "m (s + of_nat ?L) = c" using less stop_at_hit [of cs c] cstr_nth [OF assms(1), of ?L] by simp
  moreover have "s + of_nat i + of_nat (?L - i) = s + of_nat ?L"
    using assms(2) by (simp only: add.assoc of_nat_add [symmetric] le_add_diff_inverse)
  moreover have "?L - i < 8" using less by linarith
  ultimately show False using assms(4) unfolding haszero_xor by metis
qed

lemma strchr_ok:
  assumes "cstr m s cs"
  shows "strchr m s c = Some (if ucast c \<in> set (cs @ [0]) then Some (s + of_nat (stop_at cs (ucast c))) else None)"
proof -
  let ?L = "stop_at cs (ucast c)"
  let ?c = "ucast c :: u8"
  have before: "m (s + of_nat i) \<noteq> ?c" "m (s + of_nat i) \<noteq> 0" if "i < ?L" for i
    using that stop_at_before [OF that] stop_at_bounds [of cs ?c] cstr_nth [OF assms, of i] cstr_nonzero [OF assms, of i]
    by simp_all
  have at: "m (s + of_nat ?L) = (if ?L < length cs then ?c else 0)"
    using stop_at_hit [of cs ?c] stop_at_bounds [of cs ?c] cstr_nth [OF assms, of ?L] cstr_end [OF assms]
    by (auto simp: order_le_less)
  have mem: "?L < length cs \<longleftrightarrow> ?c \<in> set cs"
    unfolding stop_at_def by (induction cs) auto
  show ?thesis unfolding strchr_def
  proof (rule scan3_rule [of ?L _ "\<lambda>_. ()"])
    fix i assume "i \<le> ?L"
    then show "(let v = load64 m (s + of_nat i) in if haszero v then None
          else if haszero (v XOR fillsize ?c) then None else Some ()) = None \<or> i + 8 \<le> ?L \<and>
        (let v = load64 m (s + of_nat i) in if haszero v then None
          else if haszero (v XOR fillsize ?c) then None else Some ()) = Some ()"
      using stop_at_word [OF assms, of i ?c] by (auto simp: Let_def)
  qed (use before at mem in \<open>auto simp: never_def Let_def split: if_splits\<close>)
qed

lemma strchrnul_ok:
  assumes "cstr m s cs"
  shows "strchrnul m s c = Some (s + of_nat (stop_at cs (ucast c)))"
proof -
  let ?L = "stop_at cs (ucast c)"
  let ?c = "ucast c :: u8"
  have before: "m (s + of_nat i) \<noteq> ?c" "m (s + of_nat i) \<noteq> 0" if "i < ?L" for i
    using that stop_at_before [OF that] stop_at_bounds [of cs ?c] cstr_nth [OF assms, of i] cstr_nonzero [OF assms, of i]
    by simp_all
  have at: "m (s + of_nat ?L) = (if ?L < length cs then ?c else 0)"
    using stop_at_hit [of cs ?c] stop_at_bounds [of cs ?c] cstr_nth [OF assms, of ?L] cstr_end [OF assms]
    by (auto simp: order_le_less)
  show ?thesis unfolding strchrnul_def Let_def
  proof (rule scan3_rule [of ?L _ "\<lambda>_. ()"])
    fix i assume "i \<le> ?L"
    then show "(if haszero (load64 m (s + of_nat i)) then None
          else if haszero (load64 m (s + of_nat i) XOR fillsize ?c) then None else Some ()) = None \<or> i + 8 \<le> ?L \<and>
        (if haszero (load64 m (s + of_nat i)) then None
          else if haszero (load64 m (s + of_nat i) XOR fillsize ?c) then None else Some ()) = Some ()"
      using stop_at_word [OF assms, of i ?c] by auto
  qed (use before at in \<open>auto simp: never_def split: if_splits\<close>)
qed

text \<open>The difference of the first bytes that differ, the NUL included.\<close>

fun byte_diff :: "u8 list \<Rightarrow> u8 list \<Rightarrow> int" where
  "byte_diff [] [] = 0"
| "byte_diff (a # as) [] = uint a"
| "byte_diff [] (b # bs) = - uint b"
| "byte_diff (a # as) (b # bs) = (if a = b then byte_diff as bs else uint a - uint b)"

lemma cstr_Nil: "cstr m s [] \<longleftrightarrow> m s = 0"
  by (simp add: cstr_def mem_load_def)

lemma mem_load_Suc: "mem_load m s (Suc n) = m s # mem_load m (s + 1) n"
  by (simp add: mem_load_def upt_conv_Cons map_Suc_upt [symmetric] ac_simps del: upt_Suc)

lemma cstr_Cons: "cstr m s (c # cs) \<longleftrightarrow> m s = c \<and> c \<noteq> 0 \<and> cstr m (s + 1) cs"
  by (auto simp: cstr_def mem_load_Suc)

lemma strcmp_scan:
  assumes "cstr m (s1 + of_nat i) as" "cstr m (s2 + of_nat i) bs"
    and body: "\<And>i. body i () = (let a = m (s1 + of_nat i); b = m (s2 + of_nat i)
       in if a \<noteq> 0 \<and> b \<noteq> 0 \<and> a = b then Inr () else Inl (uint a - uint b))"
  shows "scan_tail body i () = Some (byte_diff as bs)"
  using assms(1,2)
proof (induction as bs arbitrary: i rule: byte_diff.induct)
  case (4 a as b bs)
  then have "cstr m (s1 + of_nat (i + 1)) as" "cstr m (s2 + of_nat (i + 1)) bs"
    by (simp_all add: cstr_Cons ac_simps)
  then have IH: "a = b \<Longrightarrow> scan_tail body (i + 1) () = Some (byte_diff as bs)" using "4.IH" by blast
  have "m (s1 + of_nat i) = a" "m (s2 + of_nat i) = b" "a \<noteq> 0" "b \<noteq> 0" using "4.prems" by (simp_all add: cstr_Cons)
  then show ?case using IH by (subst scan_tail.simps) (simp add: body)
qed (subst scan_tail.simps, simp add: cstr_Nil cstr_Cons body)+

lemma strcmp_ok:
  assumes "cstr m s1 as" "cstr m s2 bs"
  shows "strcmp m s1 s2 = Some (byte_diff as bs)"
  unfolding strcmp_def by (rule strcmp_scan) (use assms in simp_all)

lemma byte_diff_zero:
  assumes "0 \<notin> set as" "0 \<notin> set bs"
  shows "byte_diff as bs = 0 \<longleftrightarrow> as = bs"
  using assms by (induction as bs rule: byte_diff.induct) (auto simp: unsigned_eq_0_iff dest: word_uint_eqI)

lemma byte_diff_less:
  assumes "0 \<notin> set as" "0 \<notin> set bs"
  shows "byte_diff as bs < 0 \<longleftrightarrow> (as, bs) \<in> lexord {(a, b). a < b}"
  using assms
  by (induction as bs rule: byte_diff.induct) (auto simp: word_less_def word_gt_0 not_less unsigned_greater_eq order_less_le unsigned_eq_0_iff)

section \<open>Numbers\<close>

lemma scan_while:
  assumes "cstr m (s + of_nat i) cs" "\<not> P 0"
    and body: "\<And>i st. body i st = (if P (m (s + of_nat i)) then Inr (f st (m (s + of_nat i))) else Inl (g i st))"
  shows "scan_tail body i st = Some (g (i + length (takeWhile P cs)) (foldl f st (takeWhile P cs)))"
  using assms(1)
proof (induction cs arbitrary: i st)
  case Nil
  then show ?case using assms(2) by (subst scan_tail.simps) (simp add: body cstr_Nil)
next
  case (Cons c cs)
  then have c: "m (s + of_nat i) = c" "cstr m (s + of_nat (i + 1)) cs" by (simp_all add: cstr_Cons ac_simps)
  show ?case using c(1) Cons.IH [OF c(2)] by (subst scan_tail.simps) (simp add: body [of i st])
qed

definition decimal_digit :: "u8 \<Rightarrow> bool" where
  "decimal_digit c \<longleftrightarrow> 0x30 \<le> c \<and> c \<le> 0x39"

definition decimal_value :: "u8 list \<Rightarrow> nat" where
  "decimal_value ds = foldl (\<lambda>r c. r * 10 + (unat c - 0x30)) 0 ds"

lemma uint_sint_u8: "uint c = (if sint c < 0 then sint c + 256 else sint c)" for c :: u8
proof -
  have c: "uint c = sint c mod 256" "- 128 \<le> sint c" "sint c < 128"
    using uint_sint [of c] sint_ge [of c] sint_lt [of c] by (simp_all add: take_bit_eq_mod)
  show ?thesis
  proof (cases "sint c < 0")
    case True
    then have "(sint c + 256) mod 256 = sint c + 256" using c(2) by (intro mod_pos_pos_trivial) simp_all
    with True c(1) show ?thesis by simp
  qed (use c in simp)
qed

lemma sint_ge_u8: "- 128 \<le> sint c" for c :: u8
  using sint_ge [of c] by simp

lemma decimal_digit_sint: "decimal_digit c \<longleftrightarrow> sint c \<ge> 0x30 \<and> sint c \<le> 0x39"
  using uint_sint_u8 [of c] sint_ge_u8 [of c] unfolding decimal_digit_def word_le_def by (simp split: if_splits)

lemma decimal_digit_scast: "decimal_digit c \<Longrightarrow> (scast c :: u32) - 0x30 = of_nat (unat c - 0x30)"
proof -
  assume d: "decimal_digit c"
  then have "0x30 \<le> unat c" by (simp add: decimal_digit_def word_le_nat_alt)
  moreover have "sint c = uint c"
    using d uint_sint_u8 [of c] unfolding decimal_digit_sint by simp
  then have "of_int (sint c) = (of_int (uint c) :: u32)" by (simp only:)
  then have "(scast c :: u32) = of_nat (unat c)" by simp
  ultimately show ?thesis by (simp add: of_nat_diff)
qed

text \<open>A number as \<open>atoi\<close> accepts it: blanks, a sign, digits, and anything that is not a digit.\<close>

definition numeral_text :: "u8 list \<Rightarrow> u8 list \<Rightarrow> u8 list \<Rightarrow> u8 list \<Rightarrow> bool" where
  "numeral_text ws sg ds rest \<longleftrightarrow>
     list_all (\<lambda>c. isspace (sint c)) ws \<and> sg \<in> {[], [0x2b], [0x2d]} \<and>
     ds \<noteq> [] \<and> list_all decimal_digit ds \<and> (case rest of [] \<Rightarrow> True | c # _ \<Rightarrow> \<not> decimal_digit c)"

lemma takeWhile_prefix:
  assumes "list_all P xs" "case ys of [] \<Rightarrow> True | y # _ \<Rightarrow> \<not> P y"
  shows "takeWhile P (xs @ ys) = xs"
  using assms by (induction xs) (auto split: list.splits)

lemma foldl_digits:
  assumes "list_all decimal_digit ds"
  shows "foldl (\<lambda>result c. result * 10 + scast c - 0x30) (of_nat v) ds
    = (of_nat (foldl (\<lambda>r c. r * 10 + (unat c - 0x30)) v ds) :: u32)"
  using assms
proof (induction ds arbitrary: v)
  case (Cons c ds)
  have "of_nat v * 10 + scast c - 0x30 = of_nat v * 10 + (scast c - 0x30 :: u32)" by simp
  also have "\<dots> = of_nat (v * 10 + (unat c - 0x30))"
    using decimal_digit_scast [of c] Cons.prems by (simp del: of_nat_diff)
  finally have step: "of_nat v * 10 + scast c - 0x30 = (of_nat (v * 10 + (unat c - 0x30)) :: u32)" .
  show ?case using Cons.IH [of "v * 10 + (unat c - 0x30)"] Cons.prems unfolding foldl.simps step by simp
qed simp

lemma decimal_value_zeros: "decimal_value (dropWhile (\<lambda>c. c = 0x30) ds) = decimal_value ds"
  unfolding decimal_value_def by (induction ds) auto

lemma takeWhile_zeros:
  assumes "list_all decimal_digit ds" "case rest of [] \<Rightarrow> True | c # _ \<Rightarrow> \<not> decimal_digit c"
  shows "takeWhile decimal_digit (dropWhile (\<lambda>c. c = 0x30) (ds @ rest)) = dropWhile (\<lambda>c. c = 0x30) ds"
  using assms
proof (induction ds)
  case Nil
  then show ?case by (cases rest) (auto simp: decimal_digit_def)
qed (auto intro: takeWhile_prefix)

lemma atoi_ok:
  assumes "cstr m s (ws @ sg @ ds @ rest)" "numeral_text ws sg ds rest"
  shows "atoi m s = Some (is_neg_result (sg = [0x2d]) (of_nat (decimal_value ds)))"
proof -
  note num = assms(2) [unfolded numeral_text_def]
  let ?cs = "ws @ sg @ ds @ rest" and ?sp = "\<lambda>c :: u8. c \<noteq> 0 \<and> isspace (sint c)"
  let ?n = "length ws" and ?k = "length ws + length sg" and ?z = "takeWhile (\<lambda>c. c = 0x30) (ds @ rest)"
  obtain d ds' where ds: "ds = d # ds'" "decimal_digit d" using num by (cases ds) auto
  have d: "\<not> isspace (sint d)" "d \<noteq> 0x2b" "d \<noteq> 0x2d"
    using ds(2) unfolding decimal_digit_sint isspace_def by auto
  have ws: "list_all ?sp ws" using num assms(1) by (auto simp: cstr_def list_all_iff)
  have nsp: "takeWhile ?sp ?cs = ws"
    by (rule takeWhile_prefix [OF ws]) (use num d ds in \<open>auto simp: isspace_def\<close>)
  have 1: "scan_tail (\<lambda>i _. if m (s + of_nat i) \<noteq> 0 \<and> isspace (sint (m (s + of_nat i)))
      then Inr () else Inl i) 0 () = Some ?n"
    using scan_while [of m s 0 ?cs ?sp _ "\<lambda>_ _. ()" "\<lambda>i _. i" "()"] assms(1) nsp by simp
  have tl: "cstr m (s + of_nat ?n) (sg @ ds @ rest)" "cstr m (s + of_nat ?k) (ds @ rest)"
    using cstr_drop [OF assms(1), of ?n] cstr_drop [OF assms(1), of ?k] by simp_all
  have hd: "m (s + of_nat ?n) = hd (sg @ ds)" using tl(1) num ds by (auto simp: cstr_Cons)
  have 2: "scan_tail (\<lambda>i _. if m (s + of_nat i) = 0x30 then Inr () else Inl i) ?k () = Some (?k + length ?z)"
    using scan_while [of m s ?k "ds @ rest" "\<lambda>c. c = 0x30" _ "\<lambda>_ _. ()" "\<lambda>i _. i" "()"] tl(2) by simp
  have drop: "cstr m (s + of_nat (?k + length ?z)) (dropWhile (\<lambda>c. c = 0x30) (ds @ rest))"
    using cstr_drop [OF tl(2) length_takeWhile_le] by (simp add: ac_simps dropWhile_eq_drop)
  have digits: "takeWhile decimal_digit (dropWhile (\<lambda>c. c = 0x30) (ds @ rest)) = dropWhile (\<lambda>c. c = 0x30) ds"
    using num takeWhile_zeros by blast
  have 3: "scan_tail (\<lambda>i result. if m (s + of_nat i) \<noteq> 0
                    then if sint (m (s + of_nat i)) \<ge> 0x30 \<and> sint (m (s + of_nat i)) \<le> 0x39
                         then Inr (result * 10 + scast (m (s + of_nat i)) - 0x30)
                         else Inl (is_neg_result neg result)
                    else Inl (is_neg_result neg result)) (?k + length ?z) 0
      = Some (is_neg_result neg (of_nat (decimal_value ds)))" for neg
  proof -
    have "list_all decimal_digit (dropWhile (\<lambda>c. c = 0x30) ds)"
      using num by (auto simp: list_all_iff dest: set_dropWhileD)
    from foldl_digits [OF this, of 0]
    have "foldl (\<lambda>result c. result * 10 + scast c - 0x30) 0 (dropWhile (\<lambda>c. c = 0x30) ds) = (of_nat (decimal_value ds) :: u32)"
      by (simp add: decimal_value_zeros flip: decimal_value_def)
    with scan_while [OF drop, of decimal_digit _ "\<lambda>result c. result * 10 + scast c - 0x30" "\<lambda>_. is_neg_result neg"]
    show ?thesis unfolding digits by (auto simp: decimal_digit_sint)
  qed
  have k: "(if hd (sg @ ds) = 0x2b \<or> hd (sg @ ds) = 0x2d then ?n + 1 else ?n) = ?k"
    "(hd (sg @ ds) = 0x2d) = (sg = [0x2d])" using num ds d by auto
  show ?thesis unfolding atoi_def 1 Option.bind.bind_lunit hd Let_def k(1) unfolding k(2) 2 Option.bind.bind_lunit 3 ..
qed

section \<open>Properties\<close>

text \<open>
  The length of a string is the number of its bytes before the NUL, whatever its alignment and whatever
  lies after it in the last word read: the word-at-a-time \<^verbatim>\<open>strlen\<close> agrees with the byte-wise definition,
  and \<^verbatim>\<open>strnlen\<close> is its minimum with the bound.
\<close>

lemma strlen_exact:
  assumes "cstr m s cs"
  shows "strlen m s = Some (length cs) \<and> strnlen m s n = Some (min n (length cs))"
  using strlen_ok [OF assms] strnlen_ok [OF assms] by blast

definition hello_mem :: mem where
  "hello_mem = mem_store (\<lambda>_. 0xff) 0x1003 [104, 101, 108, 108, 111, 44, 32, 119, 111, 114, 108, 100, 0]"

lemma strlen_exact_witness: "strlen hello_mem 0x1003 = Some 12 \<and> strnlen hello_mem 0x1003 5 = Some 5"
proof -
  have "cstr hello_mem 0x1003 [104, 101, 108, 108, 111, 44, 32, 119, 111, 114, 108, 100]" by code_simp
  from strlen_exact [OF this, of 5] show ?thesis by simp
qed

text \<open>
  C25. \<^verbatim>\<open>strlcpy\<close> into a buffer of \<open>n > 0\<close> bytes apart from the source stores the longest prefix that leaves
  room for a NUL, and the NUL, changes no byte outside the buffer, and returns the length of the source, so
  that a caller sees truncation.
\<close>

theorem strlcpy_truncates:
  assumes "cstr m s cs" "apart d n s (length cs + 1)" "0 < n" "n \<le> 2 ^ 64"
  shows "\<exists>m'. strlcpy m d s n = Some (length cs, m') \<and> cstr m' d (take (n - 1) cs) \<and> cstr m' s cs
    \<and> (\<forall>a. n \<le> unat (a - d) \<longrightarrow> m' a = m a)"
proof -
  let ?bs = "take (n - 1) cs @ [0]"
  have len: "length ?bs \<le> n" using assms(3) by simp
  have "mem_load (mem_store m d ?bs) d (length ?bs) = ?bs" using mem_load_store_same [of ?bs m d] len assms(4) by simp
  then have "cstr (mem_store m d ?bs) d (take (n - 1) cs)"
    using assms(1) unfolding cstr_def by (auto dest: in_set_takeD)
  moreover have "cstr (mem_store m d ?bs) s cs" using cstr_store_apart [OF assms(1,2) len] .
  moreover have "mem_store m d ?bs a = m a" if "n \<le> unat (a - d)" for a
    using that len by (auto simp: mem_store_def)
  ultimately show ?thesis using strlcpy_ok [OF assms] by auto
qed

theorem strlcpy_truncates_witness:
  "\<exists>m'. strlcpy hello_mem 0x2000 0x1003 6 = Some (12, m') \<and> cstr m' 0x2000 [104, 101, 108, 108, 111]"
proof -
  have "cstr hello_mem 0x1003 [104, 101, 108, 108, 111, 44, 32, 119, 111, 114, 108, 100]" by code_simp
  moreover have "apart 0x2000 6 0x1003 (length [104, 101, 108, 108, 111, 44, 32, 119, 111, 114, 108, 100 :: u8] + 1)"
    by (rule apart_above) simp_all
  ultimately show ?thesis using strlcpy_truncates [of hello_mem "0x1003" "[104, 101, 108, 108, 111, 44, 32, 119, 111, 114, 108, 100]" "0x2000" 6]
    by auto
qed

text \<open>
  \<^verbatim>\<open>strcmp\<close> of two strings returns, and orders them: zero exactly for equal strings, negative exactly
  when the first comes first in the lexicographic order of unsigned bytes.
\<close>

lemma strcmp_orders:
  assumes "cstr m s1 as" "cstr m s2 bs"
  shows "\<exists>x. strcmp m s1 s2 = Some x \<and> (x = 0 \<longleftrightarrow> as = bs) \<and> (x < 0 \<longleftrightarrow> (as, bs) \<in> lexord {(a, b). a < b})"
proof -
  have "0 \<notin> set as" "0 \<notin> set bs" using assms by (simp_all add: cstr_def)
  then show ?thesis using strcmp_ok [OF assms] byte_diff_zero byte_diff_less by simp
qed

lemma strcmp_orders_witness: "\<exists>x. strcmp hello_mem 0x1003 0x1007 = Some x \<and> x < 0"
proof -
  have "cstr hello_mem 0x1003 [104, 101, 108, 108, 111, 44, 32, 119, 111, 114, 108, 100]"
    "cstr hello_mem 0x1007 [111, 44, 32, 119, 111, 114, 108, 100]" by code_simp+
  from strcmp_orders [OF this] show ?thesis by auto
qed

text \<open>
  \<^verbatim>\<open>atoi\<close> reads decimal numbers: blanks, an optional sign and digits, leading zeros included, up to the
  first other character or the end of the string, give the number's value modulo \<open>2 ^ 32\<close>.
\<close>

lemma atoi_decimal:
  assumes "cstr m s (ws @ sg @ ds @ rest)" "numeral_text ws sg ds rest"
  shows "\<exists>x. atoi m s = Some x \<and> x = of_int ((if sg = [0x2d] then - 1 else 1) * int (decimal_value ds))"
  using atoi_ok [OF assms] by (simp add: is_neg_result_def)

lemma atoi_decimal_witness:
  "\<exists>x. atoi (mem_store (\<lambda>_. 0xff) 0x1003 [32, 45, 48, 52, 50, 120, 0]) 0x1003 = Some x \<and> x = of_int (- 42)"
proof -
  let ?m = "mem_store (\<lambda>_. 0xff) 0x1003 [32, 45, 48, 52, 50, 120, 0]"
  have "cstr ?m 0x1003 ([32] @ [45] @ [48, 52, 50] @ [120])" by code_simp
  moreover have "numeral_text [32] [45] [48, 52, 50] [120]" by code_simp
  moreover have "decimal_value [48, 52, 50] = 42" by code_simp
  ultimately show ?thesis using atoi_decimal [of ?m "0x1003" "[32]" "[45]" "[48, 52, 50]" "[120]"] by simp
qed

text \<open>
  The character classes fit together on every \<^verbatim>\<open>int\<close>: the printable characters are the graphic ones and
  the blank, the graphic ones are the alphanumeric ones and the punctuation, which do not meet; the letters
  are the upper and lower case ones, which \<^verbatim>\<open>toupper\<close> and \<^verbatim>\<open>tolower\<close> carry into each other; and every
  character is either printable or a control character.
\<close>

theorem ctype_classes:
  "isprint c = (isgraph c \<or> c = 0x20) \<and> isgraph c = (isalnum c \<or> ispunct c) \<and> \<not> (isalnum c \<and> ispunct c)
    \<and> isalnum c = (isalpha c \<or> isdigit c) \<and> isalpha c = (islower c \<or> isupper c) \<and> isprint c = (\<not> iscntrl c)
    \<and> islower (tolower c) = isalpha c \<and> isupper (toupper c) = isalpha c
    \<and> (isupper c \<or> toupper (tolower c) = toupper c) \<and> tolower (toupper c) = tolower c"
  unfolding isprint_def isgraph_def isalnum_def ispunct_def isalpha_def isdigit_def islower_def isupper_def
    iscntrl_def toupper_def tolower_def by presburger

end
