(* ===== verification/Endian.thy ===== *)
theory Endian
  imports Kmem
begin

text \<open>
  Byte order (net/include/endian.h): integers of 16, 32 and 64 bits read from and written to memory in both
  byte orders, and the byte swaps between the host's order, little endian here, and the two.
\<close>

section \<open>Reading\<close>

definition be16dec :: "mem \<Rightarrow> uintptr_t \<Rightarrow> u16" where
  "be16dec m p =
     push_bit 8 (ucast (m p))
     OR push_bit 0 (ucast (m (p + 1)))"

definition be32dec :: "mem \<Rightarrow> uintptr_t \<Rightarrow> u32" where
  "be32dec m p =
     push_bit 24 (ucast (m p))
     OR push_bit 16 (ucast (m (p + 1)))
     OR push_bit 8 (ucast (m (p + 2)))
     OR push_bit 0 (ucast (m (p + 3)))"

definition be64dec :: "mem \<Rightarrow> uintptr_t \<Rightarrow> u64" where
  "be64dec m p =
     push_bit 56 (ucast (m p))
     OR push_bit 48 (ucast (m (p + 1)))
     OR push_bit 40 (ucast (m (p + 2)))
     OR push_bit 32 (ucast (m (p + 3)))
     OR push_bit 24 (ucast (m (p + 4)))
     OR push_bit 16 (ucast (m (p + 5)))
     OR push_bit 8 (ucast (m (p + 6)))
     OR push_bit 0 (ucast (m (p + 7)))"

definition le16dec :: "mem \<Rightarrow> uintptr_t \<Rightarrow> u16" where
  "le16dec m p =
     push_bit 0 (ucast (m p))
     OR push_bit 8 (ucast (m (p + 1)))"

definition le32dec :: "mem \<Rightarrow> uintptr_t \<Rightarrow> u32" where
  "le32dec m p =
     push_bit 0 (ucast (m p))
     OR push_bit 8 (ucast (m (p + 1)))
     OR push_bit 16 (ucast (m (p + 2)))
     OR push_bit 24 (ucast (m (p + 3)))"

definition le64dec :: "mem \<Rightarrow> uintptr_t \<Rightarrow> u64" where
  "le64dec m p =
     push_bit 0 (ucast (m p))
     OR push_bit 8 (ucast (m (p + 1)))
     OR push_bit 16 (ucast (m (p + 2)))
     OR push_bit 24 (ucast (m (p + 3)))
     OR push_bit 32 (ucast (m (p + 4)))
     OR push_bit 40 (ucast (m (p + 5)))
     OR push_bit 48 (ucast (m (p + 6)))
     OR push_bit 56 (ucast (m (p + 7)))"

section \<open>Writing\<close>

definition be16enc :: "mem \<Rightarrow> uintptr_t \<Rightarrow> u16 \<Rightarrow> mem" where
  "be16enc m p v = m(p := ucast (drop_bit 8 v),
     p + 1 := ucast (drop_bit 0 v))"

definition be32enc :: "mem \<Rightarrow> uintptr_t \<Rightarrow> u32 \<Rightarrow> mem" where
  "be32enc m p v = m(p := ucast (drop_bit 24 v),
     p + 1 := ucast (drop_bit 16 v),
     p + 2 := ucast (drop_bit 8 v),
     p + 3 := ucast (drop_bit 0 v))"

definition be64enc :: "mem \<Rightarrow> uintptr_t \<Rightarrow> u64 \<Rightarrow> mem" where
  "be64enc m p v = m(p := ucast (drop_bit 56 v),
     p + 1 := ucast (drop_bit 48 v),
     p + 2 := ucast (drop_bit 40 v),
     p + 3 := ucast (drop_bit 32 v),
     p + 4 := ucast (drop_bit 24 v),
     p + 5 := ucast (drop_bit 16 v),
     p + 6 := ucast (drop_bit 8 v),
     p + 7 := ucast (drop_bit 0 v))"

definition le16enc :: "mem \<Rightarrow> uintptr_t \<Rightarrow> u16 \<Rightarrow> mem" where
  "le16enc m p v = m(p := ucast (drop_bit 0 v),
     p + 1 := ucast (drop_bit 8 v))"

definition le32enc :: "mem \<Rightarrow> uintptr_t \<Rightarrow> u32 \<Rightarrow> mem" where
  "le32enc m p v = m(p := ucast (drop_bit 0 v),
     p + 1 := ucast (drop_bit 8 v),
     p + 2 := ucast (drop_bit 16 v),
     p + 3 := ucast (drop_bit 24 v))"

definition le64enc :: "mem \<Rightarrow> uintptr_t \<Rightarrow> u64 \<Rightarrow> mem" where
  "le64enc m p v = m(p := ucast (drop_bit 0 v),
     p + 1 := ucast (drop_bit 8 v),
     p + 2 := ucast (drop_bit 16 v),
     p + 3 := ucast (drop_bit 24 v),
     p + 4 := ucast (drop_bit 32 v),
     p + 5 := ucast (drop_bit 40 v),
     p + 6 := ucast (drop_bit 48 v),
     p + 7 := ucast (drop_bit 56 v))"

section \<open>Swapping\<close>

definition swap16 :: "u16 \<Rightarrow> u16" where
  "swap16 v =
     drop_bit 8 (v AND 0xFF00)
     OR push_bit 8 (v AND 0x00FF)"

definition swap32 :: "u32 \<Rightarrow> u32" where
  "swap32 v =
     drop_bit 24 (v AND 0xFF000000)
     OR drop_bit 8 (v AND 0x00FF0000)
     OR push_bit 8 (v AND 0x0000FF00)
     OR push_bit 24 (v AND 0x000000FF)"

definition swap64 :: "u64 \<Rightarrow> u64" where
  "swap64 v =
     drop_bit 56 (v AND 0xFF00000000000000)
     OR drop_bit 40 (v AND 0x00FF000000000000)
     OR drop_bit 24 (v AND 0x0000FF0000000000)
     OR drop_bit 8 (v AND 0x000000FF00000000)
     OR push_bit 8 (v AND 0x00000000FF000000)
     OR push_bit 24 (v AND 0x0000000000FF0000)
     OR push_bit 40 (v AND 0x000000000000FF00)
     OR push_bit 56 (v AND 0x00000000000000FF)"

text \<open>The host is little endian.\<close>

definition htobe16 :: "u16 \<Rightarrow> u16" where
  "htobe16 v = swap16 v"

definition htobe32 :: "u32 \<Rightarrow> u32" where
  "htobe32 v = swap32 v"

definition htobe64 :: "u64 \<Rightarrow> u64" where
  "htobe64 v = swap64 v"

definition be16toh :: "u16 \<Rightarrow> u16" where
  "be16toh v = htobe16 v"

definition be32toh :: "u32 \<Rightarrow> u32" where
  "be32toh v = htobe32 v"

definition be64toh :: "u64 \<Rightarrow> u64" where
  "be64toh v = htobe64 v"

definition htole16 :: "u16 \<Rightarrow> u16" where
  "htole16 v = v"

definition htole32 :: "u32 \<Rightarrow> u32" where
  "htole32 v = v"

definition htole64 :: "u64 \<Rightarrow> u64" where
  "htole64 v = v"

definition le16toh :: "u16 \<Rightarrow> u16" where
  "le16toh v = htole16 v"

definition le32toh :: "u32 \<Rightarrow> u32" where
  "le32toh v = htole32 v"

definition le64toh :: "u64 \<Rightarrow> u64" where
  "le64toh v = htole64 v"

section \<open>Lemmas\<close>

text \<open>A byte of an integer, put back in place.\<close>

lemma bit_byte_place:
  "bit (push_bit k (ucast (ucast (drop_bit k v) :: u8)) :: 'a word) n \<longleftrightarrow> k \<le> n \<and> n < k + 8 \<and> bit v n"
  for v :: "'a::len word"
  using bit_imp_le_length [of v n] by (auto simp: bit_simps)

lemma bit_byte_low: "bit (ucast (ucast v :: u8) :: 'a word) n \<longleftrightarrow> n < 8 \<and> bit v n" for v :: "'a::len word"
  using bit_imp_le_length [of v n] by (auto simp: bit_simps)

lemmas join = bit_byte_place bit_byte_low bit_or_iff

lemma be16dec_enc: "be16dec (be16enc m p v) p = v"
proof (rule bit_eqI)
  fix n assume "possible_bit TYPE(16 word) n"
  then have "n < 16" by simp
  then show "bit (be16dec (be16enc m p v) p) n = bit v n"
    by (auto simp: be16dec_def be16enc_def join)
qed

lemma le16dec_enc: "le16dec (le16enc m p v) p = v"
proof (rule bit_eqI)
  fix n assume "possible_bit TYPE(16 word) n"
  then have "n < 16" by simp
  then show "bit (le16dec (le16enc m p v) p) n = bit v n"
    by (auto simp: le16dec_def le16enc_def join)
qed

lemma be32dec_enc: "be32dec (be32enc m p v) p = v"
proof (rule bit_eqI)
  fix n assume "possible_bit TYPE(32 word) n"
  then have "n < 32" by simp
  then show "bit (be32dec (be32enc m p v) p) n = bit v n"
    by (auto simp: be32dec_def be32enc_def join)
qed

lemma le32dec_enc: "le32dec (le32enc m p v) p = v"
proof (rule bit_eqI)
  fix n assume "possible_bit TYPE(32 word) n"
  then have "n < 32" by simp
  then show "bit (le32dec (le32enc m p v) p) n = bit v n"
    by (auto simp: le32dec_def le32enc_def join)
qed

lemma be64dec_enc: "be64dec (be64enc m p v) p = v"
proof (rule bit_eqI)
  fix n assume "possible_bit TYPE(64 word) n"
  then have "n < 64" by simp
  then show "bit (be64dec (be64enc m p v) p) n = bit v n"
    by (auto simp: be64dec_def be64enc_def join)
qed

lemma le64dec_enc: "le64dec (le64enc m p v) p = v"
proof (rule bit_eqI)
  fix n assume "possible_bit TYPE(64 word) n"
  then have "n < 64" by simp
  then show "bit (le64dec (le64enc m p v) p) n = bit v n"
    by (auto simp: le64dec_def le64enc_def join)
qed

text \<open>Swapping turns one byte order into the other.\<close>

lemma swap_masks:
  "swap16 v16 = drop_bit 8 (v16 AND push_bit 8 (mask 8)) OR push_bit 8 (v16 AND mask 8)"
  "swap32 v32 = drop_bit 24 (v32 AND push_bit 24 (mask 8)) OR drop_bit 8 (v32 AND push_bit 16 (mask 8))
     OR push_bit 8 (v32 AND push_bit 8 (mask 8)) OR push_bit 24 (v32 AND mask 8)"
  "swap64 v64 = drop_bit 56 (v64 AND push_bit 56 (mask 8)) OR drop_bit 40 (v64 AND push_bit 48 (mask 8))
     OR drop_bit 24 (v64 AND push_bit 40 (mask 8)) OR drop_bit 8 (v64 AND push_bit 32 (mask 8))
     OR push_bit 8 (v64 AND push_bit 24 (mask 8)) OR push_bit 24 (v64 AND push_bit 16 (mask 8))
     OR push_bit 40 (v64 AND push_bit 8 (mask 8)) OR push_bit 56 (v64 AND mask 8)"
  unfolding swap16_def swap32_def swap64_def mask_eq_exp_minus_1 by (simp_all add: push_bit_eq_mult)

lemma byte_cases:
  assumes "n < 8 * k"
  obtains j r where "n = 8 * j + r" "j < k" "r < (8 :: nat)"
  using that [of "n div 8" "n mod 8"] assms by (simp add: less_mult_imp_div_less mult.commute)

lemma bit_u8_high: "8 \<le> n \<Longrightarrow> \<not> bit b n" for b :: u8
  by (auto dest: bit_imp_le_length)

lemma bit_swap16:
  assumes "j < 2" "r < 8"
  shows "bit (swap16 v) (8 * j + r) \<longleftrightarrow> bit v (8 * (1 - j) + r)"
proof -
  from assms(1) consider "j = 0" | "j = 1" by linarith
  then show ?thesis by cases (use assms(2) in \<open>simp_all add: swap_masks bit_simps\<close>)
qed

lemma bit_le16dec:
  assumes "j < 2" "r < 8"
  shows "bit (le16dec m p) (8 * j + r) \<longleftrightarrow> bit (m (p + of_nat j)) r"
proof -
  from assms(1) consider "j = 0" | "j = 1" by linarith
  then show ?thesis by cases (use assms(2) in \<open>simp_all add: le16dec_def bit_simps bit_u8_high\<close>)
qed

lemma bit_be16dec:
  assumes "j < 2" "r < 8"
  shows "bit (be16dec m p) (8 * j + r) \<longleftrightarrow> bit (m (p + of_nat (1 - j))) r"
proof -
  from assms(1) consider "j = 0" | "j = 1" by linarith
  then show ?thesis by cases (use assms(2) in \<open>simp_all add: be16dec_def bit_simps bit_u8_high\<close>)
qed

lemma bit_swap32:
  assumes "j < 4" "r < 8"
  shows "bit (swap32 v) (8 * j + r) \<longleftrightarrow> bit v (8 * (3 - j) + r)"
proof -
  from assms(1) consider "j = 0" | "j = 1" | "j = 2" | "j = 3" by linarith
  then show ?thesis by cases (use assms(2) in \<open>simp_all add: swap_masks bit_simps\<close>)
qed

lemma bit_le32dec:
  assumes "j < 4" "r < 8"
  shows "bit (le32dec m p) (8 * j + r) \<longleftrightarrow> bit (m (p + of_nat j)) r"
proof -
  from assms(1) consider "j = 0" | "j = 1" | "j = 2" | "j = 3" by linarith
  then show ?thesis by cases (use assms(2) in \<open>simp_all add: le32dec_def bit_simps bit_u8_high\<close>)
qed

lemma bit_be32dec:
  assumes "j < 4" "r < 8"
  shows "bit (be32dec m p) (8 * j + r) \<longleftrightarrow> bit (m (p + of_nat (3 - j))) r"
proof -
  from assms(1) consider "j = 0" | "j = 1" | "j = 2" | "j = 3" by linarith
  then show ?thesis by cases (use assms(2) in \<open>simp_all add: be32dec_def bit_simps bit_u8_high\<close>)
qed

lemma bit_swap64:
  assumes "j < 8" "r < 8"
  shows "bit (swap64 v) (8 * j + r) \<longleftrightarrow> bit v (8 * (7 - j) + r)"
proof -
  from assms(1) consider "j = 0" | "j = 1" | "j = 2" | "j = 3" | "j = 4" | "j = 5" | "j = 6" | "j = 7" by linarith
  then show ?thesis by cases (use assms(2) in \<open>simp_all add: swap_masks bit_simps\<close>)
qed

lemma bit_le64dec:
  assumes "j < 8" "r < 8"
  shows "bit (le64dec m p) (8 * j + r) \<longleftrightarrow> bit (m (p + of_nat j)) r"
proof -
  from assms(1) consider "j = 0" | "j = 1" | "j = 2" | "j = 3" | "j = 4" | "j = 5" | "j = 6" | "j = 7" by linarith
  then show ?thesis by cases (use assms(2) in \<open>simp_all add: le64dec_def bit_simps bit_u8_high\<close>)
qed

lemma bit_be64dec:
  assumes "j < 8" "r < 8"
  shows "bit (be64dec m p) (8 * j + r) \<longleftrightarrow> bit (m (p + of_nat (7 - j))) r"
proof -
  from assms(1) consider "j = 0" | "j = 1" | "j = 2" | "j = 3" | "j = 4" | "j = 5" | "j = 6" | "j = 7" by linarith
  then show ?thesis by cases (use assms(2) in \<open>simp_all add: be64dec_def bit_simps bit_u8_high\<close>)
qed

lemma bytes_eqI:
  assumes "\<And>j r. j < k \<Longrightarrow> r < 8 \<Longrightarrow> bit v (8 * j + r) = bit w (8 * j + r)" "LENGTH('a) = 8 * k"
  shows "v = (w :: 'a::len word)"
proof (rule bit_eqI)
  fix n assume "possible_bit TYPE('a word) n"
  then have "n < 8 * k" using assms(2) by simp
  then show "bit v n = bit w n" using assms(1) by (metis byte_cases)
qed

lemma swap_orders:
  "swap16 (le16dec m p) = be16dec m p" "swap32 (le32dec m p) = be32dec m p" "swap64 (le64dec m p) = be64dec m p"
  by (rule bytes_eqI [of 2] bytes_eqI [of 4] bytes_eqI [of 8];
      simp add: bit_swap16 bit_le16dec bit_be16dec bit_swap32 bit_le32dec bit_be32dec bit_swap64 bit_le64dec bit_be64dec)+

lemma swap_swap: "swap16 (swap16 v16) = v16" "swap32 (swap32 v32) = v32" "swap64 (swap64 v64) = v64"
  by (rule bytes_eqI [of 2] bytes_eqI [of 4] bytes_eqI [of 8]; simp add: bit_swap16 bit_swap32 bit_swap64)+

lemma be_of_le:
  "be16dec (le16enc m p (swap16 v16)) p = v16" "be32dec (le32enc m p (swap32 v32)) p = v32"
  "be64dec (le64enc m p (swap64 v64)) p = v64"
  by (simp_all add: le16dec_enc le32dec_enc le64dec_enc swap_swap flip: swap_orders)

section \<open>Properties\<close>

text \<open>
  C26. Integers of every width survive being stored and loaded in the same byte order, loads in one order are
  byte swaps of loads in the other, so that the host-to-big-endian conversions make a little-endian store
  lay down big-endian bytes, and the conversions undo each other.
\<close>

theorem endian_roundtrip:
  "be16dec (be16enc m p v16) p = v16 \<and> be32dec (be32enc m p v32) p = v32 \<and> be64dec (be64enc m p v64) p = v64
   \<and> le16dec (le16enc m p v16) p = v16 \<and> le32dec (le32enc m p v32) p = v32 \<and> le64dec (le64enc m p v64) p = v64
   \<and> be16dec (le16enc m p (htobe16 v16)) p = v16 \<and> be32dec (le32enc m p (htobe32 v32)) p = v32
   \<and> be64dec (le64enc m p (htobe64 v64)) p = v64
   \<and> be16toh (htobe16 v16) = v16 \<and> be32toh (htobe32 v32) = v32 \<and> be64toh (htobe64 v64) = v64"
  by (simp add: be16dec_enc be32dec_enc be64dec_enc le16dec_enc le32dec_enc le64dec_enc swap_swap be_of_le
      be16toh_def be32toh_def be64toh_def htobe16_def htobe32_def htobe64_def)

end
