(* ===== verification/Utf.thy ===== *)
theory Utf
  imports Kmem
begin

text \<open>
  Unicode encodings (net/include/utf8.h, net/include/utf16.h): the functions that write and read one code point,
  check it, step over it in both directions, and count or validate a text. A text lies in memory between two
  pointers; pointer differences are signed. A plain \<^verbatim>\<open>char\<close> is signed, as on the x86 targets.
\<close>

section \<open>UTF-8\<close>

definition utf8_codepoint_length :: "mem \<Rightarrow> uintptr_t \<Rightarrow> nat" where
  "utf8_codepoint_length m str =
     (if m str AND 0x80 = 0x00 then 1
      else if m str AND 0xE0 = 0xC0 then 2
      else if m str AND 0xF0 = 0xE0 then 3
      else if m str AND 0xF8 = 0xF0 then 4
      else 0)"

definition utf8_encode1 :: "mem \<Rightarrow> uintptr_t \<Rightarrow> u32 \<Rightarrow> mem" where
  "utf8_encode1 m str cp = m(str := ucast (cp AND 0x7F))"

definition utf8_decode1 :: "mem \<Rightarrow> uintptr_t \<Rightarrow> u32" where
  "utf8_decode1 m str = scast (m str)"

definition utf8_check1 :: "mem \<Rightarrow> uintptr_t \<Rightarrow> bool" where
  "utf8_check1 m str \<longleftrightarrow> True"

definition utf8_encode2 :: "mem \<Rightarrow> uintptr_t \<Rightarrow> u32 \<Rightarrow> mem" where
  "utf8_encode2 m str cp =
     m(str := ucast (0xC0 OR (drop_bit 6 cp AND 0x1F)),
       str + 1 := ucast (0x80 OR (drop_bit 0 cp AND 0x3F)))"

definition utf8_decode2 :: "mem \<Rightarrow> uintptr_t \<Rightarrow> u32" where
  "utf8_decode2 m str =
     push_bit 6 (ucast (m str AND 0x1F))
     OR push_bit 0 (ucast (m (str + 1) AND 0x3F))"

definition utf8_check2 :: "mem \<Rightarrow> uintptr_t \<Rightarrow> bool" where
  "utf8_check2 m str \<longleftrightarrow>
     (if m str AND 0x1F < 2 then False
      else if m (str + 1) AND 0xC0 \<noteq> 0x80 then False
      else True)"

definition utf8_encode3 :: "mem \<Rightarrow> uintptr_t \<Rightarrow> u32 \<Rightarrow> mem" where
  "utf8_encode3 m str cp =
     m(str := ucast (0xE0 OR (drop_bit 12 cp AND 0x0F)),
       str + 1 := ucast (0x80 OR (drop_bit 6 cp AND 0x3F)),
       str + 2 := ucast (0x80 OR (drop_bit 0 cp AND 0x3F)))"

definition utf8_decode3 :: "mem \<Rightarrow> uintptr_t \<Rightarrow> u32" where
  "utf8_decode3 m str =
     push_bit 12 (ucast (m str AND 0x0F))
     OR push_bit 6 (ucast (m (str + 1) AND 0x3F))
     OR push_bit 0 (ucast (m (str + 2) AND 0x3F))"

definition utf8_check3 :: "mem \<Rightarrow> uintptr_t \<Rightarrow> bool" where
  "utf8_check3 m str \<longleftrightarrow>
     (if m str AND 0xF = 0 \<and> m (str + 1) AND 0x20 = 0 then False
      else if m (str + 1) AND 0xC0 \<noteq> 0x80 then False
      else if m (str + 2) AND 0xC0 \<noteq> 0x80 then False
      else True)"

definition utf8_encode4 :: "mem \<Rightarrow> uintptr_t \<Rightarrow> u32 \<Rightarrow> mem" where
  "utf8_encode4 m str cp =
     m(str := ucast (0xF0 OR (drop_bit 18 cp AND 0x07)),
       str + 1 := ucast (0x80 OR (drop_bit 12 cp AND 0x3F)),
       str + 2 := ucast (0x80 OR (drop_bit 6 cp AND 0x3F)),
       str + 3 := ucast (0x80 OR (drop_bit 0 cp AND 0x3F)))"

definition utf8_decode4 :: "mem \<Rightarrow> uintptr_t \<Rightarrow> u32" where
  "utf8_decode4 m str =
     push_bit 18 (ucast (m str AND 0x07))
     OR push_bit 12 (ucast (m (str + 1) AND 0x3F))
     OR push_bit 6 (ucast (m (str + 2) AND 0x3F))
     OR push_bit 0 (ucast (m (str + 3) AND 0x3F))"

definition utf8_check4 :: "mem \<Rightarrow> uintptr_t \<Rightarrow> bool" where
  "utf8_check4 m str \<longleftrightarrow>
     (if m str AND 0x7 = 0 \<and> m (str + 1) AND 0x30 = 0 then False
      else if m (str + 1) AND 0xC0 \<noteq> 0x80 then False
      else if m (str + 2) AND 0xC0 \<noteq> 0x80 then False
      else if m (str + 3) AND 0xC0 \<noteq> 0x80 then False
      else True)"

text \<open>The result: whether the code point was written, \<^verbatim>\<open>*str\<close> after the call, the memory.\<close>

definition utf8_encode :: "mem \<Rightarrow> uintptr_t \<Rightarrow> u32 \<Rightarrow> bool \<times> uintptr_t \<times> mem" where
  "utf8_encode m str cp =
     (if cp < 0x80 then (True, str + 1, utf8_encode1 m str cp)
      else if cp < 0x800 then (True, str + 2, utf8_encode2 m str cp)
      else if cp < 0x10000 then (True, str + 3, utf8_encode3 m str cp)
      else if cp < 0x10FFFF then (True, str + 4, utf8_encode4 m str cp)
      else (False, str, m))"

text \<open>The readers return \<^verbatim>\<open>*str\<close> after the call and \<^verbatim>\<open>*cp\<close>; on failure neither is changed.\<close>

definition utf8_decode :: "mem \<Rightarrow> uintptr_t \<Rightarrow> (uintptr_t \<times> u32) option" where
  "utf8_decode m str =
     (let len = utf8_codepoint_length m str
      in if len = 1 then Some (str + 1, utf8_decode1 m str)
         else if len = 2 then Some (str + 2, utf8_decode2 m str)
         else if len = 3 then Some (str + 3, utf8_decode3 m str)
         else if len = 4 then Some (str + 4, utf8_decode4 m str)
         else None)"

definition utf8_check :: "mem \<Rightarrow> uintptr_t \<Rightarrow> uintptr_t \<Rightarrow> bool" where
  "utf8_check m str stop =
     (let len = utf8_codepoint_length m str
      in if len = 1 then if sint (stop - str) < 1 then False else utf8_check1 m str
         else if len = 2 then if sint (stop - str) < 2 then False else utf8_check2 m str
         else if len = 3 then if sint (stop - str) < 3 then False else utf8_check3 m str
         else if len = 4 then if sint (stop - str) < 4 then False else utf8_check4 m str
         else False)"

definition utf8_next :: "mem \<Rightarrow> uintptr_t \<Rightarrow> uintptr_t \<Rightarrow> (uintptr_t \<times> u32) option" where
  "utf8_next m str stop =
     (let len = utf8_codepoint_length m str
      in if len = 1 then
           if sint (stop - str) < 1 then None
           else if \<not> utf8_check1 m str then None
           else Some (str + 1, utf8_decode1 m str)
         else if len = 2 then
           if sint (stop - str) < 2 then None
           else if \<not> utf8_check2 m str then None
           else Some (str + 2, utf8_decode2 m str)
         else if len = 3 then
           if sint (stop - str) < 3 then None
           else if \<not> utf8_check3 m str then None
           else Some (str + 3, utf8_decode3 m str)
         else if len = 4 then
           if sint (stop - str) < 4 then None
           else if \<not> utf8_check4 m str then None
           else Some (str + 4, utf8_decode4 m str)
         else None)"

definition utf8_peek_next :: "mem \<Rightarrow> uintptr_t \<Rightarrow> uintptr_t \<Rightarrow> u32 option" where
  "utf8_peek_next m str stop = map_option snd (utf8_next m str stop)"

text \<open>
  \<^verbatim>\<open>utf8_prev\<close> moves \<^verbatim>\<open>*str\<close> even when it fails: the result is where it ends and the code point, if any. The
  first argument of its loop counts the rounds left.
\<close>

fun utf8_prev_loop :: "nat \<Rightarrow> mem \<Rightarrow> uintptr_t \<Rightarrow> uintptr_t \<Rightarrow> uintptr_t \<Rightarrow> uintptr_t \<times> u32 option" where
  "utf8_prev_loop 0 m str start org = (str, None)"
| "utf8_prev_loop (Suc k) m str start org =
     (if sint (str - start) < 1 then (str, None)
      else let str = str - 1; len = utf8_codepoint_length m str
      in if len = 1 then
           if org - str \<noteq> 1 then (str, None)
           else if \<not> utf8_check1 m str then (str, None)
           else (str, Some (utf8_decode1 m str))
         else if len = 2 then
           if org - str \<noteq> 2 then (str, None)
           else if \<not> utf8_check2 m str then (str, None)
           else (str, Some (utf8_decode2 m str))
         else if len = 3 then
           if org - str \<noteq> 3 then (str, None)
           else if \<not> utf8_check3 m str then (str, None)
           else (str, Some (utf8_decode3 m str))
         else if len = 4 then
           if org - str \<noteq> 4 then (str, None)
           else if \<not> utf8_check4 m str then (str, None)
           else (str, Some (utf8_decode4 m str))
         else utf8_prev_loop k m str start org)"

definition utf8_prev :: "mem \<Rightarrow> uintptr_t \<Rightarrow> uintptr_t \<Rightarrow> uintptr_t \<times> u32 option" where
  "utf8_prev m str start = utf8_prev_loop 4 m str start str"

definition utf8_peek_prev :: "mem \<Rightarrow> uintptr_t \<Rightarrow> uintptr_t \<Rightarrow> u32 option" where
  "utf8_peek_prev m str start = snd (utf8_prev m str start)"

definition utf8_advance_step :: "mem \<Rightarrow> uintptr_t \<Rightarrow> uintptr_t \<Rightarrow> uintptr_t option" where
  "utf8_advance_step m str stop =
     (let len = utf8_codepoint_length m str
      in if len = 1 then
           if sint (stop - str) < 1 then None
           else if \<not> utf8_check1 m str then None
           else Some (str + 1)
         else if len = 2 then
           if sint (stop - str) < 2 then None
           else if \<not> utf8_check2 m str then None
           else Some (str + 2)
         else if len = 3 then
           if sint (stop - str) < 3 then None
           else if \<not> utf8_check3 m str then None
           else Some (str + 3)
         else if len = 4 then
           if sint (stop - str) < 4 then None
           else if \<not> utf8_check4 m str then None
           else Some (str + 4)
         else None)"

fun utf8_advance :: "nat \<Rightarrow> mem \<Rightarrow> uintptr_t \<Rightarrow> uintptr_t \<Rightarrow> bool \<times> uintptr_t" where
  "utf8_advance 0 m str stop = (True, str)"
| "utf8_advance (Suc len) m str stop =
     (case utf8_advance_step m str stop of
        None \<Rightarrow> (False, str)
      | Some str' \<Rightarrow> utf8_advance len m str' stop)"

text \<open>A step goes up by at most the distance to the end, so the loops over a text end.\<close>

lemma sint_nonneg:
  fixes w :: uintptr_t
  assumes "0 \<le> sint w"
  shows "sint w = int (unat w)"
proof -
  have "take_bit LENGTH(64) (sint w) = sint w" using assms sint_lt [of w] by (intro take_bit_int_eq_self) simp_all
  then have "sint w = uint w" using uint_sint [of w] by linarith
  then show ?thesis by simp
qed

lemma step_measure:
  fixes stop str :: uintptr_t
  assumes "int k \<le> sint (stop - str)" "0 < k"
  shows "unat (stop - (str + of_nat k)) < unat (stop - str)"
proof -
  have le: "k \<le> unat (stop - str)" using assms(1) sint_nonneg [of "stop - str"] by linarith
  then have "unat (stop - str - of_nat k) = unat (stop - str) - k"
    using unat_lt64 [of "stop - str"] by (subst unat_sub) (simp_all add: word_le_nat_alt unat_of_nat64)
  then show ?thesis using le assms(2) by (simp add: diff_diff_eq)
qed

lemma utf8_advance_step_measure:
  "utf8_advance_step m str stop = Some str' \<Longrightarrow> unat (stop - str') < unat (stop - str)"
  using step_measure [of 1 stop str] step_measure [of 2 stop str] step_measure [of 3 stop str] step_measure [of 4 stop str]
  by (auto simp: utf8_advance_step_def Let_def split: if_splits)

function utf8_distance_loop :: "mem \<Rightarrow> uintptr_t \<Rightarrow> uintptr_t \<Rightarrow> nat \<Rightarrow> bool \<times> nat" where
  "utf8_distance_loop m str stop distance =
     (if str \<noteq> stop
      then case utf8_advance_step m str stop of
             None \<Rightarrow> (False, distance)
           | Some str' \<Rightarrow> utf8_distance_loop m str' stop (distance + 1)
      else (True, distance))"
  by pat_completeness auto
termination
  by (relation "measure (\<lambda>(m, str, stop, d). unat (stop - str))") (auto dest: utf8_advance_step_measure)

definition utf8_distance :: "mem \<Rightarrow> uintptr_t \<Rightarrow> uintptr_t \<Rightarrow> bool \<times> nat" where
  "utf8_distance m str stop = utf8_distance_loop m str stop 0"

function utf8_find_invalid :: "mem \<Rightarrow> uintptr_t \<Rightarrow> uintptr_t \<Rightarrow> uintptr_t" where
  "utf8_find_invalid m str stop =
     (if str \<noteq> stop
      then case utf8_advance_step m str stop of
             None \<Rightarrow> str
           | Some str' \<Rightarrow> utf8_find_invalid m str' stop
      else str)"
  by pat_completeness auto
termination
  by (relation "measure (\<lambda>(m, str, stop). unat (stop - str))") (auto dest: utf8_advance_step_measure)

declare utf8_distance_loop.simps [simp del] utf8_find_invalid.simps [simp del]

definition utf8_is_valid :: "mem \<Rightarrow> uintptr_t \<Rightarrow> uintptr_t \<Rightarrow> bool" where
  "utf8_is_valid m str stop \<longleftrightarrow> utf8_find_invalid m str stop = stop"

section \<open>UTF-16\<close>

definition utf16_codepoint_length :: "mem \<Rightarrow> uintptr_t \<Rightarrow> nat" where
  "utf16_codepoint_length m str = (if m str AND 0xFC = 0xD8 then 2 else 1)"

definition utf16_encode1 :: "mem \<Rightarrow> uintptr_t \<Rightarrow> u32 \<Rightarrow> mem" where
  "utf16_encode1 m str cp = m(str := ucast (drop_bit 8 cp), str + 1 := ucast (drop_bit 0 cp))"

definition utf16_decode1 :: "mem \<Rightarrow> uintptr_t \<Rightarrow> u32" where
  "utf16_decode1 m str = push_bit 8 (scast (m str)) OR push_bit 0 (scast (m (str + 1)))"

definition utf16_check1 :: "mem \<Rightarrow> uintptr_t \<Rightarrow> bool" where
  "utf16_check1 m str \<longleftrightarrow> True"

definition utf16_encode2 :: "mem \<Rightarrow> uintptr_t \<Rightarrow> u32 \<Rightarrow> mem" where
  "utf16_encode2 m str cp =
     m(str := ucast (0xD8 OR (drop_bit 18 cp AND 0x03)),
       str + 1 := ucast (0x00 OR (drop_bit 10 cp AND 0xFF)),
       str + 2 := ucast (0xDC OR (drop_bit 8 cp AND 0x03)),
       str + 3 := ucast (0x00 OR (drop_bit 0 cp AND 0xFF)))"

definition utf16_decode2 :: "mem \<Rightarrow> uintptr_t \<Rightarrow> u32" where
  "utf16_decode2 m str =
     push_bit 18 (ucast (m str AND 0x03))
     OR push_bit 10 (ucast (m (str + 1) AND 0xFF))
     OR push_bit 8 (ucast (m (str + 2) AND 0x03))
     OR push_bit 0 (ucast (m (str + 3) AND 0xFF))"

definition utf16_check2 :: "mem \<Rightarrow> uintptr_t \<Rightarrow> bool" where
  "utf16_check2 m str \<longleftrightarrow>
     (if m str AND 0xFC \<noteq> 0xD8 then False
      else if m (str + 2) AND 0xFC \<noteq> 0xDC then False
      else True)"

definition utf16_encode :: "mem \<Rightarrow> uintptr_t \<Rightarrow> u32 \<Rightarrow> bool \<times> uintptr_t \<times> mem" where
  "utf16_encode m str cp =
     (if cp < 0x10000 then (True, str + 2, utf16_encode1 m str cp)
      else if cp < 0x100000 then (True, str + 4, utf16_encode2 m str cp)
      else (False, str, m))"

definition utf16_decode :: "mem \<Rightarrow> uintptr_t \<Rightarrow> (uintptr_t \<times> u32) option" where
  "utf16_decode m str =
     (let len = utf16_codepoint_length m str
      in if len = 1 then Some (str + 2, utf16_decode1 m str)
         else if len = 2 then Some (str + 4, utf16_decode2 m str)
         else None)"

definition utf16_check :: "mem \<Rightarrow> uintptr_t \<Rightarrow> uintptr_t \<Rightarrow> bool" where
  "utf16_check m str stop =
     (let len = utf16_codepoint_length m str
      in if len = 1 then if sint (stop - str) < 2 then False else utf16_check1 m str
         else if len = 2 then if sint (stop - str) < 4 then False else utf16_check2 m str
         else False)"

definition utf16_next :: "mem \<Rightarrow> uintptr_t \<Rightarrow> uintptr_t \<Rightarrow> (uintptr_t \<times> u32) option" where
  "utf16_next m str stop =
     (let len = utf16_codepoint_length m str
      in if len = 1 then
           if sint (stop - str) < 2 then None
           else if \<not> utf16_check1 m str then None
           else Some (str + 2, utf16_decode1 m str)
         else if len = 2 then
           if sint (stop - str) < 4 then None
           else if \<not> utf16_check2 m str then None
           else Some (str + 4, utf16_decode2 m str)
         else None)"

definition utf16_peek_next :: "mem \<Rightarrow> uintptr_t \<Rightarrow> uintptr_t \<Rightarrow> u32 option" where
  "utf16_peek_next m str stop = map_option snd (utf16_next m str stop)"

fun utf16_prev_loop :: "nat \<Rightarrow> mem \<Rightarrow> uintptr_t \<Rightarrow> uintptr_t \<Rightarrow> uintptr_t \<Rightarrow> uintptr_t \<times> u32 option" where
  "utf16_prev_loop 0 m str start org = (str, None)"
| "utf16_prev_loop (Suc k) m str start org =
     (if sint (str - start) < 2 then (str, None)
      else let str = str - 2; len = utf16_codepoint_length m str
      in if len = 1 then
           if org - str \<noteq> 2 then (str, None)
           else if \<not> utf16_check1 m str then (str, None)
           else (str, Some (utf16_decode1 m str))
         else if len = 2 then
           if org - str \<noteq> 4 then (str, None)
           else if \<not> utf16_check2 m str then (str, None)
           else (str, Some (utf16_decode2 m str))
         else utf16_prev_loop k m str start org)"

definition utf16_prev :: "mem \<Rightarrow> uintptr_t \<Rightarrow> uintptr_t \<Rightarrow> uintptr_t \<times> u32 option" where
  "utf16_prev m str start = utf16_prev_loop 2 m str start str"

definition utf16_peek_prev :: "mem \<Rightarrow> uintptr_t \<Rightarrow> uintptr_t \<Rightarrow> u32 option" where
  "utf16_peek_prev m str start = snd (utf16_prev m str start)"

definition utf16_advance_step :: "mem \<Rightarrow> uintptr_t \<Rightarrow> uintptr_t \<Rightarrow> uintptr_t option" where
  "utf16_advance_step m str stop =
     (let len = utf16_codepoint_length m str
      in if len = 1 then
           if sint (stop - str) < 2 then None
           else if \<not> utf16_check1 m str then None
           else Some (str + 2)
         else if len = 2 then
           if sint (stop - str) < 4 then None
           else if \<not> utf16_check2 m str then None
           else Some (str + 4)
         else None)"

fun utf16_advance :: "nat \<Rightarrow> mem \<Rightarrow> uintptr_t \<Rightarrow> uintptr_t \<Rightarrow> bool \<times> uintptr_t" where
  "utf16_advance 0 m str stop = (True, str)"
| "utf16_advance (Suc len) m str stop =
     (case utf16_advance_step m str stop of
        None \<Rightarrow> (False, str)
      | Some str' \<Rightarrow> utf16_advance len m str' stop)"

lemma utf16_advance_step_measure:
  "utf16_advance_step m str stop = Some str' \<Longrightarrow> unat (stop - str') < unat (stop - str)"
  using step_measure [of 2 stop str] step_measure [of 4 stop str]
  by (auto simp: utf16_advance_step_def Let_def split: if_splits)

function utf16_distance_loop :: "mem \<Rightarrow> uintptr_t \<Rightarrow> uintptr_t \<Rightarrow> nat \<Rightarrow> bool \<times> nat" where
  "utf16_distance_loop m str stop distance =
     (if str \<noteq> stop
      then case utf16_advance_step m str stop of
             None \<Rightarrow> (False, distance)
           | Some str' \<Rightarrow> utf16_distance_loop m str' stop (distance + 1)
      else (True, distance))"
  by pat_completeness auto
termination
  by (relation "measure (\<lambda>(m, str, stop, d). unat (stop - str))") (auto dest: utf16_advance_step_measure)

definition utf16_distance :: "mem \<Rightarrow> uintptr_t \<Rightarrow> uintptr_t \<Rightarrow> bool \<times> nat" where
  "utf16_distance m str stop = utf16_distance_loop m str stop 0"

function utf16_find_invalid :: "mem \<Rightarrow> uintptr_t \<Rightarrow> uintptr_t \<Rightarrow> uintptr_t" where
  "utf16_find_invalid m str stop =
     (if str \<noteq> stop
      then case utf16_advance_step m str stop of
             None \<Rightarrow> str
           | Some str' \<Rightarrow> utf16_find_invalid m str' stop
      else str)"
  by pat_completeness auto
termination
  by (relation "measure (\<lambda>(m, str, stop). unat (stop - str))") (auto dest: utf16_advance_step_measure)

declare utf16_distance_loop.simps [simp del] utf16_find_invalid.simps [simp del]

definition utf16_is_valid :: "mem \<Rightarrow> uintptr_t \<Rightarrow> uintptr_t \<Rightarrow> bool" where
  "utf16_is_valid m str stop \<longleftrightarrow> utf16_find_invalid m str stop = stop"

section \<open>Bits\<close>

lemma bits32:
  "a = b \<longleftrightarrow> list_all (\<lambda>n. bit a n = bit b n) [0, 1, 2, 3, 4, 5, 6, 7, 8, 9, 10, 11, 12, 13, 14, 15, 16, 17, 18, 19,
     20, 21, 22, 23, 24, 25, 26, 27, 28, 29, 30, 31]" for a b :: u32
proof -
  have "[0, 1, 2, 3, 4, 5, 6, 7, 8, 9, 10, 11, 12, 13, 14, 15, 16, 17, 18, 19,
     20, 21, 22, 23, 24, 25, 26, 27, 28, 29, 30, 31] = [0..<32]" by (simp add: upt_rec)
  moreover have "a = b \<longleftrightarrow> (\<forall>n < 32. bit a n = bit b n)" by (auto intro: bit_word_eqI)
  ultimately show ?thesis by (simp only: list_all_iff set_upt) auto
qed

text \<open>A bound that is a power of two, in bits.\<close>

lemma unat_exp: "k < LENGTH('a) \<Longrightarrow> unat (2 ^ k :: 'a::len word) = 2 ^ k"
proof -
  assume "k < LENGTH('a)"
  then have "take_bit LENGTH('a) (2 ^ k :: nat) = 2 ^ k" by (intro take_bit_nat_eq_self) simp
  moreover have "(2 ^ k :: 'a word) = of_nat (2 ^ k)" by simp
  ultimately show ?thesis by (simp only: unsigned_of_nat of_nat_id)
qed

lemma less_bits: "w < 2 ^ k \<longleftrightarrow> list_all (\<lambda>n. \<not> bit w n) [k..<LENGTH('a)]"
  if "k < LENGTH('a)" for w :: "'a::len word"
proof -
  have "w < 2 ^ k \<longleftrightarrow> take_bit k (unat w) = unat w"
    using that by (simp add: word_less_nat_alt take_bit_nat_eq_self_iff unat_exp)
  also have "\<dots> \<longleftrightarrow> take_bit k w = w" by (simp add: word_unat_eq_iff unsigned_take_bit_eq)
  also have "\<dots> \<longleftrightarrow> (\<forall>n. bit w n \<longrightarrow> n < k)" 
    by (simp add: bit_eq_iff bit_take_bit_iff) (meson bit_imp_le_length)
  also have "\<dots> \<longleftrightarrow> (\<forall>n. k \<le> n \<longrightarrow> n < LENGTH('a) \<longrightarrow> \<not> bit w n)" using bit_imp_le_length [of w] by (meson not_le)
  also have "\<dots> \<longleftrightarrow> list_all (\<lambda>n. \<not> bit w n) [k..<LENGTH('a)]" by (auto simp: list_all_iff)
  finally show ?thesis .
qed

lemma byte_less_2: "b < 2 \<longleftrightarrow> list_all (\<lambda>n. \<not> bit b n) [1, 2, 3, 4, 5, 6, 7]" for b :: u8
proof -
  have "[1, 2, 3, 4, 5, 6, 7] = [1..<8 :: nat]" by code_simp
  then show ?thesis using less_bits [of 1 b] by (simp only:) simp
qed

lemma cp_less:
  "cp < 0x80 \<longleftrightarrow> list_all (\<lambda>n. \<not> bit cp n) ([7, 8, 9, 10] @ [11, 12, 13, 14, 15] @ [16, 17, 18, 19] @ [20] @
     [21, 22, 23, 24, 25, 26, 27, 28, 29, 30, 31])"
  "cp < 0x800 \<longleftrightarrow> list_all (\<lambda>n. \<not> bit cp n) ([11, 12, 13, 14, 15] @ [16, 17, 18, 19] @ [20] @
     [21, 22, 23, 24, 25, 26, 27, 28, 29, 30, 31])"
  "cp < 0x10000 \<longleftrightarrow> list_all (\<lambda>n. \<not> bit cp n) ([16, 17, 18, 19] @ [20] @
     [21, 22, 23, 24, 25, 26, 27, 28, 29, 30, 31])"
  "cp < 0x100000 \<longleftrightarrow> list_all (\<lambda>n. \<not> bit cp n) ([20] @ [21, 22, 23, 24, 25, 26, 27, 28, 29, 30, 31])"
  "cp < 0x200000 \<longleftrightarrow> list_all (\<lambda>n. \<not> bit cp n) [21, 22, 23, 24, 25, 26, 27, 28, 29, 30, 31]" for cp :: u32
  using less_bits [of 7 cp] less_bits [of 11 cp] less_bits [of 16 cp] less_bits [of 20 cp] less_bits [of 21 cp]
  by (simp_all add: upt_rec)

section \<open>One code point\<close>

lemmas utf8_encodeN = utf8_encode1_def utf8_encode2_def utf8_encode3_def utf8_encode4_def

lemmas utf8_decodeN = utf8_decode1_def utf8_decode2_def utf8_decode3_def utf8_decode4_def

lemmas utf8_checkN = utf8_check1_def utf8_check2_def utf8_check3_def utf8_check4_def

lemma utf8_decode_encode:
  "cp < 0x80 \<Longrightarrow> utf8_decode1 (utf8_encode1 m str cp) str = cp"
  "cp < 0x800 \<Longrightarrow> utf8_decode2 (utf8_encode2 m str cp) str = cp"
  "cp < 0x10000 \<Longrightarrow> utf8_decode3 (utf8_encode3 m str cp) str = cp"
  "cp < 0x200000 \<Longrightarrow> utf8_decode4 (utf8_encode4 m str cp) str = cp"
  unfolding cp_less utf8_encodeN utf8_decodeN by (simp_all add: bits32 bit_simps)

lemma utf8_length_encode:
  "cp < 0x80 \<Longrightarrow> utf8_codepoint_length (utf8_encode1 m str cp) str = 1"
  "utf8_codepoint_length (utf8_encode2 m str cp) str = 2"
  "utf8_codepoint_length (utf8_encode3 m str cp) str = 3"
  "utf8_codepoint_length (utf8_encode4 m str cp) str = 4"
  unfolding utf8_encodeN utf8_codepoint_length_def by (simp_all add: bits8 bit_simps)

lemma utf8_check_encode:
  "\<not> cp < 0x80 \<Longrightarrow> cp < 0x800 \<Longrightarrow> utf8_check2 (utf8_encode2 m str cp) str"
  "\<not> cp < 0x800 \<Longrightarrow> cp < 0x10000 \<Longrightarrow> utf8_check3 (utf8_encode3 m str cp) str"
  "\<not> cp < 0x10000 \<Longrightarrow> cp < 0x200000 \<Longrightarrow> utf8_check4 (utf8_encode4 m str cp) str"
  unfolding cp_less utf8_encodeN utf8_checkN byte_less_2 by (auto simp: bits8 bit_simps)

lemma utf8_encode_decode:
  "utf8_codepoint_length m str = 1 \<Longrightarrow> utf8_encode1 m str (utf8_decode1 m str) = m \<and> utf8_decode1 m str < 0x80"
  "utf8_codepoint_length m str = 2 \<Longrightarrow> utf8_check2 m str \<Longrightarrow>
     utf8_encode2 m str (utf8_decode2 m str) = m \<and> \<not> utf8_decode2 m str < 0x80 \<and> utf8_decode2 m str < 0x800"
  "utf8_codepoint_length m str = 3 \<Longrightarrow> utf8_check3 m str \<Longrightarrow>
     utf8_encode3 m str (utf8_decode3 m str) = m \<and> \<not> utf8_decode3 m str < 0x800 \<and> utf8_decode3 m str < 0x10000"
  "utf8_codepoint_length m str = 4 \<Longrightarrow> utf8_check4 m str \<Longrightarrow>
     utf8_encode4 m str (utf8_decode4 m str) = m \<and> \<not> utf8_decode4 m str < 0x10000 \<and> utf8_decode4 m str < 0x200000"
  unfolding cp_less utf8_codepoint_length_def utf8_encodeN utf8_decodeN utf8_checkN byte_less_2
  by (auto simp: bits8 bit_simps fun_upd_idem_iff split: if_splits)

section \<open>Texts\<close>

lemma utf8_advance_step_next: "utf8_advance_step m str stop = map_option fst (utf8_next m str stop)"
  by (simp add: utf8_advance_step_def utf8_next_def Let_def)

lemma utf8_check_next: "utf8_check m str stop \<longleftrightarrow> utf8_next m str stop \<noteq> None"
  by (simp add: utf8_check_def utf8_next_def Let_def)

text \<open>Counting and validating scan the same steps.\<close>

lemma utf8_distance_valid:
  "fst (utf8_distance_loop m str stop d) \<longleftrightarrow> utf8_find_invalid m str stop = stop"
proof (induction m str stop d rule: utf8_distance_loop.induct)
  case (1 m str stop d)
  show ?case
    using 1 by (subst utf8_distance_loop.simps, subst utf8_find_invalid.simps) (auto split: option.split)
qed

text \<open>A successful step: how far it goes and what it leaves.\<close>

lemma cp_ranges:
  "\<not> x < 0x800 \<Longrightarrow> \<not> x < 0x80" "\<not> x < 0x10000 \<Longrightarrow> \<not> x < 0x800" "\<not> x < 0x10000 \<Longrightarrow> \<not> x < 0x80"
  "x < 0x80 \<Longrightarrow> x < 0x200000" "x < 0x800 \<Longrightarrow> x < 0x200000" "x < 0x10000 \<Longrightarrow> x < 0x200000" "x < 0x10FFFF \<Longrightarrow> x < 0x200000"
  "x < 0x80 \<Longrightarrow> x < 0x10FFFF" "x < 0x800 \<Longrightarrow> x < 0x10FFFF" "x < 0x10000 \<Longrightarrow> x < 0x10FFFF"
  for x :: u32
  using less_trans [of x "0x80" "0x800"] less_trans [of x "0x800" "0x10000"] less_trans [of x "0x80" "0x10000"]
    less_trans [of x "0x80" "0x200000"] less_trans [of x "0x800" "0x200000"] less_trans [of x "0x10000" "0x200000"]
    less_trans [of x "0x10FFFF" "0x200000"] less_trans [of x "0x80" "0x10FFFF"] less_trans [of x "0x800" "0x10FFFF"]
    less_trans [of x "0x10000" "0x10FFFF"] by auto

lemma utf8_next_encode:
  assumes "utf8_next m str stop = Some (str', cp)"
  shows "cp < 0x200000 \<and> (cp < 0x10FFFF \<longrightarrow> utf8_encode m str cp = (True, str', m)) \<and>
    (\<not> cp < 0x10FFFF \<longrightarrow> str' = str + 4 \<and> utf8_encode4 m str cp = m)"
  using assms utf8_encode_decode [of m str]
  by (auto simp: utf8_next_def Let_def utf8_encode_def cp_ranges split: if_splits)

text \<open>Going back over a code point that was written.\<close>

lemma sint_back:
  fixes w :: uintptr_t
  assumes "int k \<le> sint w" "j < k"
  shows "\<not> sint (w - of_nat j) < 1"
proof -
  have w: "sint w = int (unat w)" using assms sint_nonneg [of w] by linarith
  have "int (unat w) < 2 ^ 63" using w sint_lt [of w] by simp
  have le: "k \<le> unat w" using assms(1) w by linarith
  then have "unat (w - of_nat j) = unat w - j"
    using assms(2) unat_lt64 [of w] by (subst unat_sub) (simp_all add: word_le_nat_alt unat_of_nat64)
  moreover have u: "uint (w - of_nat j) = int (unat (w - of_nat j))" by simp
  ultimately have "uint (w - of_nat j) = int (unat w - j)" by (simp only:)
  moreover have "sint (w - of_nat j) = signed_take_bit 63 (uint (w - of_nat j))" by (simp add: sint_uint)
  moreover have "signed_take_bit 63 (int (unat w - j)) = int (unat w - j)"
    using \<open>int (unat w) < 2 ^ 63\<close> by (intro signed_take_bit_int_eq_self) linarith+
  ultimately have "sint (w - of_nat j) = int (unat w - j)" by (simp only:)
  then show ?thesis using le assms(2) by linarith
qed

lemma utf8_length_tail:
  "utf8_codepoint_length (utf8_encode2 m str cp) (str + 1) = 0"
  "utf8_codepoint_length (utf8_encode3 m str cp) (str + 1) = 0"
  "utf8_codepoint_length (utf8_encode3 m str cp) (str + 2) = 0"
  "utf8_codepoint_length (utf8_encode4 m str cp) (str + 1) = 0"
  "utf8_codepoint_length (utf8_encode4 m str cp) (str + 2) = 0"
  "utf8_codepoint_length (utf8_encode4 m str cp) (str + 3) = 0"
  unfolding utf8_encodeN utf8_codepoint_length_def by (simp_all add: bits8 bit_simps)

text \<open>A round of the loop at a byte that starts no code point, and at one that does.\<close>

lemma utf8_prev_round:
  assumes "\<not> sint (s' - start) < 1" "s' = str + 1"
  shows "utf8_codepoint_length m str = 0 \<Longrightarrow> utf8_prev_loop (Suc k) m s' start org = utf8_prev_loop k m str start org"
    and "utf8_codepoint_length m str = 1 \<Longrightarrow> org = str + 1 \<Longrightarrow>
      utf8_prev_loop (Suc k) m s' start org = (str, Some (utf8_decode1 m str))"
    and "utf8_codepoint_length m str = 2 \<Longrightarrow> org = str + 2 \<Longrightarrow> utf8_check2 m str \<Longrightarrow>
      utf8_prev_loop (Suc k) m s' start org = (str, Some (utf8_decode2 m str))"
    and "utf8_codepoint_length m str = 3 \<Longrightarrow> org = str + 3 \<Longrightarrow> utf8_check3 m str \<Longrightarrow>
      utf8_prev_loop (Suc k) m s' start org = (str, Some (utf8_decode3 m str))"
    and "utf8_codepoint_length m str = 4 \<Longrightarrow> org = str + 4 \<Longrightarrow> utf8_check4 m str \<Longrightarrow>
      utf8_prev_loop (Suc k) m s' start org = (str, Some (utf8_decode4 m str))"
  using assms by (simp_all add: utf8_check1_def)

declare utf8_prev_loop.simps(2) [simp del]

lemma utf8_prev_skip:
  assumes "\<And>i. 0 < i \<Longrightarrow> i < k \<Longrightarrow> utf8_codepoint_length m (str + of_nat i) = 0"
    and "int k \<le> sint (str + of_nat k - start)" "j < k" "k \<le> 4"
  shows "utf8_prev_loop 4 m (str + of_nat k) start org = utf8_prev_loop (4 - j) m (str + of_nat (k - j)) start org"
  using assms(3)
proof (induction j)
  case (Suc j)
  have "\<not> sint (str + of_nat k - start - of_nat j) < 1" using sint_back [OF assms(2)] Suc.prems by simp
  moreover have "str + of_nat k - start - of_nat j = str + of_nat (k - j) - start"
    using Suc.prems by (simp add: of_nat_diff)
  ultimately have near: "\<not> sint (str + of_nat (k - j) - start) < 1" by metis
  have up: "str + of_nat (k - j) = str + of_nat (k - Suc j) + 1"
    using Suc.prems by (simp add: of_nat_diff)
  have "utf8_prev_loop (Suc (4 - Suc j)) m (str + of_nat (k - j)) start org
      = utf8_prev_loop (4 - Suc j) m (str + of_nat (k - Suc j)) start org"
    by (rule utf8_prev_round(1) [OF near up]) (use assms(1) [of "k - Suc j"] Suc.prems in simp)
  moreover have "4 - j = Suc (4 - Suc j)" using Suc.prems assms(4) by simp
  ultimately show ?case using Suc by (simp del: of_nat_diff)
qed simp

lemma utf8_prev_found:
  assumes "\<And>i. 0 < i \<Longrightarrow> i < k \<Longrightarrow> utf8_codepoint_length m (str + of_nat i) = 0"
    and "int k \<le> sint (str + of_nat k - start)" "0 < k" "k \<le> 4"
  shows "utf8_prev m (str + of_nat k) start = utf8_prev_loop (Suc (4 - k)) m (str + 1) start (str + of_nat k)"
    and "\<not> sint (str + 1 - start) < 1"
proof -
  have k: "4 - (k - 1) = Suc (4 - k)" "k - (k - 1) = 1" using assms(3,4) by linarith+
  show "utf8_prev m (str + of_nat k) start = utf8_prev_loop (Suc (4 - k)) m (str + 1) start (str + of_nat k)"
    using utf8_prev_skip [OF assms(1,2) _ assms(4), of "k - 1" "str + of_nat k"] assms(3)
    unfolding utf8_prev_def k by simp
  have "str + of_nat k - start - of_nat (k - 1) = str + 1 - start" using assms(3) by (simp add: of_nat_diff)
  moreover have "\<not> sint (str + of_nat k - start - of_nat (k - 1)) < 1" by (rule sint_back [OF assms(2)]) (use assms(3) in simp)
  ultimately show "\<not> sint (str + 1 - start) < 1" by metis
qed

lemma utf8_encode_prev1:
  assumes "cp < 0x80" "1 \<le> sint (str + 1 - start)"
  shows "utf8_prev (utf8_encode1 m str cp) (str + 1) start = (str, Some cp)"
proof -
  let ?m = "utf8_encode1 m str cp"
  have tail: "utf8_codepoint_length ?m (str + of_nat i) = 0" if "0 < i" "i < 1" for i
  proof -
    have "False" using that by linarith
    then show ?thesis by (auto simp: utf8_length_tail)
  qed
  note found = utf8_prev_found [of 1 ?m str start, OF tail]
  have "utf8_prev ?m (str + 1) start = utf8_prev_loop (Suc (4 - 1)) ?m (str + 1) start (str + 1)"
    using found(1) assms by simp
  also have "\<dots> = (str, Some (utf8_decode1 ?m str))"
    by (rule utf8_prev_round) (use found(2) assms in \<open>simp_all add: utf8_length_encode\<close>)
  finally show ?thesis using assms by (simp add: utf8_decode_encode)
qed

lemma utf8_encode_prev2:
  assumes "\<not> cp < 0x80" "cp < 0x800" "2 \<le> sint (str + 2 - start)"
  shows "utf8_prev (utf8_encode2 m str cp) (str + 2) start = (str, Some cp)"
proof -
  let ?m = "utf8_encode2 m str cp"
  have tail: "utf8_codepoint_length ?m (str + of_nat i) = 0" if "0 < i" "i < 2" for i
  proof -
    have "i = 1" using that by linarith
    then show ?thesis by (auto simp: utf8_length_tail)
  qed
  note found = utf8_prev_found [of 2 ?m str start, OF tail]
  have "utf8_prev ?m (str + 2) start = utf8_prev_loop (Suc (4 - 2)) ?m (str + 1) start (str + 2)"
    using found(1) assms by simp
  also have "\<dots> = (str, Some (utf8_decode2 ?m str))"
    by (rule utf8_prev_round) (use found(2) assms in \<open>simp_all add: utf8_length_encode utf8_check_encode\<close>)
  finally show ?thesis using assms by (simp add: utf8_decode_encode)
qed

lemma utf8_encode_prev3:
  assumes "\<not> cp < 0x800" "cp < 0x10000" "3 \<le> sint (str + 3 - start)"
  shows "utf8_prev (utf8_encode3 m str cp) (str + 3) start = (str, Some cp)"
proof -
  let ?m = "utf8_encode3 m str cp"
  have tail: "utf8_codepoint_length ?m (str + of_nat i) = 0" if "0 < i" "i < 3" for i
  proof -
    have "i = 1 \<or> i = 2" using that by linarith
    then show ?thesis by (auto simp: utf8_length_tail)
  qed
  note found = utf8_prev_found [of 3 ?m str start, OF tail]
  have "utf8_prev ?m (str + 3) start = utf8_prev_loop (Suc (4 - 3)) ?m (str + 1) start (str + 3)"
    using found(1) assms by simp
  also have "\<dots> = (str, Some (utf8_decode3 ?m str))"
    by (rule utf8_prev_round) (use found(2) assms in \<open>simp_all add: utf8_length_encode utf8_check_encode\<close>)
  finally show ?thesis using assms by (simp add: utf8_decode_encode)
qed

lemma utf8_encode_prev4:
  assumes "\<not> cp < 0x10000" "cp < 0x200000" "4 \<le> sint (str + 4 - start)"
  shows "utf8_prev (utf8_encode4 m str cp) (str + 4) start = (str, Some cp)"
proof -
  let ?m = "utf8_encode4 m str cp"
  have tail: "utf8_codepoint_length ?m (str + of_nat i) = 0" if "0 < i" "i < 4" for i
  proof -
    have "i = 1 \<or> i = 2 \<or> i = 3" using that by linarith
    then show ?thesis by (auto simp: utf8_length_tail)
  qed
  note found = utf8_prev_found [of 4 ?m str start, OF tail]
  have "utf8_prev ?m (str + 4) start = utf8_prev_loop (Suc (4 - 4)) ?m (str + 1) start (str + 4)"
    using found(1) assms by simp
  also have "\<dots> = (str, Some (utf8_decode4 ?m str))"
    by (rule utf8_prev_round) (use found(2) assms in \<open>simp_all add: utf8_length_encode utf8_check_encode\<close>)
  finally show ?thesis using assms by (simp add: utf8_decode_encode)
qed

lemma utf8_encode_prev:
  assumes "cp < 0x10FFFF"
  obtains k m' where "0 < k" "k \<le> 4" "utf8_encode m str cp = (True, str + of_nat k, m')"
    "\<And>stop. int k \<le> sint (stop - str) \<Longrightarrow> utf8_next m' str stop = Some (str + of_nat k, cp)"
    "\<And>start. int k \<le> sint (str + of_nat k - start) \<Longrightarrow> utf8_prev m' (str + of_nat k) start = (str, Some cp)"
proof -
  consider "cp < 0x80" | "\<not> cp < 0x80" "cp < 0x800" | "\<not> cp < 0x800" "cp < 0x10000" | "\<not> cp < 0x10000" by blast
  then show ?thesis
  proof cases
    case 1
    then show ?thesis
      by (intro that [of 1 "utf8_encode1 m str cp"]) (simp_all add: utf8_encode_prev1 utf8_encode_def utf8_next_def
          utf8_length_encode utf8_decode_encode utf8_check1_def)
  next
    case 2
    then show ?thesis
      by (intro that [of 2 "utf8_encode2 m str cp"]) (simp_all add: utf8_encode_prev2 utf8_encode_def utf8_next_def
          utf8_length_encode utf8_decode_encode utf8_check_encode)
  next
    case 3
    then show ?thesis
      by (intro that [of 3 "utf8_encode3 m str cp"]) (simp_all add: utf8_encode_prev3 utf8_encode_def utf8_next_def
          utf8_length_encode utf8_decode_encode utf8_check_encode cp_ranges)
  next
    case 4
    with assms show ?thesis
      by (intro that [of 4 "utf8_encode4 m str cp"]) (simp_all add: utf8_encode_prev4 utf8_encode_def utf8_next_def
          utf8_length_encode utf8_decode_encode utf8_check_encode cp_ranges)
  qed
qed

text \<open>A text is counted by the steps that lead to its end.\<close>

lemma utf8_advance_step_end: "utf8_advance_step m stop stop = None"
  by (simp add: utf8_advance_step_def Let_def)

lemma utf8_distance_ge: "utf8_distance_loop m str stop d = (b, n) \<Longrightarrow> d \<le> n"
proof (induction m str stop d rule: utf8_distance_loop.induct)
  case (1 m str stop d)
  from 1(2) show ?case
    by (subst (asm) utf8_distance_loop.simps) (auto split: if_splits option.splits dest: 1(1))
qed

lemma utf8_distance_advance:
  "utf8_distance_loop m str stop d = (True, d + n) \<longleftrightarrow> utf8_advance n m str stop = (True, stop)"
proof (induction n arbitrary: str d)
  case 0
  show ?case by (subst utf8_distance_loop.simps) (auto split: option.split dest: utf8_distance_ge)
next
  case (Suc n)
  show ?case
  proof (cases "str = stop")
    case True
    then show ?thesis by (subst utf8_distance_loop.simps) (simp add: utf8_advance_step_end)
  next
    case False
    then show ?thesis using Suc.IH [of _ "d + 1"]
      by (subst utf8_distance_loop.simps) (auto split: option.split)
  qed
qed

lemma utf16_decode_encode:
  "cp < 0x10000 \<Longrightarrow> utf16_decode1 (utf16_encode1 m str cp) str = cp \<longleftrightarrow> \<not> bit cp 7 \<and> \<not> bit cp 15"
  "cp < 0x100000 \<Longrightarrow> utf16_decode2 (utf16_encode2 m str cp) str = cp"
  "utf16_codepoint_length (utf16_encode2 m str cp) str = 2"
  "utf16_check2 (utf16_encode2 m str cp) str"
  unfolding cp_less utf16_encode1_def utf16_encode2_def utf16_decode1_def utf16_decode2_def
    utf16_codepoint_length_def utf16_check2_def
  by (auto simp: bits32 bits8 bit_simps)

section \<open>Properties\<close>

text \<open>
  C27. UTF-8 round trip: every code point below 0x10FFFF is written in one to four bytes, which \<^verbatim>\<open>utf8_next\<close>
  reads back, leaving the pointer after them, for every end that does not cut them short, and which
  \<^verbatim>\<open>utf8_prev\<close> reads back from behind, for every begin that does not.
\<close>

theorem utf8_roundtrip:
  assumes "cp < 0x10FFFF"
  shows "\<exists>k m'. 0 < k \<and> k \<le> 4 \<and> utf8_encode m str cp = (True, str + of_nat k, m')
    \<and> (\<forall>stop. int k \<le> sint (stop - str) \<longrightarrow> utf8_next m' str stop = Some (str + of_nat k, cp))
    \<and> (\<forall>start. int k \<le> sint (str + of_nat k - start) \<longrightarrow> utf8_prev m' (str + of_nat k) start = (str, Some cp))"
  using utf8_encode_prev [OF assms, of m str] by metis

theorem utf8_roundtrip_witness:
  "\<exists>m'. utf8_encode (\<lambda>_. 0) 0x1000 0x20AC = (True, 0x1003, m') \<and> utf8_next m' 0x1000 0x1003 = Some (0x1003, 0x20AC)"
proof -
  obtain k m' where "utf8_encode (\<lambda>_. 0) 0x1000 0x20AC = (True, 0x1000 + of_nat k, m')" "k \<le> 4"
    and nx: "\<forall>stop. int k \<le> sint (stop - 0x1000) \<longrightarrow> utf8_next m' 0x1000 stop = Some (0x1000 + of_nat k, 0x20AC)"
    using utf8_roundtrip [of "0x20AC" "\<lambda>_. 0" "0x1000"] by auto
  moreover have "fst (snd (utf8_encode (\<lambda>_. 0) 0x1000 0x20AC)) = 0x1003" by (simp add: utf8_encode_def)
  moreover have "k = 3" if "(0x1000 :: uintptr_t) + of_nat k = 0x1003" "k \<le> 4"
    using that unat_of_nat64 [of k] arg_cong [of "of_nat k :: uintptr_t" 3 unat] by auto
  ultimately have "k = 3" by simp
  with nx \<open>utf8_encode _ _ _ = _\<close> show ?thesis by simp
qed

text \<open>
  C28. UTF-8 has one spelling per code point, and \<^verbatim>\<open>utf8_next\<close> accepts no other: overlong forms and broken continuations are
  refused. Bytes from which it reads a code point below 0x10FFFF are the bytes \<^verbatim>\<open>utf8_encode\<close> writes for it, since writing
  it there changes nothing. But it also accepts code points from 0x10FFFF to 0x1FFFFF, in the one
  four-byte form each of them has, while \<^verbatim>\<open>utf8_encode\<close> refuses all of these.
\<close>

theorem utf8_canonical:
  assumes "utf8_next m str stop = Some (str', cp)"
  shows "cp \<le> 0x1FFFFF \<and>
    (if cp < 0x10FFFF then utf8_encode m str cp = (True, str', m)
     else utf8_encode m str cp = (False, str, m) \<and> str' = str + 4 \<and> utf8_encode4 m str cp = m)"
proof -
  have "\<not> cp < 0x10FFFF \<Longrightarrow> utf8_encode m str cp = (False, str, m)" using cp_ranges(8-10) [of cp] by (auto simp: utf8_encode_def)
  then show ?thesis using utf8_next_encode [OF assms] by (simp add: less_le_not_le) (auto simp: word_le_nat_alt word_less_nat_alt)
qed

theorem utf8_canonical_witness:
  "utf8_encode ((\<lambda>_. 0)(0 := 0xC3, 1 := 0xA9)) 0 0xE9 = (True, 2, (\<lambda>_. 0)(0 := 0xC3, 1 := 0xA9)) \<and>
   utf8_next ((\<lambda>_. 0)(0 := 0xF4, 1 := 0x8F, 2 := 0xBF, 3 := 0xBF)) 0 4 = Some (4, 0x10FFFF) \<and>
   \<not> fst (utf8_encode ((\<lambda>_. 0)(0 := 0xF4, 1 := 0x8F, 2 := 0xBF, 3 := 0xBF)) 0 0x10FFFF)"
proof -
  have e: "utf8_next ((\<lambda>_. 0)(0 := 0xC3, 1 := 0xA9)) 0 2 = Some (2, 0xE9)" by code_simp
  have m: "utf8_next ((\<lambda>_. 0)(0 := 0xF4, 1 := 0x8F, 2 := 0xBF, 3 := 0xBF)) 0 4 = Some (4, 0x10FFFF)" by code_simp
  from utf8_canonical [OF e] utf8_canonical [OF m] m show ?thesis by simp
qed

text \<open>
  \<^verbatim>\<open>utf8_distance\<close> always returns, and answers \<open>n\<close> exactly when \<open>n\<close> steps of \<^verbatim>\<open>utf8_advance\<close> lead from
  the start of the text to its end; it fails exactly when \<^verbatim>\<open>utf8_is_valid\<close> rejects the text.
\<close>

lemma utf8_distance_counts:
  "(utf8_distance m str stop = (True, n)) = (utf8_advance n m str stop = (True, stop))
   \<and> fst (utf8_distance m str stop) = utf8_is_valid m str stop"
  using utf8_distance_advance [of m str stop 0 n] utf8_distance_valid [of m str stop 0]
  by (simp add: utf8_distance_def utf8_is_valid_def)

text \<open>
  C29. UTF-16 reads back what it wrote in the four-byte form, but of the code points it writes in two bytes
  only those whose bytes are both below 0x80: \<^verbatim>\<open>utf16_decode1\<close> widens signed characters without a mask.
\<close>

theorem utf16_sign_extension:
  assumes "cp < 0x100000"
  shows "if cp < 0x10000
    then (utf16_decode1 (utf16_encode1 m str cp) str = cp) = (\<not> bit cp 7 \<and> \<not> bit cp 15)
    else utf16_encode m str cp = (True, str + 4, utf16_encode2 m str cp)
      \<and> utf16_decode (utf16_encode2 m str cp) str = Some (str + 4, cp)"
  using assms by (simp add: utf16_decode_encode utf16_encode_def utf16_decode_def)

theorem utf16_sign_extension_witness: "utf16_decode1 (utf16_encode1 (\<lambda>_. 0) 0 0xE9) 0 \<noteq> 0xE9"
  using utf16_sign_extension [of "0xE9" "\<lambda>_. 0" 0] by simp

end
