(* ===== verification/Sched.thy ===== *)
theory Sched
  imports Ktime
begin

text \<open>
  Scheduling (kern/sched.c) and wait queues (kern/waitq.c): per-processor run queues in order of priority,
  the choice of the next thread, queues of sleeping threads and the queue of timeouts. Threads, processors
  and wait queues are named by numbers; a NULL thread is \<open>None\<close>. One call of a function of these files is one
  step: the run queues, wait queues and the timeout queue are each touched under their own lock only. A call
  that sleeps is split at \<^verbatim>\<open>arch_waitq_sleep\<close>: the functions here end when the thread is asleep, and
  \<open>waitq_ret\<close> is what the call returns when it runs again. What a context switch does to registers, address
  spaces, reference counts and time accounting is not part of the state.
\<close>

section \<open>State\<close>

type_synonym tid = nat

datatype thread_state = THREAD_RUNNING | THREAD_PAUSED | THREAD_WAITING | THREAD_STOPPED | THREAD_ZOMBIE

text \<open>
  \<open>proc_stopped\<close> is \<^verbatim>\<open>proc->state == PROC_STOPPED\<close>; \<open>affinity\<close> holds of the processors in the mask.
\<close>

record thread =
  state :: thread_state
  proc_stopped :: bool
  tf_nest_level :: nat
  wait_timeout :: timespec
  waitq :: "nat option"
  wait_cpuid :: nat
  running_cpuid :: "nat option"
  nctxsw :: nat
  waitq_ret :: int
  affinity :: "nat \<Rightarrow> bool"
  pri :: int
  runq :: "nat option"

record cpu =
  thread :: "tid option"
  idlethread :: "tid option"
  must_resched :: bool

record sched =
  threads :: "tid \<Rightarrow> thread"
  watchers :: "nat \<Rightarrow> tid list"
  timeout_threads :: "tid list"
  runqs :: "nat \<Rightarrow> tid list"
  last_tick :: "nat \<Rightarrow> timespec"
  cpus :: "nat \<Rightarrow> cpu"
  ncpus :: nat
  g_init :: bool
  monotonic :: timespec

text \<open>Calls that panic, or follow a NULL pointer, do not return.\<close>

datatype fault = Panic | Null_deref

type_synonym 'a outcome = "fault + 'a"

definition andthen :: "'a outcome \<Rightarrow> ('a \<Rightarrow> 'b outcome) \<Rightarrow> 'b outcome" where
  "andthen r f = (case r of Inl e \<Rightarrow> Inl e | Inr x \<Rightarrow> f x)"

definition upd_thread :: "tid \<Rightarrow> (thread \<Rightarrow> thread) \<Rightarrow> sched \<Rightarrow> sched" where
  "upd_thread t f s = s\<lparr>threads := (threads s)(t := f (threads s t))\<rparr>"

definition upd_cpu :: "nat \<Rightarrow> (cpu \<Rightarrow> cpu) \<Rightarrow> sched \<Rightarrow> sched" where
  "upd_cpu i f s = s\<lparr>cpus := (cpus s)(i := f (cpus s i))\<rparr>"

section \<open>Run queues\<close>

definition sched_init :: "sched \<Rightarrow> sched" where
  "sched_init s = s\<lparr>runqs := (\<lambda>_. []), g_init := True\<rparr>"

definition runq_enqueue :: "nat \<Rightarrow> tid \<Rightarrow> sched \<Rightarrow> sched" where
  "runq_enqueue q t s =
     (let s' = s\<lparr>runqs := (runqs s)(q := insert_before_first
                 (\<lambda>it. \<not> pri (threads s t) \<ge> pri (threads s it)) t (runqs s q))\<rparr>
      in upd_thread t (\<lambda>th. th\<lparr>runq := Some q\<rparr>) s')"

text \<open>\<open>c\<close> is the number of the processor the call runs on.\<close>

definition sched_enqueue :: "nat \<Rightarrow> tid option \<Rightarrow> sched \<Rightarrow> sched outcome" where
  "sched_enqueue c t s =
     (case t of None \<Rightarrow> Inl Null_deref | Some t \<Rightarrow> Inr (runq_enqueue c t s))"

definition runq_remove :: "nat \<Rightarrow> tid \<Rightarrow> sched \<Rightarrow> sched" where
  "runq_remove q t s =
     (upd_thread t (\<lambda>th. th\<lparr>runq := None\<rparr>) s)\<lparr>runqs := (runqs s)(q := remove1 t (runqs s q))\<rparr>"

definition sched_dequeue :: "tid \<Rightarrow> sched \<Rightarrow> sched" where
  "sched_dequeue t s =
     (case runq (threads s t) of None \<Rightarrow> s | Some q \<Rightarrow> runq_remove q t s)"

section \<open>Choosing a thread\<close>

definition runnable :: "nat \<Rightarrow> nat \<Rightarrow> bool \<Rightarrow> sched \<Rightarrow> tid \<Rightarrow> bool" where
  "runnable c cpuid ignoreidle s t \<longleftrightarrow>
     (if state (threads s t) \<noteq> THREAD_PAUSED then False
      else if tf_nest_level (threads s t) > 1 \<and> cpuid \<noteq> c then False
      else if ignoreidle \<and> idlethread (cpus s cpuid) = Some t then False
      else if \<not> affinity (threads s t) c then False
      else True)"

definition find_runq_thread :: "nat \<Rightarrow> nat \<Rightarrow> bool \<Rightarrow> sched \<Rightarrow> tid option \<times> sched" where
  "find_runq_thread c cpuid ignoreidle s =
     (case List.find (runnable c cpuid ignoreidle s) (runqs s cpuid) of
        None \<Rightarrow> (None, s)
      | Some t \<Rightarrow> (Some t, runq_remove cpuid t s))"

fun find_thread_loop :: "nat \<Rightarrow> tid option \<Rightarrow> nat list \<Rightarrow> sched \<Rightarrow> (tid option \<times> sched) outcome" where
  "find_thread_loop c t [] s = Inr (t, s)"
| "find_thread_loop c t (i # is) s =
     (if i = c then find_thread_loop c t is s
      else let (other, s') = find_runq_thread c i True s
           in case other of
                None \<Rightarrow> find_thread_loop c t is s'
              | Some other \<Rightarrow> andthen (sched_enqueue c t s') (\<lambda>s''. Inr (Some other, s'')))"

definition find_thread :: "nat \<Rightarrow> bool \<Rightarrow> sched \<Rightarrow> (tid option \<times> sched) outcome" where
  "find_thread c ignoreidle s =
     (let (t, s') = find_runq_thread c c ignoreidle s
      in if t \<noteq> None \<and> t \<noteq> idlethread (cpus s' c) then Inr (t, s')
         else find_thread_loop c t [0..<ncpus s] s')"

fun better_scan :: "nat \<Rightarrow> nat \<Rightarrow> tid option \<Rightarrow> bool \<Rightarrow> sched \<Rightarrow> tid list \<Rightarrow> tid option" where
  "better_scan c cpuid relative ignoreidle s [] = None"
| "better_scan c cpuid relative ignoreidle s (t # ts) =
     (if relative = Some t then better_scan c cpuid relative ignoreidle s ts
      else if state (threads s t) \<noteq> THREAD_PAUSED then better_scan c cpuid relative ignoreidle s ts
      else if tf_nest_level (threads s t) > 1 \<and> cpuid \<noteq> c then better_scan c cpuid relative ignoreidle s ts
      else if ignoreidle \<and> idlethread (cpus s cpuid) = Some t then better_scan c cpuid relative ignoreidle s ts
      else if (case relative of None \<Rightarrow> False | Some r \<Rightarrow> pri (threads s t) > pri (threads s r)) then None
      else if \<not> affinity (threads s t) c then better_scan c cpuid relative ignoreidle s ts
      else Some t)"

definition find_better_runq_thread :: "nat \<Rightarrow> nat \<Rightarrow> tid option \<Rightarrow> bool \<Rightarrow> sched \<Rightarrow> tid option \<times> sched" where
  "find_better_runq_thread c cpuid relative ignoreidle s =
     (case better_scan c cpuid relative ignoreidle s (runqs s cpuid) of
        None \<Rightarrow> (None, s)
      | Some t \<Rightarrow> (Some t, runq_remove cpuid t s))"

fun find_better_loop :: "nat \<Rightarrow> tid option \<Rightarrow> tid option \<Rightarrow> nat list \<Rightarrow> sched \<Rightarrow> tid option \<times> sched" where
  "find_better_loop c cur t [] s = (t, s)"
| "find_better_loop c cur t (i # is) s =
     (if i = c then find_better_loop c cur t is s
      else let (other, s') = find_better_runq_thread c i cur True s
           in case other of None \<Rightarrow> find_better_loop c cur t is s' | Some _ \<Rightarrow> (other, s'))"

definition find_better_thread :: "nat \<Rightarrow> bool \<Rightarrow> sched \<Rightarrow> tid option \<times> sched" where
  "find_better_thread c ignoreidle s =
     (let cur = thread (cpus s c);
          (t, s') = find_better_runq_thread c c cur ignoreidle s
      in if t \<noteq> None \<and> t \<noteq> idlethread (cpus s' c) then (t, s')
         else find_better_loop c cur t [0..<ncpus s] s')"

section \<open>Switching\<close>

definition switch_thread :: "nat \<Rightarrow> tid \<Rightarrow> sched \<Rightarrow> sched outcome" where
  "switch_thread c t s =
     (case thread (cpus s c) of
        None \<Rightarrow> Inl Null_deref
      | Some current \<Rightarrow>
          Inr (upd_thread t (\<lambda>th. th\<lparr>running_cpuid := Some c, state := THREAD_RUNNING\<rparr>)
                (upd_cpu c (\<lambda>cpu. cpu\<lparr>thread := Some t\<rparr>)
                  (upd_thread current (\<lambda>th. th\<lparr>nctxsw := nctxsw th + 1, running_cpuid := None\<rparr>) s))))"

definition sched_switch :: "nat \<Rightarrow> tid \<Rightarrow> sched \<Rightarrow> sched outcome" where
  "sched_switch c t s =
     (let cur = thread (cpus s c)
      in if cur = Some t then Inr s
         else andthen
           (case cur of
              None \<Rightarrow> Inr s
            | Some ct \<Rightarrow>
                if state (threads s ct) = THREAD_RUNNING
                then sched_enqueue c cur (upd_thread ct (\<lambda>th. th\<lparr>state := THREAD_PAUSED\<rparr>) s)
                else Inr s)
           (switch_thread c t))"

definition test_better_thread :: "nat \<Rightarrow> sched \<Rightarrow> sched outcome" where
  "test_better_thread c s =
     (let (better, s') = find_better_thread c True s
      in case better of None \<Rightarrow> Inr s' | Some t \<Rightarrow> sched_switch c t s')"

definition sched_ipi :: "nat \<Rightarrow> sched \<Rightarrow> sched" where
  "sched_ipi c s =
     s\<lparr>cpus := (\<lambda>i. if i < ncpus s \<and> i \<noteq> c then (cpus s i)\<lparr>must_resched := True\<rparr> else cpus s i)\<rparr>"

definition sched_run :: "nat \<Rightarrow> tid \<Rightarrow> sched \<Rightarrow> sched outcome" where
  "sched_run c t s =
     (let s' = runq_enqueue (wait_cpuid (threads s t)) t s
      in andthen
           (if thread (cpus s' c) = idlethread (cpus s' c) then test_better_thread c s' else Inr s')
           (\<lambda>s''. Inr (sched_ipi c s'')))"

definition test_paused_thread :: "nat \<Rightarrow> sched \<Rightarrow> (bool \<times> sched) outcome" where
  "test_paused_thread c s =
     (case thread (cpus s c) of
        None \<Rightarrow> Inr (False, s)
      | Some ct \<Rightarrow>
          if state (threads s ct) \<noteq> THREAD_RUNNING
          then andthen (find_thread c False s) (\<lambda>(t, s').
                 case t of
                   None \<Rightarrow> Inl Panic
                 | Some t \<Rightarrow> andthen (sched_switch c t s') (\<lambda>s''. Inr (True, s'')))
          else Inr (False, s))"

definition sched_resched :: "nat \<Rightarrow> sched \<Rightarrow> sched outcome" where
  "sched_resched c s =
     andthen (test_paused_thread c s) (\<lambda>(switched, s').
       if switched then Inr s' else test_better_thread c s')"

definition sched_test :: "nat \<Rightarrow> sched \<Rightarrow> sched outcome" where
  "sched_test c s =
     (if \<not> g_init s then Inr s else andthen (test_paused_thread c s) (\<lambda>(_, s'). Inr s'))"

definition sched_tick :: "nat \<Rightarrow> sched \<Rightarrow> sched outcome" where
  "sched_tick c s =
     (if \<not> g_init s then Inr s
      else let current = monotonic s;
               diff = timespec_diff current (last_tick s c)
           in if timespec.tv_sec diff = 0 \<and> tv_nsec diff < 10000000 then Inr s
              else andthen (test_better_thread c (s\<lparr>last_tick := (last_tick s)(c := current)\<rparr>))
                     (\<lambda>s'. Inr (sched_ipi c s')))"

section \<open>Wait queues\<close>

definition waitq_init :: "nat \<Rightarrow> sched \<Rightarrow> sched" where
  "waitq_init q s = s\<lparr>watchers := (watchers s)(q := [])\<rparr>"

definition waitq_destroy :: "nat \<Rightarrow> sched \<Rightarrow> sched outcome" where
  "waitq_destroy q s = (if watchers s q = [] then Inr s else Inl Panic)"

definition wakeup_thread :: "nat \<Rightarrow> nat \<Rightarrow> tid \<Rightarrow> int \<Rightarrow> sched \<Rightarrow> sched outcome" where
  "wakeup_thread c q t reason s =
     (let s1 = s\<lparr>watchers := (watchers s)(q := remove1 t (watchers s q))\<rparr>
      in if state (threads s1 t) \<noteq> THREAD_WAITING then Inl Panic
         else let s2 = upd_thread t (\<lambda>th. th\<lparr>state := (if proc_stopped th then THREAD_STOPPED else THREAD_PAUSED),
                                       waitq := None, waitq_ret := reason\<rparr>) s1
              in if state (threads s2 t) = THREAD_PAUSED then sched_run c t s2 else Inr s2)"

definition has_timeout :: "thread \<Rightarrow> bool" where
  "has_timeout th \<longleftrightarrow> timespec.tv_sec (wait_timeout th) \<noteq> 0 \<or> tv_nsec (wait_timeout th) \<noteq> 0"

definition waitq_wakeup_thread :: "nat \<Rightarrow> nat \<Rightarrow> tid \<Rightarrow> int \<Rightarrow> sched \<Rightarrow> sched outcome" where
  "waitq_wakeup_thread c q t reason s =
     wakeup_thread c q t reason
       (if has_timeout (threads s t) then s\<lparr>timeout_threads := remove1 t (timeout_threads s)\<rparr> else s)"

definition add_waiting_thread :: "tid \<Rightarrow> sched \<Rightarrow> sched" where
  "add_waiting_thread t s =
     s\<lparr>timeout_threads := insert_before_first
         (\<lambda>it. timespec_cmp (wait_timeout (threads s t)) (wait_timeout (threads s it)) < 0) t (timeout_threads s)\<rparr>"

definition prepare_sleep :: "nat \<Rightarrow> tid \<Rightarrow> nat \<Rightarrow> timespec option \<Rightarrow> sched \<Rightarrow> sched outcome" where
  "prepare_sleep c t q tmo s =
     (if state (threads s t) \<noteq> THREAD_RUNNING then Inl Panic
      else let s1 = upd_thread t (\<lambda>th. th\<lparr>state := THREAD_WAITING, waitq := Some q, wait_cpuid := c\<rparr>) s
           in case tmo of
                None \<Rightarrow> Inr (upd_thread t (\<lambda>th. th\<lparr>wait_timeout := Timespec 0 0\<rparr>) s1)
              | Some tmo \<Rightarrow>
                  Inr (add_waiting_thread t
                    (upd_thread t (\<lambda>th. th\<lparr>wait_timeout := timespec_add (monotonic s) tmo\<rparr>) s1)))"

definition do_sleep :: "nat \<Rightarrow> tid \<Rightarrow> nat \<Rightarrow> timespec option \<Rightarrow> sched \<Rightarrow> sched outcome" where
  "do_sleep c t q tmo s =
     (if thread (cpus s c) = idlethread (cpus s c) then Inl Panic
      else prepare_sleep c t q tmo s)"

definition waitq_wait_tail :: "nat \<Rightarrow> nat \<Rightarrow> timespec option \<Rightarrow> sched \<Rightarrow> sched outcome" where
  "waitq_wait_tail c q tmo s =
     (case thread (cpus s c) of
        None \<Rightarrow> Inl Null_deref
      | Some t \<Rightarrow> do_sleep c t q tmo (s\<lparr>watchers := (watchers s)(q := watchers s q @ [t])\<rparr>))"

definition waitq_wait_head :: "nat \<Rightarrow> nat \<Rightarrow> timespec option \<Rightarrow> sched \<Rightarrow> sched outcome" where
  "waitq_wait_head c q tmo s =
     (case thread (cpus s c) of
        None \<Rightarrow> Inl Null_deref
      | Some t \<Rightarrow> do_sleep c t q tmo (s\<lparr>watchers := (watchers s)(q := t # watchers s q)\<rparr>))"

definition asleep_on :: "nat \<Rightarrow> sched \<Rightarrow> tid \<Rightarrow> bool" where
  "asleep_on q s t \<longleftrightarrow> state (threads s t) = THREAD_WAITING \<and> waitq (threads s t) = Some q"

definition waitq_signal :: "nat \<Rightarrow> nat \<Rightarrow> int \<Rightarrow> sched \<Rightarrow> (int \<times> sched) outcome" where
  "waitq_signal c q reason s =
     (case List.find (asleep_on q s) (watchers s q) of
        None \<Rightarrow> Inr (0, s)
      | Some t \<Rightarrow> andthen (waitq_wakeup_thread c q t reason s) (\<lambda>s'. Inr (1, s')))"

fun broadcast_loop :: "nat \<Rightarrow> nat \<Rightarrow> int \<Rightarrow> tid list \<Rightarrow> int \<Rightarrow> sched \<Rightarrow> (int \<times> sched) outcome" where
  "broadcast_loop c q reason [] res s = Inr (res, s)"
| "broadcast_loop c q reason (t # ts) res s =
     (if asleep_on q s t
      then andthen (waitq_wakeup_thread c q t reason s) (broadcast_loop c q reason ts (res + 1))
      else broadcast_loop c q reason ts res s)"

definition waitq_broadcast :: "nat \<Rightarrow> nat \<Rightarrow> int \<Rightarrow> sched \<Rightarrow> (int \<times> sched) outcome" where
  "waitq_broadcast c q reason s = broadcast_loop c q reason (watchers s q) 0 s"

text \<open>\<^verbatim>\<open>-EWOULDBLOCK\<close>.\<close>

definition EWOULDBLOCK :: int where
  "EWOULDBLOCK = 6"

section \<open>What scheduling leaves alone\<close>

lemmas upds = upd_thread_def upd_cpu_def

lemma andthen_Inr [simp]: "andthen (Inr x) f = f x"
  by (simp add: andthen_def)

lemma andthen_eq_Inr: "andthen r f = Inr y \<longleftrightarrow> (\<exists>x. r = Inr x \<and> f x = Inr y)"
  by (cases r) (auto simp: andthen_def)

text \<open>The sleepers of two states are the same.\<close>

definition same_waits :: "sched \<Rightarrow> sched \<Rightarrow> bool" where
  "same_waits s s' \<longleftrightarrow> watchers s' = watchers s \<and> timeout_threads s' = timeout_threads s \<and> (\<forall>t.
     waitq (threads s' t) = waitq (threads s t) \<and> wait_timeout (threads s' t) = wait_timeout (threads s t) \<and>
     wait_cpuid (threads s' t) = wait_cpuid (threads s t) \<and> pri (threads s' t) = pri (threads s t) \<and>
     waitq_ret (threads s' t) = waitq_ret (threads s t) \<and>
     (state (threads s' t) = THREAD_WAITING \<longleftrightarrow> state (threads s t) = THREAD_WAITING) \<and>
     (state (threads s' t) = THREAD_STOPPED \<longleftrightarrow> state (threads s t) = THREAD_STOPPED))"

lemma same_waits_refl [simp]: "same_waits s s"
  by (simp add: same_waits_def)

lemma same_waits_trans: "same_waits s s' \<Longrightarrow> same_waits s' s'' \<Longrightarrow> same_waits s s''"
  by (simp add: same_waits_def)

lemma runq_enqueue_waits: "same_waits s (runq_enqueue q t s)"
  by (simp add: same_waits_def runq_enqueue_def upds Let_def)

lemma runq_remove_waits: "same_waits s (runq_remove q t s)"
  by (simp add: same_waits_def runq_remove_def upds)

lemma better_scan_Some:
  "better_scan c cpuid relative ignoreidle s ts = Some t \<Longrightarrow> t \<in> set ts \<and> state (threads s t) = THREAD_PAUSED \<and> relative \<noteq> Some t"
  by (induction ts) (auto split: if_splits)

text \<open>A thread found for a processor: taken off a run queue, paused, and not the relative it is better than.\<close>

definition taken :: "sched \<Rightarrow> tid option \<Rightarrow> sched \<Rightarrow> bool" where
  "taken s r s' \<longleftrightarrow> (case r of
      None \<Rightarrow> s' = s
    | Some t \<Rightarrow> \<exists>q. t \<in> set (runqs s q) \<and> s' = runq_remove q t s \<and> state (threads s t) = THREAD_PAUSED)"

lemma find_runq_thread_taken: "find_runq_thread c i b s = (r, s') \<Longrightarrow> taken s r s'"
  by (auto simp: find_runq_thread_def taken_def runnable_def find_Some_iff split: option.splits if_splits dest: nth_mem)

lemma find_better_runq_thread_taken: "find_better_runq_thread c i rel b s = (r, s') \<Longrightarrow> taken s r s' \<and> (r \<noteq> None \<longrightarrow> r \<noteq> rel)"
  by (auto simp: find_better_runq_thread_def taken_def split: option.splits dest: better_scan_Some)

lemma better_scan_busy:
  "better_scan c cpuid relative True s ts = Some t \<Longrightarrow> idlethread (cpus s cpuid) \<noteq> Some t"
  by (induction ts) (auto split: if_splits)

lemma find_better_loop_taken:
  "find_better_loop c cur None is s = (r, s') \<Longrightarrow> taken s r s' \<and> (r \<noteq> None \<longrightarrow> r \<noteq> cur)"
proof (induction "is" arbitrary: s)
  case Nil
  then show ?case by (simp add: taken_def)
next
  case (Cons i "is")
  obtain r1 s1 where f: "find_better_runq_thread c i cur True s = (r1, s1)" by fastforce
  from find_better_runq_thread_taken [OF f] Cons f show ?case
    by (cases r1) (auto split: if_splits simp: taken_def)
qed

lemma find_better_thread_taken:
  assumes "find_better_thread c True s = (r, s')"
  shows "taken s r s' \<and> (r \<noteq> None \<longrightarrow> r \<noteq> thread (cpus s c))"
proof -
  obtain r1 s1 where f: "find_better_runq_thread c c (thread (cpus s c)) True s = (r1, s1)" by fastforce
  have busy: "r1 \<noteq> None \<Longrightarrow> r1 \<noteq> idlethread (cpus s1 c)"
    using f by (auto simp: find_better_runq_thread_def runq_remove_def upds split: option.splits dest!: better_scan_busy)
  from find_better_runq_thread_taken [OF f] have t1: "taken s r1 s1 \<and> (r1 \<noteq> None \<longrightarrow> r1 \<noteq> thread (cpus s c))" .
  show ?thesis
  proof (cases r1)
    case None
    then have "s1 = s" using t1 by (simp add: taken_def)
    with None f assms find_better_loop_taken [of c "thread (cpus s c)" "[0..<ncpus s]" s r s']
    show ?thesis by (simp add: find_better_thread_def)
  next
    case (Some t)
    with f assms busy t1 show ?thesis by (simp add: find_better_thread_def)
  qed
qed

section \<open>Invariant\<close>

definition runq_wf :: "sched \<Rightarrow> bool" where
  "runq_wf s \<longleftrightarrow>
     (\<forall>q. distinct (runqs s q) \<and> sorted (map (\<lambda>t. pri (threads s t)) (runqs s q)) \<and>
          (\<forall>t. t \<in> set (runqs s q) \<longleftrightarrow> runq (threads s t) = Some q)) \<and>
     (\<forall>t. runq (threads s t) \<noteq> None \<longrightarrow>
          state (threads s t) \<noteq> THREAD_RUNNING \<and> state (threads s t) \<noteq> THREAD_WAITING)"

definition wait_wf :: "sched \<Rightarrow> bool" where
  "wait_wf s \<longleftrightarrow>
     (\<forall>q. distinct (watchers s q) \<and> (\<forall>t. t \<in> set (watchers s q) \<longleftrightarrow> waitq (threads s t) = Some q)) \<and>
     (\<forall>t. waitq (threads s t) \<noteq> None \<longleftrightarrow> state (threads s t) = THREAD_WAITING) \<and>
     distinct (timeout_threads s) \<and> sorted (map (\<lambda>t. wait_timeout (threads s t)) (timeout_threads s)) \<and>
     (\<forall>t. t \<in> set (timeout_threads s) \<longleftrightarrow> waitq (threads s t) \<noteq> None \<and> has_timeout (threads s t))"

definition sched_wf :: "sched \<Rightarrow> bool" where
  "sched_wf s \<longleftrightarrow> runq_wf s \<and> wait_wf s"

lemma wait_wf_same: "same_waits s s' \<Longrightarrow> wait_wf s \<Longrightarrow> wait_wf s'"
  by (simp add: wait_wf_def same_waits_def has_timeout_def)

lemma sorted_map_remove1: "sorted (map f xs) \<Longrightarrow> sorted (map f (remove1 x xs))"
  by (induction xs) (auto dest: set_remove1_subset [THEN subsetD])

lemma runq_enqueue_wf:
  assumes "runq_wf s" "runq (threads s t) = None"
    and "state (threads s t) \<noteq> THREAD_RUNNING" "state (threads s t) \<noteq> THREAD_WAITING"
  shows "runq_wf (runq_enqueue q t s)"
proof -
  have new: "t \<notin> set (runqs s p)" for p using assms(1,2) by (simp add: runq_wf_def)
  have "sorted (map (\<lambda>t. pri (threads s t)) (insert_before_first (\<lambda>it. pri (threads s t) < pri (threads s it)) t (runqs s q)))"
    by (rule sorted_insert_before_first) (use assms(1) in \<open>simp add: runq_wf_def\<close>)
  moreover have "pri (threads (runq_enqueue q t s) x) = pri (threads s x)" for x
    by (simp add: runq_enqueue_def upds Let_def)
  ultimately show ?thesis using assms new
    by (auto simp: runq_wf_def runq_enqueue_def upds Let_def not_le)
qed

lemma runq_remove_wf:
  assumes "runq_wf s" "t \<in> set (runqs s q)"
  shows "runq_wf (runq_remove q t s)"
proof -
  have "runq (threads s t) = Some q" using assms by (simp add: runq_wf_def)
  moreover have "(\<lambda>x. pri (if x = t then threads s t\<lparr>runq := None\<rparr> else threads s x)) = (\<lambda>x. pri (threads s x))" by auto
  ultimately show ?thesis using assms
    by (auto simp: runq_wf_def runq_remove_def upds sorted_map_remove1)
qed

lemma taken_wf:
  assumes "taken s r s'" "runq_wf s"
  shows "runq_wf s'" "same_waits s s'" "thread (cpus s' c) = thread (cpus s c)"
    "r = Some t \<Longrightarrow> runq (threads s' t) = None \<and> state (threads s' t) = THREAD_PAUSED"
  using assms
  by (auto simp: taken_def runq_remove_wf runq_remove_waits split: option.splits)
    (auto simp: runq_remove_def upds)

lemma runq_wf_upd_thread:
  assumes "runq_wf s" "pri (f (threads s t)) = pri (threads s t)" "runq (f (threads s t)) = runq (threads s t)"
    and "state (f (threads s t)) = state (threads s t) \<or> runq (threads s t) = None"
  shows "runq_wf (upd_thread t f s)"
proof -
  have "(\<lambda>x. pri (if x = t then f (threads s t) else threads s x)) = (\<lambda>x. pri (threads s x))" using assms(2) by auto
  then show ?thesis using assms by (auto simp: runq_wf_def upd_thread_def)
qed

lemma runq_wf_upd_cpu [simp]: "runq_wf (upd_cpu i f s) = runq_wf s"
  by (simp add: runq_wf_def upd_cpu_def)

lemma runq_wf_ipi [simp]: "runq_wf (sched_ipi c s) = runq_wf s"
  by (simp add: runq_wf_def sched_ipi_def)

lemma same_waits_ipi [simp]: "same_waits s (sched_ipi c s)"
  by (simp add: same_waits_def sched_ipi_def)

text \<open>Switching to a paused thread that is off the run queues.\<close>

lemma switch_thread_runqs: "switch_thread c t s = Inr s' \<Longrightarrow> runqs s' = runqs s"
  by (auto simp: switch_thread_def upds split: option.splits)

lemma sched_switch_runqs: "sched_switch c t s = Inr s' \<Longrightarrow> set (runqs s q) \<subseteq> set (runqs s' q)"
  by (auto simp: sched_switch_def andthen_eq_Inr sched_enqueue_def runq_enqueue_def upds Let_def
      split: if_splits option.splits dest!: switch_thread_runqs)

lemma taken_runqs: "taken s r s' \<Longrightarrow> u \<in> set (runqs s q) \<Longrightarrow> u \<in> set (runqs s' q) \<or> r = Some u"
  by (auto simp: taken_def runq_remove_def upds in_set_remove1 split: option.splits)

lemma switch_thread_wf:
  assumes "runq_wf s" "runq (threads s t) = None" "state (threads s t) = THREAD_PAUSED" "thread (cpus s c) = Some ct" "ct \<noteq> t"
  shows "\<exists>s'. switch_thread c t s = Inr s' \<and> runq_wf s' \<and> same_waits s s' \<and> thread (cpus s' c) = Some t \<and>
    state (threads s' t) = THREAD_RUNNING"
proof -
  let ?s1 = "upd_cpu c (\<lambda>cpu. cpu\<lparr>thread := Some t\<rparr>)
    (upd_thread ct (\<lambda>th. th\<lparr>nctxsw := nctxsw th + 1, running_cpuid := None\<rparr>) s)"
  have "runq_wf ?s1" using assms(1) by (simp add: runq_wf_upd_thread)
  moreover have "threads ?s1 t = threads s t" using assms(5) by (simp add: upds)
  ultimately have "runq_wf (upd_thread t (\<lambda>th. th\<lparr>running_cpuid := Some c, state := THREAD_RUNNING\<rparr>) ?s1)"
    using assms(2) by (simp add: runq_wf_upd_thread)
  then show ?thesis using assms by (simp add: switch_thread_def) (simp add: same_waits_def upds)
qed

lemma sched_switch_wf:
  assumes "runq_wf s" "runq (threads s t) = None" "state (threads s t) = THREAD_PAUSED" "thread (cpus s c) = Some ct" "ct \<noteq> t"
  shows "\<exists>s'. sched_switch c t s = Inr s' \<and> runq_wf s' \<and> same_waits s s' \<and> thread (cpus s' c) = Some t \<and>
    state (threads s' t) = THREAD_RUNNING"
proof (cases "state (threads s ct) = THREAD_RUNNING")
  case False
  with assms switch_thread_wf [OF assms] show ?thesis by (simp add: sched_switch_def)
next
  case True
  let ?s1 = "upd_thread ct (\<lambda>th. th\<lparr>state := THREAD_PAUSED\<rparr>) s"
  let ?s2 = "runq_enqueue c ct ?s1"
  have free: "runq (threads s ct) = None" using True assms(1) by (auto simp: runq_wf_def)
  then have "runq_wf ?s1" using assms(1) by (simp add: runq_wf_upd_thread)
  then have wf: "runq_wf ?s2" by (rule runq_enqueue_wf) (simp_all add: upds free)
  have same: "same_waits s ?s2" using True
    by (intro same_waits_trans [OF _ runq_enqueue_waits]) (simp add: same_waits_def upds)
  have t: "runq (threads ?s2 t) = None" "state (threads ?s2 t) = THREAD_PAUSED" "thread (cpus ?s2 c) = Some ct"
    using assms by (simp_all add: runq_enqueue_def upds Let_def)
  from switch_thread_wf [OF wf t assms(5)] same True assms(4,5) show ?thesis
    by (auto simp: sched_switch_def sched_enqueue_def intro: same_waits_trans)
qed

text \<open>A thread on a run queue stays on it, or runs.\<close>

definition kept :: "nat \<Rightarrow> sched \<Rightarrow> sched \<Rightarrow> bool" where
  "kept c s s' \<longleftrightarrow> (\<forall>u q. u \<in> set (runqs s q) \<longrightarrow>
     u \<in> set (runqs s' q) \<or> thread (cpus s' c) = Some u \<and> state (threads s' u) = THREAD_RUNNING)"

lemma test_better_thread_wf:
  assumes "runq_wf s" "thread (cpus s c) = Some ct"
  shows "\<exists>s'. test_better_thread c s = Inr s' \<and> runq_wf s' \<and> same_waits s s' \<and> thread (cpus s' c) \<noteq> None \<and> kept c s s'"
proof -
  obtain r s1 where f: "find_better_thread c True s = (r, s1)" by fastforce
  note t = find_better_thread_taken [OF f]
  note w = taken_wf [OF conjunct1 [OF t] assms(1)]
  note kept = taken_runqs [OF conjunct1 [OF t]]
  show ?thesis
  proof (cases r)
    case None
    with f w(1,2,3) assms(2) kept show ?thesis by (simp add: test_better_thread_def kept_def)
  next
    case (Some x)
    have "\<exists>s'. sched_switch c x s1 = Inr s' \<and> runq_wf s' \<and> same_waits s1 s' \<and> thread (cpus s' c) = Some x \<and>
        state (threads s' x) = THREAD_RUNNING"
      by (rule sched_switch_wf [OF w(1)]) (use w(3,4) [of x] w(3) [of c] Some assms(2) t in auto)
    then obtain s' where s': "sched_switch c x s1 = Inr s'" "runq_wf s'" "same_waits s1 s'" "thread (cpus s' c) = Some x"
      "state (threads s' x) = THREAD_RUNNING" by blast
    have "kept c s s'" using kept sched_switch_runqs [OF s'(1)] s'(4,5) Some by (auto simp: kept_def)
    with f Some w(2) s' show ?thesis by (auto simp: test_better_thread_def intro: same_waits_trans)
  qed
qed

lemma sched_run_wf:
  assumes "runq_wf s" "runq (threads s t) = None" "state (threads s t) = THREAD_PAUSED" "thread (cpus s c) \<noteq> None"
  shows "\<exists>s'. sched_run c t s = Inr s' \<and> runq_wf s' \<and> same_waits s s' \<and> thread (cpus s' c) \<noteq> None \<and>
    (t \<in> set (runqs s' (wait_cpuid (threads s t))) \<or> thread (cpus s' c) = Some t \<and> state (threads s' t) = THREAD_RUNNING)"
proof -
  let ?s1 = "runq_enqueue (wait_cpuid (threads s t)) t s"
  have wf: "runq_wf ?s1" by (rule runq_enqueue_wf) (use assms in simp_all)
  have cpu: "thread (cpus ?s1 c) = thread (cpus s c)" by (simp add: runq_enqueue_def upds Let_def)
  have q: "t \<in> set (runqs ?s1 (wait_cpuid (threads s t)))" by (simp add: runq_enqueue_def upds Let_def)
  obtain ct where ct: "thread (cpus ?s1 c) = Some ct" using cpu assms(4) by auto
  from test_better_thread_wf [OF wf ct] obtain s2 where
    s2: "test_better_thread c ?s1 = Inr s2" "runq_wf s2" "same_waits ?s1 s2" "thread (cpus s2 c) \<noteq> None" "kept c ?s1 s2" by blast
  have ipi: "thread (cpus (sched_ipi c x) c) = thread (cpus x c)" "runqs (sched_ipi c x) = runqs x"
    "threads (sched_ipi c x) = threads x" for x by (simp_all add: sched_ipi_def)
  show ?thesis
  proof (cases "thread (cpus ?s1 c) = idlethread (cpus ?s1 c)")
    case True
    then have "sched_run c t s = Inr (sched_ipi c s2)" using s2(1) by (simp add: sched_run_def Let_def)
    moreover have "same_waits s (sched_ipi c s2)"
      using same_waits_trans [OF runq_enqueue_waits same_waits_trans [OF s2(3) same_waits_ipi]] .
    ultimately show ?thesis using s2(2,4,5) q ipi by (simp add: kept_def)
  next
    case False
    then have "sched_run c t s = Inr (sched_ipi c ?s1)" by (simp add: sched_run_def Let_def)
    moreover have "same_waits s (sched_ipi c ?s1)"
      using same_waits_trans [OF runq_enqueue_waits same_waits_ipi] .
    ultimately show ?thesis using wf ct q ipi by simp
  qed
qed

section \<open>Waking threads\<close>

text \<open>A thread that was woken: it sleeps nowhere, knows why, and is stopped, on its run queue or running.\<close>

definition woken :: "nat \<Rightarrow> int \<Rightarrow> sched \<Rightarrow> tid \<Rightarrow> bool" where
  "woken c reason s t \<longleftrightarrow> waitq (threads s t) = None \<and> waitq_ret (threads s t) = reason \<and>
     (state (threads s t) = THREAD_STOPPED \<or> t \<in> set (runqs s (wait_cpuid (threads s t))) \<or>
      thread (cpus s c) = Some t \<and> state (threads s t) = THREAD_RUNNING)"

text \<open>Nobody but \<open>t\<close>, who slept on \<open>q\<close>, was disturbed.\<close>

definition woke_only :: "nat \<Rightarrow> tid \<Rightarrow> sched \<Rightarrow> sched \<Rightarrow> bool" where
  "woke_only q t s s' \<longleftrightarrow> watchers s' = (watchers s)(q := remove1 t (watchers s q)) \<and>
     timeout_threads s' = remove1 t (timeout_threads s) \<and>
     (\<forall>u. u \<noteq> t \<longrightarrow> waitq (threads s' u) = waitq (threads s u) \<and> wait_timeout (threads s' u) = wait_timeout (threads s u) \<and>
       waitq_ret (threads s' u) = waitq_ret (threads s u) \<and> wait_cpuid (threads s' u) = wait_cpuid (threads s u) \<and>
       (state (threads s' u) = THREAD_WAITING \<longleftrightarrow> state (threads s u) = THREAD_WAITING) \<and>
       (state (threads s' u) = THREAD_STOPPED \<longleftrightarrow> state (threads s u) = THREAD_STOPPED))"

lemma wakeup_wf:
  assumes "sched_wf s" "asleep_on q s t" "thread (cpus s c) \<noteq> None" "timeouts = remove1 t (timeout_threads s)"
  shows "\<exists>s'. wakeup_thread c q t reason (s\<lparr>timeout_threads := timeouts\<rparr>) = Inr s' \<and> sched_wf s' \<and>
    thread (cpus s' c) \<noteq> None \<and> woken c reason s' t \<and> woke_only q t s s'"
proof -
  let ?s0 = "s\<lparr>timeout_threads := timeouts, watchers := (watchers s)(q := remove1 t (watchers s q))\<rparr>"
  let ?st = "if proc_stopped (threads s t) then THREAD_STOPPED else THREAD_PAUSED"
  let ?f = "\<lambda>th. th\<lparr>state := (if proc_stopped th then THREAD_STOPPED else THREAD_PAUSED), waitq := None, waitq_ret := reason\<rparr>"
  let ?s2 = "upd_thread t ?f ?s0"
  have t: "state (threads s t) = THREAD_WAITING" "waitq (threads s t) = Some q" using assms(2) by (simp_all add: asleep_on_def)
  have free: "runq (threads s t) = None" using assms(1) t(1) by (auto simp: sched_wf_def runq_wf_def)
  have "runq_wf ?s0" using assms(1) by (simp add: sched_wf_def runq_wf_def)
  then have rq: "runq_wf ?s2" using free by (simp add: runq_wf_upd_thread)
  have srt: "map (\<lambda>x. wait_timeout (if x = t then ?f (threads s t) else threads s x)) xs = map (\<lambda>x. wait_timeout (threads s x)) xs" for xs
    by simp
  have wf0: "wait_wf s" using assms(1) by (simp add: sched_wf_def)
  have "wait_wf ?s2" using wf0 t assms(4)
    by (auto simp: wait_wf_def upds srt has_timeout_def sorted_map_remove1)
  then have wt: "wait_wf ?s2" .
  have only: "woke_only q t s ?s2" using assms(4) by (simp add: woke_only_def upds)
  show ?thesis
  proof (cases "proc_stopped (threads s t)")
    case True
    then have "wakeup_thread c q t reason (s\<lparr>timeout_threads := timeouts\<rparr>) = Inr ?s2"
      using t(1) by (simp add: wakeup_thread_def Let_def upds)
    moreover have "woken c reason ?s2 t" using True by (simp add: woken_def upds)
    ultimately show ?thesis using rq wt only assms(3) by (simp add: sched_wf_def upds)
  next
    case False
    have "\<exists>s'. sched_run c t ?s2 = Inr s' \<and> runq_wf s' \<and> same_waits ?s2 s' \<and> thread (cpus s' c) \<noteq> None \<and>
      (t \<in> set (runqs s' (wait_cpuid (threads ?s2 t))) \<or> thread (cpus s' c) = Some t \<and> state (threads s' t) = THREAD_RUNNING)"
      by (rule sched_run_wf [OF rq]) (use free False assms(3) in \<open>simp_all add: upds\<close>)
    then obtain s' where s': "sched_run c t ?s2 = Inr s'" "runq_wf s'" "same_waits ?s2 s'" "thread (cpus s' c) \<noteq> None"
      "t \<in> set (runqs s' (wait_cpuid (threads ?s2 t))) \<or> thread (cpus s' c) = Some t \<and> state (threads s' t) = THREAD_RUNNING"
      by blast
    have "wakeup_thread c q t reason (s\<lparr>timeout_threads := timeouts\<rparr>) = Inr s'"
      using t(1) False s'(1) by (simp add: wakeup_thread_def Let_def upds)
    moreover have "woken c reason s' t" using s'(3,5) by (auto simp: woken_def same_waits_def upds)
    moreover have "woke_only q t s s'" using only s'(3) by (simp add: woke_only_def same_waits_def)
    moreover have "wait_wf s'" using wait_wf_same [OF s'(3) wt] .
    ultimately show ?thesis using s'(2,4) by (simp add: sched_wf_def)
  qed
qed

lemma waitq_wakeup_wf:
  assumes "sched_wf s" "asleep_on q s t" "thread (cpus s c) \<noteq> None"
  shows "\<exists>s'. waitq_wakeup_thread c q t reason s = Inr s' \<and> sched_wf s' \<and>
    thread (cpus s' c) \<noteq> None \<and> woken c reason s' t \<and> woke_only q t s s'"
proof -
  have "s = s\<lparr>timeout_threads := remove1 t (timeout_threads s)\<rparr>" if "\<not> has_timeout (threads s t)"
    using that assms(1) by (simp add: sched_wf_def wait_wf_def remove1_idem)
  then have "waitq_wakeup_thread c q t reason s
      = wakeup_thread c q t reason (s\<lparr>timeout_threads := remove1 t (timeout_threads s)\<rparr>)"
    by (auto simp: waitq_wakeup_thread_def)
  with wakeup_wf [OF assms refl] show ?thesis by simp
qed

lemma watchers_asleep: "sched_wf s \<Longrightarrow> t \<in> set (watchers s q) \<longleftrightarrow> asleep_on q s t"
  by (auto simp: sched_wf_def wait_wf_def asleep_on_def)

text \<open>Signalling wakes the first thread of the queue.\<close>

lemma waitq_signal_wf:
  assumes "sched_wf s" "thread (cpus s c) \<noteq> None"
  shows "case watchers s q of
      [] \<Rightarrow> waitq_signal c q reason s = Inr (0, s)
    | t # _ \<Rightarrow> \<exists>s'. waitq_signal c q reason s = Inr (1, s') \<and> sched_wf s' \<and> thread (cpus s' c) \<noteq> None \<and>
        woken c reason s' t \<and> woke_only q t s s'"
proof (cases "watchers s q")
  case Nil
  then show ?thesis by (simp add: waitq_signal_def)
next
  case (Cons t ts)
  then have "asleep_on q s t" using watchers_asleep [OF assms(1), of t q] by simp
  with waitq_wakeup_wf [OF assms(1) this assms(2), of reason] Cons show ?thesis
    by (auto simp: waitq_signal_def)
qed

text \<open>Broadcasting wakes them all.\<close>

lemma woken_later:
  assumes "woken c reason s u" "woke_only q t s s'" "u \<noteq> t" "u \<notin> set (watchers s q)"
  shows "waitq (threads s' u) = None"
  using assms by (simp add: woken_def woke_only_def)

lemma broadcast_loop_wf:
  assumes "sched_wf s" "thread (cpus s c) \<noteq> None" "watchers s q = ts"
  shows "\<exists>s'. broadcast_loop c q reason ts res s = Inr (res + int (length ts), s') \<and> sched_wf s' \<and>
    thread (cpus s' c) \<noteq> None \<and> watchers s' = (watchers s)(q := []) \<and>
    (\<forall>u. u \<notin> set ts \<longrightarrow> waitq (threads s' u) = waitq (threads s u)) \<and> (\<forall>u \<in> set ts. waitq (threads s' u) = None)"
  using assms
proof (induction ts arbitrary: s res)
  case Nil
  then show ?case by (auto simp: fun_upd_idem)
next
  case (Cons t ts)
  have sl: "asleep_on q s t" using watchers_asleep [OF Cons.prems(1), of t q] Cons.prems(3) by simp
  have nt: "t \<notin> set ts" using Cons.prems(1,3) by (metis distinct.simps(2) sched_wf_def wait_wf_def)
  from waitq_wakeup_wf [OF Cons.prems(1) sl Cons.prems(2), of reason] obtain s1 where
    s1: "waitq_wakeup_thread c q t reason s = Inr s1" "sched_wf s1" "thread (cpus s1 c) \<noteq> None" "woken c reason s1 t"
      "woke_only q t s s1" by blast
  have ws: "watchers s1 q = ts" "watchers s1 = (watchers s)(q := ts)" using s1(5) Cons.prems(3) by (simp_all add: woke_only_def)
  from Cons.IH [OF s1(2,3) ws(1), of "res + 1"] obtain s2 where
    s2: "broadcast_loop c q reason ts (res + 1) s1 = Inr (res + 1 + int (length ts), s2)" "sched_wf s2"
      "thread (cpus s2 c) \<noteq> None" "watchers s2 = (watchers s1)(q := [])"
      "\<forall>u. u \<notin> set ts \<longrightarrow> waitq (threads s2 u) = waitq (threads s1 u)" "\<forall>u \<in> set ts. waitq (threads s2 u) = None" by blast
  have "broadcast_loop c q reason (t # ts) res s = Inr (res + int (length (t # ts)), s2)"
    using sl s1(1) s2(1) by simp
  moreover have "watchers s2 = (watchers s)(q := [])" using s2(4) ws(2) by simp
  moreover have "waitq (threads s2 t) = None" using s2(5) nt s1(4) by (simp add: woken_def)
  moreover have "waitq (threads s2 u) = waitq (threads s u)" if "u \<notin> set (t # ts)" for u
    using that s2(5) s1(5) by (simp add: woke_only_def)
  ultimately show ?case using s2(2,3,6) by auto
qed

section \<open>Threads that may run stay so\<close>

text \<open>A thread the scheduler knows: on the run queue of the processor it slept on, on that of \<open>c\<close>, or running there.\<close>

definition ready :: "nat \<Rightarrow> sched \<Rightarrow> tid \<Rightarrow> bool" where
  "ready c s t \<longleftrightarrow> t \<in> set (runqs s (wait_cpuid (threads s t))) \<or> t \<in> set (runqs s c) \<or>
     thread (cpus s c) = Some t \<and> state (threads s t) = THREAD_RUNNING"

lemma runq_enqueue_ready: "ready c s u \<Longrightarrow> ready c (runq_enqueue q t s) u"
  by (auto simp: ready_def runq_enqueue_def upds Let_def)

lemma sched_switch_ready:
  assumes "sched_switch c t s = Inr s'" "ready c s u"
  shows "ready c s' u"
  using assms
  by (auto simp: ready_def sched_switch_def switch_thread_def sched_enqueue_def runq_enqueue_def upds Let_def andthen_eq_Inr
      split: if_splits option.splits)

lemma taken_ready: "taken s r s' \<Longrightarrow> ready c s u \<Longrightarrow> ready c s' u \<or> r = Some u"
  by (auto simp: ready_def taken_def runq_remove_def upds split: option.splits if_splits)

lemma switched_ready:
  assumes "sched_switch c t s = Inr s'" "thread (cpus s c) \<noteq> Some t"
  shows "ready c s' t"
  using assms by (auto simp: ready_def sched_switch_def switch_thread_def upds Let_def andthen_eq_Inr split: if_splits option.splits)

lemma test_better_thread_ready:
  assumes "test_better_thread c s = Inr s'" "ready c s u"
  shows "ready c s' u"
proof -
  obtain r s1 where f: "find_better_thread c True s = (r, s1)" by fastforce
  note t = find_better_thread_taken [OF f]
  show ?thesis
  proof (cases r)
    case None
    then show ?thesis using assms f t by (simp add: test_better_thread_def taken_def)
  next
    case (Some x)
    have sw: "sched_switch c x s1 = Inr s'" using assms(1) f Some by (simp add: test_better_thread_def)
    have "thread (cpus s1 c) \<noteq> Some x" using t Some by (auto simp: taken_def runq_remove_def upds)
    with taken_ready [OF conjunct1 [OF t] assms(2)] Some sched_switch_ready [OF sw] switched_ready [OF sw] show ?thesis by auto
  qed
qed

lemma sched_run_ready:
  assumes "sched_run c t s = Inr s'" "ready c s u"
  shows "ready c s' u"
proof -
  have ipi: "ready c (sched_ipi c x) u \<longleftrightarrow> ready c x u" for x by (simp add: ready_def sched_ipi_def)
  show ?thesis using assms(1) runq_enqueue_ready [OF assms(2)] test_better_thread_ready
    by (auto simp: sched_run_def Let_def andthen_eq_Inr ipi split: if_splits)
qed

lemma wakeup_thread_ready:
  assumes "wakeup_thread c q t reason s = Inr s'" "ready c s u" "u \<noteq> t"
  shows "ready c s' u"
proof -
  let ?s1 = "s\<lparr>watchers := (watchers s)(q := remove1 t (watchers s q))\<rparr>"
  have "ready c (upd_thread t f ?s1) u" for f using assms(2,3) by (simp add: ready_def upds)
  then show ?thesis using assms(1) by (auto simp: wakeup_thread_def Let_def split: if_splits dest: sched_run_ready)
qed

text \<open>A thread whose sleep was ended: it sleeps nowhere, knows why, and is stopped with its process or may run.\<close>

definition roused :: "nat \<Rightarrow> int \<Rightarrow> sched \<Rightarrow> tid \<Rightarrow> bool" where
  "roused c reason s t \<longleftrightarrow> waitq (threads s t) = None \<and> waitq_ret (threads s t) = reason \<and>
     (state (threads s t) = THREAD_STOPPED \<or> ready c s t)"

lemma woken_roused: "woken c reason s t \<Longrightarrow> roused c reason s t"
  by (auto simp: woken_def roused_def ready_def)

lemma roused_later:
  assumes "roused c reason s u" "wakeup_thread c q t reason' (s\<lparr>timeout_threads := ts\<rparr>) = Inr s'" "woke_only q t s s'" "u \<noteq> t"
  shows "roused c reason s' u"
proof -
  have "ready c (s\<lparr>timeout_threads := ts\<rparr>) u = ready c s u" by (simp add: ready_def)
  then show ?thesis using assms wakeup_thread_ready [OF assms(2) _ assms(4)] by (auto simp: roused_def woke_only_def)
qed

section \<open>Timeouts\<close>

lemma find_better_thread_timeouts: "find_better_thread c True s = (r, s') \<Longrightarrow> timeout_threads s' = timeout_threads s"
  by (drule find_better_thread_taken) (auto simp: taken_def runq_remove_def upds split: option.splits)

lemma sched_switch_timeouts: "sched_switch c t s = Inr s' \<Longrightarrow> timeout_threads s' = timeout_threads s"
  by (auto simp: sched_switch_def switch_thread_def sched_enqueue_def runq_enqueue_def upds Let_def andthen_eq_Inr
      split: if_splits option.splits)

lemma sched_run_timeouts: "sched_run c t s = Inr s' \<Longrightarrow> timeout_threads s' = timeout_threads s"
  by (auto simp: sched_run_def test_better_thread_def runq_enqueue_def upds Let_def andthen_eq_Inr sched_ipi_def
      split: if_splits option.splits prod.splits dest!: find_better_thread_timeouts sched_switch_timeouts)

lemma wakeup_thread_timeouts: "wakeup_thread c q t reason s = Inr s' \<Longrightarrow> timeout_threads s' = timeout_threads s"
  by (auto simp: wakeup_thread_def upds Let_def split: if_splits dest!: sched_run_timeouts)

text \<open>The loop of \<^verbatim>\<open>waitq_check_timeout\<close>: every round takes one thread off the queue of timeouts.\<close>

function check_timeout_loop :: "nat \<Rightarrow> timespec \<Rightarrow> sched \<Rightarrow> sched outcome" where
  "check_timeout_loop c cur s =
     (case timeout_threads s of
        [] \<Rightarrow> Inr s
      | t # ts \<Rightarrow>
          if timespec_cmp cur (wait_timeout (threads s t)) > 0
          then case waitq (threads s t) of
                 None \<Rightarrow> Inl Null_deref
               | Some q \<Rightarrow>
                   (case wakeup_thread c q t (- EWOULDBLOCK) (s\<lparr>timeout_threads := ts\<rparr>) of
                      Inl e \<Rightarrow> Inl e
                    | Inr s' \<Rightarrow> check_timeout_loop c cur s')
          else Inr s)"
  by pat_completeness auto
termination
  by (relation "measure (\<lambda>(c, cur, s). length (timeout_threads s))") (auto dest: wakeup_thread_timeouts)

declare check_timeout_loop.simps [simp del]

definition waitq_check_timeout :: "nat \<Rightarrow> sched \<Rightarrow> sched outcome" where
  "waitq_check_timeout c s = check_timeout_loop c (monotonic s) s"

text \<open>What the loop does: with the threads \<open>ts\<close> that expired before, it ends the sleep of those that have expired now.\<close>

lemma check_timeout_loop_wf:
  assumes "sched_wf s" "thread (cpus s c) \<noteq> None" "\<forall>u \<in> R. roused c (- EWOULDBLOCK) s u"
  shows "\<exists>s'. check_timeout_loop c cur s = Inr s' \<and> sched_wf s' \<and> thread (cpus s' c) \<noteq> None \<and>
    timeout_threads s' = dropWhile (\<lambda>t. wait_timeout (threads s t) < cur) (timeout_threads s) \<and>
    (\<forall>u \<in> R \<union> set (takeWhile (\<lambda>t. wait_timeout (threads s t) < cur) (timeout_threads s)). roused c (- EWOULDBLOCK) s' u) \<and>
    (\<forall>u. u \<notin> set (takeWhile (\<lambda>t. wait_timeout (threads s t) < cur) (timeout_threads s)) \<longrightarrow>
       waitq (threads s' u) = waitq (threads s u) \<and> wait_timeout (threads s' u) = wait_timeout (threads s u))"
  using assms
proof (induction "length (timeout_threads s)" arbitrary: s R rule: less_induct)
  case less
  show ?case
  proof (cases "timeout_threads s")
    case Nil
    then show ?thesis using less.prems by (subst check_timeout_loop.simps) simp
  next
    case (Cons t ts)
    show ?thesis
    proof (cases "wait_timeout (threads s t) < cur")
      case False
      then show ?thesis using less.prems Cons by (subst check_timeout_loop.simps) (simp add: timespec_order)
    next
      case True
      have "waitq (threads s t) \<noteq> None" "t \<notin> set ts"
        using less.prems(1) Cons by (auto simp: sched_wf_def wait_wf_def)
      then obtain q where q: "waitq (threads s t) = Some q" by auto
      then have sl: "asleep_on q s t" using less.prems(1) by (auto simp: sched_wf_def wait_wf_def asleep_on_def)
      have "ts = remove1 t (timeout_threads s)" using Cons by simp
      from wakeup_wf [OF less.prems(1) sl less.prems(2) this, of "- EWOULDBLOCK"] obtain s1 where
        s1: "wakeup_thread c q t (- EWOULDBLOCK) (s\<lparr>timeout_threads := ts\<rparr>) = Inr s1" "sched_wf s1"
          "thread (cpus s1 c) \<noteq> None" "woken c (- EWOULDBLOCK) s1 t" "woke_only q t s s1" by blast
      have ts: "timeout_threads s1 = ts" using s1(5) Cons by (simp add: woke_only_def)
      have "t \<notin> R" using less.prems(3) q by (auto simp: roused_def)
      then have R: "\<forall>u \<in> insert t R. roused c (- EWOULDBLOCK) s1 u"
        using less.prems(3) woken_roused [OF s1(4)] roused_later [OF _ s1(1,5)] by auto
      have same: "map (\<lambda>u. wait_timeout (threads s1 u) < cur) ts = map (\<lambda>u. wait_timeout (threads s u) < cur) ts"
        using s1(5) \<open>t \<notin> set ts\<close> by (auto simp: woke_only_def)
      have tw: "takeWhile (\<lambda>u. wait_timeout (threads s1 u) < cur) ts = takeWhile (\<lambda>u. wait_timeout (threads s u) < cur) ts"
        "dropWhile (\<lambda>u. wait_timeout (threads s1 u) < cur) ts = dropWhile (\<lambda>u. wait_timeout (threads s u) < cur) ts"
        using same by (auto intro!: takeWhile_cong dropWhile_cong)
      have loop: "check_timeout_loop c cur s = check_timeout_loop c cur s1"
        using True Cons q s1(1) by (subst check_timeout_loop.simps) (simp add: timespec_order)
      have "length (timeout_threads s1) < length (timeout_threads s)" using ts Cons by simp
      from less.hyps [OF this s1(2,3) R] show ?thesis
        using loop s1(5) Cons True unfolding ts tw by (auto simp: woke_only_def)
    qed
  qed
qed

section \<open>Sleeping\<close>

text \<open>\<^verbatim>\<open>thread_sleep\<close> (kern/proc.c) sleeps on a queue of its own, here \<open>q\<close>.\<close>

definition thread_sleep :: "nat \<Rightarrow> nat \<Rightarrow> timespec \<Rightarrow> sched \<Rightarrow> sched outcome" where
  "thread_sleep c q duration s = waitq_wait_head c q (Some duration) (waitq_init q s)"

definition sched_yield :: "nat \<Rightarrow> nat \<Rightarrow> sched \<Rightarrow> sched outcome" where
  "sched_yield c q s =
     andthen (find_thread c True s) (\<lambda>(t, s').
       case t of None \<Rightarrow> Inr s' | Some _ \<Rightarrow> thread_sleep c q (Timespec 0 0) s')"

lemma prepare_sleep_wf:
  assumes "sched_wf s" "state (threads s t) = THREAD_RUNNING"
    and "ws = watchers s q @ [t] \<or> ws = t # watchers s q"
    and "case tmo of None \<Rightarrow> True | Some d \<Rightarrow> timespec_add (monotonic s) d \<noteq> Timespec 0 0"
  shows "\<exists>s'. prepare_sleep c t q tmo (s\<lparr>watchers := (watchers s)(q := ws)\<rparr>) = Inr s' \<and> sched_wf s' \<and>
    watchers s' = (watchers s)(q := ws) \<and> asleep_on q s' t"
proof -
  let ?s0 = "s\<lparr>watchers := (watchers s)(q := ws)\<rparr>"
  let ?f = "\<lambda>th. th\<lparr>state := THREAD_WAITING, waitq := Some q, wait_cpuid := c\<rparr>"
  have rq: "runq_wf s" and wt: "wait_wf s" using assms(1) by (simp_all add: sched_wf_def)
  have free: "runq (threads s t) = None" using rq assms(2) by (auto simp: runq_wf_def)
  have idle: "waitq (threads s t) = None" using wt assms(2) unfolding wait_wf_def by (metis thread_state.distinct(3))
  have new: "t \<notin> set (watchers s p)" "t \<notin> set (timeout_threads s)" for p
    using wt idle by (auto simp: wait_wf_def)
  have rq0: "runq_wf ?s0" using rq by (simp add: runq_wf_def)
  have same: "map (\<lambda>x. wait_timeout (if x = t then g else threads s x)) (timeout_threads s)
      = map (\<lambda>x. wait_timeout (threads s x)) (timeout_threads s)" for g
    using new(2) by (auto intro: map_cong)
  show ?thesis
  proof (cases tmo)
    case None
    let ?s' = "upd_thread t (\<lambda>th. th\<lparr>wait_timeout := Timespec 0 0\<rparr>) (upd_thread t ?f ?s0)"
    have "runq_wf ?s'" using rq0 free by (intro runq_wf_upd_thread) (simp_all add: upds)
    moreover have "wait_wf ?s'" using wt idle new assms(2,3)
      by (auto simp: wait_wf_def upds has_timeout_def same)
    ultimately show ?thesis using None assms(2)
      by (simp add: prepare_sleep_def Let_def sched_wf_def) (simp add: upds asleep_on_def)
  next
    case (Some d)
    let ?w = "timespec_add (monotonic s) d"
    let ?s1 = "upd_thread t (\<lambda>th. th\<lparr>wait_timeout := ?w\<rparr>) (upd_thread t ?f ?s0)"
    have "runq_wf ?s1" using rq0 free by (intro runq_wf_upd_thread) (simp_all add: upds)
    then have "runq_wf (add_waiting_thread t ?s1)" by (simp add: runq_wf_def add_waiting_thread_def)
    moreover have "sorted (map (\<lambda>x. wait_timeout (threads ?s1 x)) (timeout_threads (add_waiting_thread t ?s1)))"
      unfolding add_waiting_thread_def timespec_order
      using sorted_insert_before_first [of "\<lambda>x. wait_timeout (threads ?s1 x)" "timeout_threads ?s1" t] wt same
      by (simp add: wait_wf_def upds)
    then have "wait_wf (add_waiting_thread t ?s1)" using wt free new assms(3,4) Some
      by (auto simp: wait_wf_def upds has_timeout_def add_waiting_thread_def timespec.expand)
    ultimately show ?thesis using Some assms(2)
      by (simp add: prepare_sleep_def Let_def sched_wf_def) (simp add: upds asleep_on_def add_waiting_thread_def)
  qed
qed

section \<open>Choice\<close>

lemma takeWhile_sorted:
  fixes f :: "'a \<Rightarrow> 'b::linorder"
  assumes "sorted (map f xs)"
  shows "takeWhile (\<lambda>x. f x < k) xs = filter (\<lambda>x. f x < k) xs \<and> dropWhile (\<lambda>x. f x < k) xs = filter (\<lambda>x. \<not> f x < k) xs"
  using assms
proof (induction xs)
  case (Cons a xs)
  show ?case
  proof (cases "f a < k")
    case False
    then have "\<forall>x \<in> set xs. \<not> f x < k" using Cons.prems by auto
    with False show ?thesis by simp
  qed (use Cons in simp)
qed simp

lemma find_first: "List.find P xs = Some x \<Longrightarrow> \<exists>ys zs. xs = ys @ x # zs \<and> P x \<and> (\<forall>y \<in> set ys. \<not> P y)"
  by (induction xs) (auto split: if_splits intro: exI [of _ "[]"], metis append_Cons set_ConsD)

lemma find_thread_loop_null:
  assumes "i \<in> set is" "i \<noteq> c" "u \<in> set (runqs s i)" "runnable c i True s u"
  shows "find_thread_loop c None is s = Inl Null_deref"
  using assms(1)
proof (induction "is")
  case (Cons j "is")
  obtain r s' where f: "find_runq_thread c j True s = (r, s')" by fastforce
  show ?case
  proof (cases "j = c")
    case True
    with Cons assms(2) show ?thesis by auto
  next
    case False
    show ?thesis
    proof (cases r)
      case (Some x)
      with False f show ?thesis by (simp add: sched_enqueue_def andthen_def)
    next
      case None
      then have "s' = s" "List.find (runnable c j True s) (runqs s j) = None"
        using f by (auto simp: find_runq_thread_def split: option.splits)
      then have "j \<noteq> i" using assms(3,4) by (auto simp: find_None_iff)
      with Cons None False f \<open>s' = s\<close> show ?thesis by simp
    qed
  qed
qed simp

section \<open>Properties\<close>

text \<open>
  C7. In a well-formed state, \<^verbatim>\<open>waitq_signal\<close> and \<^verbatim>\<open>waitq_broadcast\<close> never panic and act on the queue as a first-in
  first-out queue prescribes: a signal takes the thread that has slept longest, a broadcast all of them, the
  result is the number of threads woken, no other queue changes, and \<^verbatim>\<open>waitq_wait_tail\<close> by a running thread
  that is not the idle thread appends it. All three keep the state well formed.
\<close>

definition queue_signal :: "tid list \<Rightarrow> int \<times> tid list" where
  "queue_signal ws = (case ws of [] \<Rightarrow> (0, []) | _ # ts \<Rightarrow> (1, ts))"

definition queue_broadcast :: "tid list \<Rightarrow> int \<times> tid list" where
  "queue_broadcast ws = (int (length ws), [])"

theorem waitq_refines_queue:
  assumes "sched_wf s" "thread (cpus s c) = Some t"
  shows "(\<exists>s'. waitq_signal c q reason s = Inr (fst (queue_signal (watchers s q)), s') \<and> sched_wf s'
      \<and> watchers s' = (watchers s)(q := snd (queue_signal (watchers s q))))
    \<and> (\<exists>s'. waitq_broadcast c q reason s = Inr (fst (queue_broadcast (watchers s q)), s') \<and> sched_wf s'
      \<and> watchers s' = (watchers s)(q := snd (queue_broadcast (watchers s q))))
    \<and> (state (threads s t) = THREAD_RUNNING \<longrightarrow> idlethread (cpus s c) \<noteq> Some t \<longrightarrow>
        (\<exists>s'. waitq_wait_tail c q None s = Inr s' \<and> sched_wf s' \<and> watchers s' = (watchers s)(q := watchers s q @ [t])))"
proof (intro conjI impI)
  show "\<exists>s'. waitq_signal c q reason s = Inr (fst (queue_signal (watchers s q)), s') \<and> sched_wf s'
      \<and> watchers s' = (watchers s)(q := snd (queue_signal (watchers s q)))"
    using waitq_signal_wf [OF assms(1), of c q reason] assms
    by (auto simp: queue_signal_def woke_only_def fun_upd_idem split: list.splits)
  show "\<exists>s'. waitq_broadcast c q reason s = Inr (fst (queue_broadcast (watchers s q)), s') \<and> sched_wf s'
      \<and> watchers s' = (watchers s)(q := snd (queue_broadcast (watchers s q)))"
    using broadcast_loop_wf [OF assms(1) _ refl, of c q reason 0] assms(2)
    by (auto simp: queue_broadcast_def waitq_broadcast_def)
  assume "state (threads s t) = THREAD_RUNNING" "idlethread (cpus s c) \<noteq> Some t"
  with prepare_sleep_wf [OF assms(1), of t "watchers s q @ [t]" q None c] assms(2)
  show "\<exists>s'. waitq_wait_tail c q None s = Inr s' \<and> sched_wf s' \<and> watchers s' = (watchers s)(q := watchers s q @ [t])"
    by (auto simp: waitq_wait_tail_def do_sleep_def)
qed

text \<open>One processor, thread 1 running on it, threads 2 and 3 asleep on queue 7, the idle thread 0 on the run queue.\<close>

definition sleeper :: "nat \<Rightarrow> thread" where
  "sleeper q = \<lparr>state = THREAD_WAITING, proc_stopped = False, tf_nest_level = 2, wait_timeout = Timespec 0 0,
     waitq = Some q, wait_cpuid = 0, running_cpuid = None, nctxsw = 0, waitq_ret = 0, affinity = (\<lambda>_. True),
     pri = 10, runq = None\<rparr>"

definition demo_sched :: sched where
  "demo_sched = \<lparr>threads = (\<lambda>t. if t = 2 \<or> t = 3 then sleeper 7
       else if t = 1 then (sleeper 7)\<lparr>state := THREAD_RUNNING, waitq := None\<rparr>
       else if t = 0 then (sleeper 7)\<lparr>state := THREAD_PAUSED, waitq := None, pri := 255, runq := Some 0\<rparr>
       else (sleeper 7)\<lparr>state := THREAD_ZOMBIE, waitq := None\<rparr>),
     watchers = (\<lambda>q. if q = 7 then [2, 3] else []), timeout_threads = [], runqs = (\<lambda>i. if i = 0 then [0] else []),
     last_tick = (\<lambda>_. Timespec 0 0),
     cpus = (\<lambda>_. \<lparr>thread = Some 1, idlethread = Some 0, must_resched = False\<rparr>), ncpus = 1, g_init = True,
     monotonic = Timespec 5 0\<rparr>"

lemma demo_sched_wf: "sched_wf demo_sched"
  by (auto simp: sched_wf_def runq_wf_def wait_wf_def demo_sched_def sleeper_def has_timeout_def)

theorem waitq_refines_queue_witness:
  "\<exists>s'. waitq_signal 0 7 0 demo_sched = Inr (1, s') \<and> watchers s' 7 = [3]"
proof -
  have "thread (cpus demo_sched 0) = Some 1" "watchers demo_sched 7 = [2, 3]" by (simp_all add: demo_sched_def)
  with waitq_refines_queue [OF demo_sched_wf, of 0 1 7 0] show ?thesis by (auto simp: queue_signal_def)
qed

text \<open>
  C19. No wake-up is lost: the thread a signal takes off a queue is afterwards not asleep anywhere, has the reason
  as its result, and is either stopped with its process, on the run queue of the processor it slept on, or
  running on the processor that signalled; and every other sleeper still sleeps.
\<close>

theorem waitq_signal_wakes:
  assumes "sched_wf s" "thread (cpus s c) \<noteq> None" "watchers s q = t # ts"
  shows "\<exists>s'. waitq_signal c q reason s = Inr (1, s') \<and> woken c reason s' t
    \<and> (\<forall>u. u \<noteq> t \<longrightarrow> waitq (threads s' u) = waitq (threads s u))"
  using waitq_signal_wf [OF assms(1,2), of q reason] assms(3) by (auto simp: woke_only_def)

theorem waitq_signal_wakes_witness:
  "\<exists>s'. waitq_signal 0 7 0 demo_sched = Inr (1, s') \<and> woken 0 0 s' 2"
proof -
  have "thread (cpus demo_sched 0) \<noteq> None" "watchers demo_sched 7 = 2 # [3]" by (simp_all add: demo_sched_def)
  from waitq_signal_wakes [OF demo_sched_wf this, of 0] show ?thesis by blast
qed

text \<open>
  C30. \<^verbatim>\<open>waitq_check_timeout\<close> returns without panicking and ends exactly the sleeps whose timeout has passed. Each such
  thread is then asleep on no queue, has \<^verbatim>\<open>-EWOULDBLOCK\<close> as the result of its wait, and is stopped with its process, on the run
  queue of the processor it slept on or of the one that ran the check, or running there. The threads whose
  timeout lies ahead stay on the queue of timeouts, in their order, and nobody else's sleep is touched.
\<close>

theorem waitq_check_timeout_expires:
  assumes "sched_wf s" "thread (cpus s c) \<noteq> None"
  shows "\<exists>s'. waitq_check_timeout c s = Inr s' \<and> sched_wf s' \<and>
    timeout_threads s' = filter (\<lambda>t. monotonic s \<le> wait_timeout (threads s t)) (timeout_threads s) \<and>
    (\<forall>t. if t \<in> set (timeout_threads s) \<and> wait_timeout (threads s t) < monotonic s
       then waitq (threads s' t) = None \<and> waitq_ret (threads s' t) = - EWOULDBLOCK \<and>
         (state (threads s' t) = THREAD_STOPPED \<or> t \<in> set (runqs s' (wait_cpuid (threads s' t))) \<or> t \<in> set (runqs s' c) \<or>
          thread (cpus s' c) = Some t \<and> state (threads s' t) = THREAD_RUNNING)
       else waitq (threads s' t) = waitq (threads s t))"
proof -
  let ?P = "\<lambda>t. wait_timeout (threads s t) < monotonic s" and ?ts = "timeout_threads s"
  have srt: "sorted (map (\<lambda>t. wait_timeout (threads s t)) ?ts)" using assms(1) by (simp add: sched_wf_def wait_wf_def)
  have tw: "takeWhile ?P ?ts = filter ?P ?ts" "dropWhile ?P ?ts = filter (\<lambda>t. \<not> ?P t) ?ts"
    using takeWhile_sorted [OF srt] by simp_all
  show ?thesis using check_timeout_loop_wf [OF assms, of "{}" "monotonic s"] unfolding tw
    by (auto simp: waitq_check_timeout_def not_less roused_def ready_def)
qed

text \<open>Threads 2 and 3 asleep at second 5, until second 3 and until second 9.\<close>

definition demo_timeouts :: sched where
  "demo_timeouts = demo_sched\<lparr>
     threads := (threads demo_sched)(2 := (sleeper 7)\<lparr>wait_timeout := Timespec 3 0\<rparr>, 3 := (sleeper 7)\<lparr>wait_timeout := Timespec 9 0\<rparr>),
     timeout_threads := [2, 3]\<rparr>"

lemma demo_timeouts_wf: "sched_wf demo_timeouts"
  by (auto simp: sched_wf_def runq_wf_def wait_wf_def demo_timeouts_def demo_sched_def sleeper_def has_timeout_def
      less_eq_timespec_def timespec_cmp_def)

lemma demo_timeouts_run: "\<exists>s'. waitq_check_timeout 0 demo_timeouts = Inr s' \<and> runqs s' 0 = [2, 0]"
  unfolding waitq_check_timeout_def
  by (simp add: demo_timeouts_def demo_sched_def sleeper_def timespec_cmp_def wakeup_thread_def sched_run_def runq_enqueue_def
      upds Let_def sched_ipi_def
      check_timeout_loop.simps [of _ _ "\<lparr>threads = a, watchers = b, timeout_threads = d, runqs = e, last_tick = f, cpus = g,
        ncpus = h, g_init = i, monotonic = j\<rparr>" for a b d e f g h i j])

theorem waitq_check_timeout_expires_witness:
  "\<exists>s'. waitq_check_timeout 0 demo_timeouts = Inr s' \<and> timeout_threads s' = [3] \<and> runqs s' 0 = [2, 0] \<and>
     waitq (threads s' 2) = None \<and> waitq_ret (threads s' 2) = - 6 \<and> waitq (threads s' 3) = Some 7"
proof -
  have "thread (cpus demo_timeouts 0) \<noteq> None" by (simp add: demo_timeouts_def demo_sched_def)
  from waitq_check_timeout_expires [OF demo_timeouts_wf this] obtain s' where s':
    "waitq_check_timeout 0 demo_timeouts = Inr s'"
    "timeout_threads s' = filter (\<lambda>t. monotonic demo_timeouts \<le> wait_timeout (threads demo_timeouts t)) (timeout_threads demo_timeouts)"
    "\<forall>t. if t \<in> set (timeout_threads demo_timeouts) \<and> wait_timeout (threads demo_timeouts t) < monotonic demo_timeouts
       then waitq (threads s' t) = None \<and> waitq_ret (threads s' t) = - EWOULDBLOCK \<and>
         (state (threads s' t) = THREAD_STOPPED \<or> t \<in> set (runqs s' (wait_cpuid (threads s' t))) \<or> t \<in> set (runqs s' 0) \<or>
          thread (cpus s' 0) = Some t \<and> state (threads s' t) = THREAD_RUNNING)
       else waitq (threads s' t) = waitq (threads demo_timeouts t)"
    by blast
  have ord: "Timespec 3 0 < Timespec 5 0" "\<not> Timespec 9 0 < Timespec 5 0" "Timespec 5 0 \<le> Timespec 9 0" "\<not> Timespec 5 0 \<le> Timespec 3 0"
    by (simp_all add: less_eq_timespec_def less_timespec_def timespec_cmp_def)
  from spec [OF s'(3), of 2] spec [OF s'(3), of 3] s'(2) s'(1) ord demo_timeouts_run show ?thesis
    by (intro exI [of _ s']) (simp add: demo_timeouts_def demo_sched_def sleeper_def EWOULDBLOCK_def)
qed

text \<open>
  The scheduler picks the best thread of a run queue: the one \<^verbatim>\<open>find_runq_thread\<close> takes off may run, none that
  may run has a smaller priority number, and those with the same number that may run were queued after it.
\<close>

lemma find_runq_thread_best:
  assumes "sched_wf s" "find_runq_thread c i ignoreidle s = (Some t, s')"
  shows "runnable c i ignoreidle s t \<and> runqs s' i = remove1 t (runqs s i)
    \<and> (\<exists>ys zs. runqs s i = ys @ t # zs \<and> (\<forall>u \<in> set ys. \<not> runnable c i ignoreidle s u)
        \<and> (\<forall>u \<in> set zs. pri (threads s t) \<le> pri (threads s u)))"
proof -
  have f: "List.find (runnable c i ignoreidle s) (runqs s i) = Some t" "s' = runq_remove i t s"
    using assms(2) by (auto simp: find_runq_thread_def split: option.splits)
  obtain ys zs where q: "runqs s i = ys @ t # zs" "\<forall>u \<in> set ys. \<not> runnable c i ignoreidle s u" "runnable c i ignoreidle s t"
    using find_first [OF f(1)] by blast
  have "sorted (map (\<lambda>t. pri (threads s t)) (runqs s i))" using assms(1) by (simp add: sched_wf_def runq_wf_def)
  then have "\<forall>u \<in> set zs. pri (threads s t) \<le> pri (threads s u)" using q(1) by (auto simp: sorted_append)
  moreover have "runqs s' i = remove1 t (runqs s i)" using f(2) by (simp add: runq_remove_def)
  ultimately show ?thesis using q by blast
qed

lemma find_runq_thread_best_witness: "runnable 0 0 False demo_sched 0"
proof -
  have "find_runq_thread 0 0 False demo_sched = (Some 0, snd (find_runq_thread 0 0 False demo_sched))"
    by (simp add: find_runq_thread_def demo_sched_def sleeper_def runnable_def)
  from find_runq_thread_best [OF demo_sched_wf this] show ?thesis by blast
qed

text \<open>
  C31. \<^verbatim>\<open>sched_yield\<close> loses threads. When the first thread of the processor's run queue may run, yielding takes it
  off the queue and puts the caller to sleep, but hands the thread to nobody: afterwards it is paused, on no
  run queue, asleep nowhere, and the processor still belongs to the caller.
\<close>

theorem sched_yield_loses_thread:
  assumes "sched_wf s" "runqs s c = t # ts" "runnable c c True s t" "sched_yield c q s = Inr s'"
  shows "state (threads s' t) = THREAD_PAUSED \<and> (\<forall>i. t \<notin> set (runqs s' i)) \<and> waitq (threads s' t) = None
    \<and> thread (cpus s' c) = thread (cpus s c)"
proof -
  let ?s1 = "runq_remove c t s"
  have p: "state (threads s t) = THREAD_PAUSED" "idlethread (cpus s c) \<noteq> Some t"
    using assms(3) by (auto simp: runnable_def split: if_splits)
  have "find_thread c True s = Inr (Some t, ?s1)" using assms(2,3) p(2)
    by (simp add: find_thread_def find_runq_thread_def) (simp add: runq_remove_def upds)
  with assms(4) have sl: "thread_sleep c q (Timespec 0 0) ?s1 = Inr s'" by (simp add: sched_yield_def)
  have off: "t \<notin> set (runqs ?s1 i)" for i
  proof -
    have "runq_wf ?s1" using assms(1,2) by (intro runq_remove_wf) (simp_all add: sched_wf_def)
    moreover have "runq (threads ?s1 t) = None" by (simp add: runq_remove_def upds)
    ultimately show ?thesis by (simp add: runq_wf_def)
  qed
  have w: "waitq (threads s t) = None" using assms(1) p(1) by (simp add: sched_wf_def wait_wf_def) (metis not_None_eq thread_state.distinct(9))
  from sl p(1) w off show ?thesis
    by (auto simp: thread_sleep_def waitq_wait_head_def waitq_init_def do_sleep_def prepare_sleep_def add_waiting_thread_def
        runq_remove_def upds split: option.splits if_splits)
qed

definition demo_yield :: sched where
  "demo_yield = demo_sched\<lparr>
     threads := (threads demo_sched)(4 := (sleeper 7)\<lparr>state := THREAD_PAUSED, waitq := None, tf_nest_level := 1, runq := Some 0\<rparr>),
     runqs := (\<lambda>i. if i = 0 then [4, 0] else []), ncpus := 2\<rparr>"

lemma demo_yield_wf: "sched_wf demo_yield"
  by (auto simp: sched_wf_def runq_wf_def wait_wf_def demo_yield_def demo_sched_def sleeper_def has_timeout_def)

theorem sched_yield_loses_thread_witness:
  "\<exists>s'. sched_yield 0 9 demo_yield = Inr s' \<and> state (threads s' 4) = THREAD_PAUSED \<and> (\<forall>i. 4 \<notin> set (runqs s' i))"
proof -
  have q: "runqs demo_yield 0 = 4 # [0]" "runnable 0 0 True demo_yield 4"
    by (simp_all add: demo_yield_def demo_sched_def sleeper_def runnable_def)
  have "\<exists>s'. sched_yield 0 9 demo_yield = Inr s'"
    by (simp add: sched_yield_def find_thread_def find_runq_thread_def q runq_remove_def upds thread_sleep_def waitq_wait_head_def
        waitq_init_def) (simp add: demo_yield_def demo_sched_def sleeper_def do_sleep_def prepare_sleep_def)
  then obtain s' where "sched_yield 0 9 demo_yield = Inr s'" by blast
  with sched_yield_loses_thread [OF demo_yield_wf q this] show ?thesis by blast
qed

text \<open>
  C32. \<^verbatim>\<open>find_thread\<close> follows a NULL pointer when the processor's own run queue has no thread that may run while
  another processor's has one: it puts the thread it did not find back on the run queue.
\<close>

theorem find_thread_null_deref:
  assumes "\<forall>t \<in> set (runqs s c). \<not> runnable c c ignoreidle s t"
    and "i < ncpus s" "i \<noteq> c" "u \<in> set (runqs s i)" "runnable c i True s u"
  shows "find_thread c ignoreidle s = Inl Null_deref"
proof -
  have "find_runq_thread c c ignoreidle s = (None, s)"
    using assms(1) find_None_iff [of "runnable c c ignoreidle s" "runqs s c"]
    by (auto simp: find_runq_thread_def split: option.split)
  with find_thread_loop_null [of i "[0..<ncpus s]" c u s] assms show ?thesis by (simp add: find_thread_def)
qed

theorem find_thread_null_deref_witness: "find_thread 1 True demo_yield = Inl Null_deref"
  by (rule find_thread_null_deref [of _ _ _ 0 4])
    (simp_all add: demo_yield_def demo_sched_def sleeper_def runnable_def)

end
