(* ===== verification/Lock.thy ===== *)
theory Lock
  imports Sched
begin

text \<open>
  Spin locks (net/include/spinlock.h), mutexes (kern/mutex.c), read-write locks (kern/rwlock.c) and reference
  counts (net/include/refcount.h). The wait queues of the locks are the first-in first-out queues that
  the theory \<open>Sched\<close> shows \<^verbatim>\<open>waitq_wait_tail\<close>, \<^verbatim>\<open>waitq_signal\<close> and \<^verbatim>\<open>waitq_broadcast\<close> to implement. A
  call is split where it gives its spin lock up: from its entry, or from a wake-up, to its return or to the
  next sleep it runs as one step under the spin lock. The steps of all threads interleave in the relations
  \<open>mutex_step\<close> and \<open>rwlock_step\<close>, and exclusion and the absence of lost wake-ups are invariants of what they
  reach.
\<close>

section \<open>Spin locks\<close>

type_synonym spinlock = uintptr_t

definition spinlock_init :: spinlock where
  "spinlock_init = 0"

text \<open>The compare-and-exchange answers whether it took the lock.\<close>

definition spinlock_trylock :: "spinlock \<Rightarrow> bool \<times> spinlock" where
  "spinlock_trylock l = (if l = 0 then (True, 1) else (False, l))"

definition spinlock_unlock :: "spinlock \<Rightarrow> spinlock" where
  "spinlock_unlock l = 0"

text \<open>
  \<^verbatim>\<open>spinlock_lock\<close> against what other processors do to the lock between its attempts: the values it finds,
  one per attempt. \<open>None\<close> when they end before it got the lock.
\<close>

fun spinlock_lock :: "spinlock list \<Rightarrow> spinlock option" where
  "spinlock_lock [] = None"
| "spinlock_lock (l # ls) =
     (let (ok, l') = spinlock_trylock l in if ok then Some l' else spinlock_lock ls)"

section \<open>Reference counts\<close>

definition refcount_init :: "u32 \<Rightarrow> u32" where
  "refcount_init cnt = cnt"

definition refcount_inc :: "u32 \<Rightarrow> u32 \<times> u32" where
  "refcount_inc cnt = (cnt + 1, cnt + 1)"

definition refcount_dec :: "u32 \<Rightarrow> (u32 \<times> u32) outcome" where
  "refcount_dec cnt = (let ret = cnt - 1 in if ret = - 1 then Inl Panic else Inr (ret, ret))"

definition refcount_get :: "u32 \<Rightarrow> u32" where
  "refcount_get cnt = cnt"

section \<open>Mutexes\<close>

definition MUTEX_RECURSIVE :: u32 where
  "MUTEX_RECURSIVE = 1"

record mutex =
  spinlock :: spinlock
  waiters :: "tid list"
  owner :: "tid option"
  flags :: u32
  recursive_nb :: size_t

definition recursive :: "mutex \<Rightarrow> bool" where
  "recursive m \<longleftrightarrow> flags m AND MUTEX_RECURSIVE \<noteq> 0"

definition mutex_init :: "u32 \<Rightarrow> mutex" where
  "mutex_init f = \<lparr>spinlock = spinlock_init, waiters = [], owner = None, flags = f, recursive_nb = 0\<rparr>"

text \<open>Destroying leaves the spin lock locked.\<close>

definition mutex_destroy :: "mutex \<Rightarrow> mutex outcome" where
  "mutex_destroy m =
     (if owner m \<noteq> None then Inl Panic
      else if waiters m \<noteq> [] then Inl Panic
      else Inr (m\<lparr>spinlock := 1\<rparr>))"

text \<open>\<open>cur\<close> is \<^verbatim>\<open>curcpu()->thread\<close>, \<open>None\<close> early in the boot sequence.\<close>

definition mutex_acquire :: "tid option \<Rightarrow> mutex \<Rightarrow> mutex" where
  "mutex_acquire cur m =
     (let m' = m\<lparr>owner := cur\<rparr>
      in if recursive m' then m'\<lparr>recursive_nb := 1\<rparr> else m')"

text \<open>
  The body of the loop of \<^verbatim>\<open>mutex_lock\<close>: it returns with the mutex (\<open>True\<close>), or ends asleep on the queue
  (\<open>False\<close>).
\<close>

definition mutex_lock_body :: "tid option \<Rightarrow> mutex \<Rightarrow> (bool \<times> mutex) outcome" where
  "mutex_lock_body cur m =
     (if owner m = cur
      then if \<not> recursive m then Inl Panic
           else Inr (True, m\<lparr>recursive_nb := recursive_nb m + 1\<rparr>)
      else case cur of
             None \<Rightarrow> Inl Null_deref
           | Some t \<Rightarrow> Inr (False, m\<lparr>waiters := waiters m @ [t]\<rparr>))"

definition mutex_lock :: "tid option \<Rightarrow> mutex \<Rightarrow> (bool \<times> mutex) outcome" where
  "mutex_lock cur m =
     (if owner m = None then Inr (True, mutex_acquire cur m) else mutex_lock_body cur m)"

text \<open>The call goes on after a wake-up, with the test at the end of its loop.\<close>

definition mutex_lock_woken :: "tid option \<Rightarrow> mutex \<Rightarrow> (bool \<times> mutex) outcome" where
  "mutex_lock_woken cur m =
     (if owner m \<noteq> None then mutex_lock_body cur m
      else let m' = m\<lparr>owner := cur\<rparr>
           in Inr (True, if recursive m' then m'\<lparr>recursive_nb := 1\<rparr> else m'))"

text \<open>
  \<^verbatim>\<open>mutex_spinlock\<close> releases the spin lock and takes it again instead of sleeping: \<open>False\<close> is that it must try
  again, which \<open>mutex_spin_again\<close> does.
\<close>

definition mutex_spin_body :: "tid option \<Rightarrow> mutex \<Rightarrow> (bool \<times> mutex) outcome" where
  "mutex_spin_body cur m =
     (if owner m = cur
      then if \<not> recursive m then Inl Panic
           else Inr (True, m\<lparr>recursive_nb := recursive_nb m + 1\<rparr>)
      else Inr (False, m))"

definition mutex_spinlock :: "tid option \<Rightarrow> mutex \<Rightarrow> (bool \<times> mutex) outcome" where
  "mutex_spinlock cur m =
     (if owner m = None then Inr (True, mutex_acquire cur m) else mutex_spin_body cur m)"

definition mutex_spin_again :: "tid option \<Rightarrow> mutex \<Rightarrow> (bool \<times> mutex) outcome" where
  "mutex_spin_again cur m =
     (if owner m \<noteq> None then mutex_spin_body cur m
      else let m' = m\<lparr>owner := cur\<rparr>
           in Inr (True, if recursive m' then m'\<lparr>recursive_nb := 1\<rparr> else m'))"

definition mutex_trylock :: "tid option \<Rightarrow> mutex \<Rightarrow> (int \<times> mutex) outcome" where
  "mutex_trylock cur m =
     (let (ok, l) = spinlock_trylock (spinlock m); m = m\<lparr>spinlock := l\<rparr>
      in if ok then Inr (1, m)
         else andthen
           (if owner m = None then Inr (0, mutex_acquire cur m)
            else if owner m = cur
            then if \<not> recursive m then Inl Panic
                 else Inr (0, m\<lparr>recursive_nb := recursive_nb m + 1\<rparr>)
            else Inr (1, m))
           (\<lambda>(res, m). Inr (res, m\<lparr>spinlock := spinlock_unlock (spinlock m)\<rparr>)))"

definition mutex_signal :: "mutex \<Rightarrow> mutex" where
  "mutex_signal m = m\<lparr>waiters := snd (queue_signal (waiters m))\<rparr>"

definition mutex_unlock :: "tid option \<Rightarrow> mutex \<Rightarrow> mutex outcome" where
  "mutex_unlock cur m =
     (if owner m = None \<and> cur \<noteq> None then Inl Panic
      else if recursive m
      then if recursive_nb m = 0 \<and> owner m \<noteq> None then Inl Panic
           else let m' = m\<lparr>recursive_nb := recursive_nb m - 1\<rparr>
                in if recursive_nb m' = 0 then Inr (mutex_signal (m'\<lparr>owner := None\<rparr>)) else Inr m'
      else Inr (mutex_signal (m\<lparr>owner := None\<rparr>)))"

section \<open>Read-write locks\<close>

record rwlock =
  rw_spinlock :: spinlock
  rwaiters :: "tid list"
  wwaiters :: "tid list"
  wowner :: "tid option"
  rlock_nb :: size_t

definition rwlock_init :: rwlock where
  "rwlock_init = \<lparr>rw_spinlock = spinlock_init, rwaiters = [], wwaiters = [], wowner = None, rlock_nb = 0\<rparr>"

definition rwlock_destroy :: "rwlock \<Rightarrow> rwlock outcome" where
  "rwlock_destroy l = (if rwaiters l \<noteq> [] \<or> wwaiters l \<noteq> [] then Inl Panic else Inr l)"

text \<open>
  The loop of \<^verbatim>\<open>rwlock_rdlock\<close> starts over after each of its two sleeps, so a wake-up runs this again.
\<close>

definition rwlock_rdlock :: "tid option \<Rightarrow> rwlock \<Rightarrow> (bool \<times> rwlock) outcome" where
  "rwlock_rdlock cur l =
     (if wowner l \<noteq> None \<or> wwaiters l \<noteq> []
      then case cur of None \<Rightarrow> Inl Null_deref | Some t \<Rightarrow> Inr (False, l\<lparr>rwaiters := rwaiters l @ [t]\<rparr>)
      else Inr (True, l\<lparr>rlock_nb := rlock_nb l + 1\<rparr>))"

definition rwlock_tryrdlock :: "rwlock \<Rightarrow> int \<times> rwlock" where
  "rwlock_tryrdlock l =
     (if wowner l \<noteq> None then (1, l)
      else if wwaiters l \<noteq> [] then (1, l)
      else (0, l\<lparr>rlock_nb := rlock_nb l + 1\<rparr>))"

text \<open>Without a thread the code takes the address 1 for one.\<close>

definition rw_thread :: "tid option \<Rightarrow> tid" where
  "rw_thread cur = (case cur of None \<Rightarrow> 1 | Some t \<Rightarrow> t)"

definition rwlock_wrlock :: "tid option \<Rightarrow> rwlock \<Rightarrow> (bool \<times> rwlock) outcome" where
  "rwlock_wrlock cur l =
     (if wowner l \<noteq> None \<or> rlock_nb l \<noteq> 0
      then case cur of None \<Rightarrow> Inl Null_deref | Some t \<Rightarrow> Inr (False, l\<lparr>wwaiters := wwaiters l @ [t]\<rparr>)
      else Inr (True, l\<lparr>wowner := Some (rw_thread cur)\<rparr>))"

definition rwlock_tryrwlock :: "tid option \<Rightarrow> rwlock \<Rightarrow> int \<times> rwlock" where
  "rwlock_tryrwlock cur l =
     (if wowner l = None \<and> rlock_nb l = 0 then (0, l\<lparr>wowner := Some (rw_thread cur)\<rparr>) else (1, l))"

definition rwlock_unlock :: "tid option \<Rightarrow> rwlock \<Rightarrow> rwlock" where
  "rwlock_unlock cur l =
     (if wowner l \<noteq> None \<and> wowner l = Some (rw_thread cur)
      then let l = l\<lparr>wowner := None\<rparr>; (res, ws) = queue_signal (wwaiters l); l = l\<lparr>wwaiters := ws\<rparr>
           in if res = 0 then l\<lparr>rwaiters := snd (queue_broadcast (rwaiters l))\<rparr> else l
      else let l = l\<lparr>rlock_nb := rlock_nb l - 1\<rparr>
           in if rlock_nb l = 0 then l\<lparr>wwaiters := snd (queue_signal (wwaiters l))\<rparr> else l)"

section \<open>Threads at a mutex\<close>

text \<open>
  Where a thread is with respect to one mutex: outside, holding it so many times over, asleep or woken inside
  \<^verbatim>\<open>mutex_lock\<close>, or trying again inside \<^verbatim>\<open>mutex_spinlock\<close>.
\<close>

datatype mutex_pc = Out | Hold nat | Wait | Spin

record mutex_sys =
  mtx :: mutex
  mpc :: "tid \<Rightarrow> mutex_pc"

fun depth :: "mutex_pc \<Rightarrow> nat" where
  "depth (Hold n) = n"
| "depth _ = 0"

definition mutex_start :: "mutex_sys \<Rightarrow> bool" where
  "mutex_start s \<longleftrightarrow> (\<exists>f. mtx s = mutex_init f) \<and> mpc s = (\<lambda>_. Out)"

text \<open>
  A step takes the spin lock, which is free, and ends with it free. A thread locks when it is outside or holds
  the mutex, fewer times than the counter has values. A sleeper goes on once it is off the queue. It may be
  taken off the queue by a signal too.
\<close>

inductive mutex_step :: "mutex_sys \<Rightarrow> mutex_sys \<Rightarrow> bool" where
  lock: "\<lbrakk>mpc s t = Out \<or> mpc s t = Hold n; n + 1 < 2 ^ 64; spinlock (mtx s) = 0;
      mutex_lock (Some t) (mtx s) = Inr (ok, m)\<rbrakk> \<Longrightarrow>
    mutex_step s (s\<lparr>mtx := m, mpc := (mpc s)(t := if ok then Hold (depth (mpc s t) + 1) else Wait)\<rparr>)"
| woken: "\<lbrakk>mpc s t = Wait; t \<notin> set (waiters (mtx s)); spinlock (mtx s) = 0;
      mutex_lock_woken (Some t) (mtx s) = Inr (ok, m)\<rbrakk> \<Longrightarrow>
    mutex_step s (s\<lparr>mtx := m, mpc := (mpc s)(t := if ok then Hold 1 else Wait)\<rparr>)"
| spin: "\<lbrakk>mpc s t = Out \<or> mpc s t = Hold n; n + 1 < 2 ^ 64; spinlock (mtx s) = 0;
      mutex_spinlock (Some t) (mtx s) = Inr (ok, m)\<rbrakk> \<Longrightarrow>
    mutex_step s (s\<lparr>mtx := m, mpc := (mpc s)(t := if ok then Hold (depth (mpc s t) + 1) else Spin)\<rparr>)"
| again: "\<lbrakk>mpc s t = Spin; spinlock (mtx s) = 0; mutex_spin_again (Some t) (mtx s) = Inr (ok, m)\<rbrakk> \<Longrightarrow>
    mutex_step s (s\<lparr>mtx := m, mpc := (mpc s)(t := if ok then Hold 1 else Spin)\<rparr>)"
| unlock: "\<lbrakk>mpc s t = Hold (Suc n); spinlock (mtx s) = 0; mutex_unlock (Some t) (mtx s) = Inr m\<rbrakk> \<Longrightarrow>
    mutex_step s (s\<lparr>mtx := m, mpc := (mpc s)(t := if n = 0 then Out else Hold n)\<rparr>)"
| interrupt: "\<lbrakk>t \<in> set (waiters (mtx s))\<rbrakk> \<Longrightarrow>
    mutex_step s (s\<lparr>mtx := (mtx s)\<lparr>waiters := remove1 t (waiters (mtx s))\<rparr>\<rparr>)"

definition holds_ok :: "mutex_sys \<Rightarrow> bool" where
  "holds_ok s \<longleftrightarrow> spinlock (mtx s) = 0 \<and> (\<forall>t. owner (mtx s) = Some t \<longleftrightarrow> (\<exists>n. mpc s t = Hold n))"

definition counts_ok :: "mutex_sys \<Rightarrow> bool" where
  "counts_ok s \<longleftrightarrow> (\<forall>t n. mpc s t = Hold n \<longrightarrow> 0 < n \<and> n < 2 ^ 64 \<and>
     (if recursive (mtx s) then recursive_nb (mtx s) = of_nat n else n = 1))"

definition queue_ok :: "mutex_sys \<Rightarrow> bool" where
  "queue_ok s \<longleftrightarrow> distinct (waiters (mtx s)) \<and> (\<forall>t \<in> set (waiters (mtx s)). mpc s t = Wait)"

text \<open>Nobody is left asleep at a free mutex unless a thread that was woken has yet to look at it.\<close>

definition wakes_ok :: "mutex_sys \<Rightarrow> bool" where
  "wakes_ok s \<longleftrightarrow> (owner (mtx s) = None \<longrightarrow>
     waiters (mtx s) = [] \<or> (\<exists>t. mpc s t = Wait \<and> t \<notin> set (waiters (mtx s))))"

definition mutex_inv :: "mutex_sys \<Rightarrow> bool" where
  "mutex_inv s \<longleftrightarrow> holds_ok s \<and> counts_ok s \<and> queue_ok s \<and> wakes_ok s"

lemmas mutex_inv_parts = holds_ok_def counts_ok_def queue_ok_def wakes_ok_def

lemma mutex_inv_uniq: "mutex_inv s \<Longrightarrow> mpc s t = Hold n \<Longrightarrow> mpc s u = Hold k \<Longrightarrow> u = t"
  unfolding mutex_inv_def holds_ok_def by (metis option.inject)

lemma mutex_inv_owner: "mutex_inv s \<Longrightarrow> owner (mtx s) = Some t \<longleftrightarrow> (\<exists>n. mpc s t = Hold n)"
  by (simp add: mutex_inv_def holds_ok_def)

lemma mutex_inv_waiter: "mutex_inv s \<Longrightarrow> t \<in> set (waiters (mtx s)) \<Longrightarrow> mpc s t = Wait"
  by (simp add: mutex_inv_def queue_ok_def)

lemma mutex_start_inv: "mutex_start s \<Longrightarrow> mutex_inv s"
  by (auto simp: mutex_start_def mutex_inv_def mutex_inv_parts mutex_init_def spinlock_init_def)

text \<open>The four things a step can come to.\<close>

lemma mutex_inv_acquire:
  assumes "mutex_inv s" "owner (mtx s) = None" "t \<notin> set (waiters (mtx s))"
  shows "mutex_inv (s\<lparr>mtx := mutex_acquire (Some t) (mtx s), mpc := (mpc s)(t := Hold 1)\<rparr>)"
proof -
  have none: "mpc s u \<noteq> Hold n" for u n using mutex_inv_owner [OF assms(1), of u] assms(2) by auto
  show ?thesis using assms none
    by (auto simp: mutex_inv_def mutex_inv_parts mutex_acquire_def Let_def recursive_def)
qed

lemma mutex_inv_nest:
  assumes "mutex_inv s" "mpc s t = Hold n" "recursive (mtx s)" "n + 1 < 2 ^ 64"
  shows "mutex_inv (s\<lparr>mtx := (mtx s)\<lparr>recursive_nb := recursive_nb (mtx s) + 1\<rparr>, mpc := (mpc s)(t := Hold (n + 1))\<rparr>)"
    (is "mutex_inv ?s")
proof -
  have own: "owner (mtx s) = Some t" using mutex_inv_owner [OF assms(1)] assms(2) by blast
  have nb: "recursive_nb (mtx s) = of_nat n" using assms(1-3) by (simp add: mutex_inv_def counts_ok_def)
  have "holds_ok ?s" using assms(1,2) own by (auto simp: mutex_inv_def holds_ok_def)
  moreover have "counts_ok ?s" using mutex_inv_uniq [OF assms(1,2)] assms(3,4) nb by (auto simp: counts_ok_def recursive_def)
  moreover have "queue_ok ?s" using assms(1,2) by (auto simp: mutex_inv_def queue_ok_def)
  moreover have "wakes_ok ?s" using own by (simp add: wakes_ok_def)
  ultimately show ?thesis by (simp add: mutex_inv_def)
qed

lemma mutex_inv_park:
  assumes "mutex_inv s" "owner (mtx s) = Some u" "u \<noteq> t" "t \<notin> set (waiters (mtx s))"
  shows "mutex_inv (s\<lparr>mtx := (mtx s)\<lparr>waiters := waiters (mtx s) @ [t]\<rparr>, mpc := (mpc s)(t := Wait)\<rparr>)"
    and "mutex_inv (s\<lparr>mpc := (mpc s)(t := Spin)\<rparr>)"
  using assms mutex_inv_owner [OF assms(1), of t]
  by (auto simp: mutex_inv_def mutex_inv_parts recursive_def)

lemma mutex_inv_release:
  assumes "mutex_inv s" "owner (mtx s) = Some t"
  shows "mutex_inv (s\<lparr>mtx := mutex_signal ((mtx s)\<lparr>recursive_nb := k, owner := None\<rparr>), mpc := (mpc s)(t := Out)\<rparr>)"
    (is "mutex_inv ?s")
proof -
  obtain n where hold: "mpc s t = Hold n" using mutex_inv_owner [OF assms(1)] assms(2) by blast
  have none: "mpc s u \<noteq> Hold k" if "u \<noteq> t" for u k using mutex_inv_uniq [OF assms(1) hold] that by blast
  then have "holds_ok ?s" "counts_ok ?s" using assms(1)
    by (auto simp: mutex_inv_def holds_ok_def counts_ok_def mutex_signal_def)
  moreover have "queue_ok ?s \<and> wakes_ok ?s"
  proof (cases "waiters (mtx s)")
    case Nil
    then show ?thesis by (simp add: queue_ok_def wakes_ok_def mutex_signal_def queue_signal_def)
  next
    case (Cons u us)
    have w: "\<forall>v \<in> set (u # us). mpc s v = Wait" "distinct (u # us)"
      using assms(1) Cons by (auto simp: mutex_inv_def queue_ok_def)
    then have "t \<notin> set (u # us)" using hold by auto
    with w Cons show ?thesis by (auto simp: queue_ok_def wakes_ok_def mutex_signal_def queue_signal_def)
  qed
  ultimately show ?thesis by (simp add: mutex_inv_def)
qed

text \<open>What the calls do, by who owns the mutex.\<close>

lemma mutex_lock_cases:
  assumes "mutex_lock (Some t) m = Inr (ok, m')"
  obtains "owner m = None" "ok" "m' = mutex_acquire (Some t) m"
  | "owner m = Some t" "recursive m" "ok" "m' = m\<lparr>recursive_nb := recursive_nb m + 1\<rparr>"
  | u where "owner m = Some u" "u \<noteq> t" "\<not> ok" "m' = m\<lparr>waiters := waiters m @ [t]\<rparr>"
  using assms by (auto simp: mutex_lock_def mutex_lock_body_def split: if_splits)

lemma mutex_woken_lock: "mutex_lock_woken cur m = mutex_lock cur m"
  by (simp add: mutex_lock_woken_def mutex_lock_def mutex_acquire_def Let_def)

lemma mutex_spin_cases:
  assumes "mutex_spinlock (Some t) m = Inr (ok, m')"
  obtains "owner m = None" "ok" "m' = mutex_acquire (Some t) m"
  | "owner m = Some t" "recursive m" "ok" "m' = m\<lparr>recursive_nb := recursive_nb m + 1\<rparr>"
  | u where "owner m = Some u" "u \<noteq> t" "\<not> ok" "m' = m"
proof (cases "owner m")
  case None
  with assms show ?thesis by (intro that(1)) (simp_all add: mutex_spinlock_def)
next
  case (Some u)
  show ?thesis
  proof (cases "u = t")
    case True
    with assms Some show ?thesis
      by (intro that(2)) (simp_all add: mutex_spinlock_def mutex_spin_body_def split: if_splits)
  next
    case False
    with assms Some show ?thesis by (intro that(3)) (simp_all add: mutex_spinlock_def mutex_spin_body_def)
  qed
qed

lemma mutex_again_spin: "mutex_spin_again cur m = mutex_spinlock cur m"
  by (simp add: mutex_spin_again_def mutex_spinlock_def mutex_acquire_def Let_def)

lemma mutex_inv_locked:
  assumes "mutex_inv s" "mpc s t = Out \<or> mpc s t = Hold n" "n + 1 < 2 ^ 64" "mutex_lock (Some t) (mtx s) = Inr (ok, m)"
  shows "mutex_inv (s\<lparr>mtx := m, mpc := (mpc s)(t := if ok then Hold (depth (mpc s t) + 1) else Wait)\<rparr>)"
proof -
  have free: "t \<notin> set (waiters (mtx s))" using mutex_inv_waiter [OF assms(1)] assms(2) by auto
  from assms(4) show ?thesis
  proof (cases rule: mutex_lock_cases)
    case 1
    then have "depth (mpc s t) = 0" using mutex_inv_owner [OF assms(1), of t] assms(2) by auto
    with 1 mutex_inv_acquire [OF assms(1) 1(1) free] show ?thesis by simp
  next
    case 2
    then have "mpc s t = Hold n" using mutex_inv_owner [OF assms(1), of t] assms(2) by auto
    with 2 mutex_inv_nest [OF assms(1) _ 2(2) assms(3)] show ?thesis by simp
  next
    case (3 u)
    with mutex_inv_park(1) [OF assms(1) 3(1,2) free] show ?thesis by simp
  qed
qed

lemma mutex_inv_unlocked:
  assumes "mutex_inv s" "mpc s t = Hold (Suc n)" "mutex_unlock (Some t) (mtx s) = Inr m"
  shows "mutex_inv (s\<lparr>mtx := m, mpc := (mpc s)(t := if n = 0 then Out else Hold n)\<rparr>)" (is "mutex_inv ?s")
proof -
  have own: "owner (mtx s) = Some t" using mutex_inv_owner [OF assms(1)] assms(2) by blast
  have n: "Suc n < 2 ^ 64" using assms(1,2) unfolding mutex_inv_def counts_ok_def by blast
  show ?thesis
  proof (cases "recursive (mtx s)")
    case False
    then have "n = 0" using assms(1,2) by (auto simp: mutex_inv_def counts_ok_def)
    moreover have "m = mutex_signal ((mtx s)\<lparr>recursive_nb := recursive_nb (mtx s), owner := None\<rparr>)"
      using assms(3) False own by (simp add: mutex_unlock_def)
    ultimately show ?thesis using mutex_inv_release [OF assms(1) own, of "recursive_nb (mtx s)"] by simp
  next
    case True
    then have nb: "recursive_nb (mtx s) = of_nat (Suc n)" using assms(1,2) by (simp add: mutex_inv_def counts_ok_def)
    have z: "of_nat n = (0 :: size_t) \<longleftrightarrow> n = 0" using n unat_of_nat64 [of n] by auto
    show ?thesis
    proof (cases "n = 0")
      case True
      have "m = mutex_signal ((mtx s)\<lparr>recursive_nb := 0, owner := None\<rparr>)"
        using assms(3) \<open>recursive (mtx s)\<close> own nb True by (simp add: mutex_unlock_def Let_def)
      with True mutex_inv_release [OF assms(1) own, of 0] show ?thesis by simp
    next
      case False
      have nz: "recursive_nb (mtx s) \<noteq> 0" using nb n unat_of_nat64 [of "Suc n"] by auto
      have "m = (mtx s)\<lparr>recursive_nb := of_nat n\<rparr>"
        using assms(3) True own nb z False nz by (simp add: mutex_unlock_def Let_def)
      moreover have "holds_ok ?s" if "m = (mtx s)\<lparr>recursive_nb := of_nat n\<rparr>"
        using that assms(1,2) own False by (auto simp: mutex_inv_def holds_ok_def)
      moreover have "counts_ok ?s" if "m = (mtx s)\<lparr>recursive_nb := of_nat n\<rparr>"
        using that mutex_inv_uniq [OF assms(1,2)] True n False by (auto simp: counts_ok_def recursive_def)
      ultimately show ?thesis using False assms(1,2) own by (auto simp: mutex_inv_def queue_ok_def wakes_ok_def)
    qed
  qed
qed

lemma mutex_step_inv:
  assumes "mutex_inv s" "mutex_step s s'"
  shows "mutex_inv s'"
  using assms(2)
proof cases
  case (lock t n ok m)
  then show ?thesis using mutex_inv_locked [OF assms(1)] by simp
next
  case (woken t ok m)
  have "owner (mtx s) \<noteq> Some t" using mutex_inv_owner [OF assms(1)] woken(2) by auto
  from woken(5) [unfolded mutex_woken_lock] show ?thesis
  proof (cases rule: mutex_lock_cases)
    case 1
    with woken(1) mutex_inv_acquire [OF assms(1) 1(1) woken(3)] show ?thesis by simp
  next
    case 2
    with \<open>owner (mtx s) \<noteq> Some t\<close> show ?thesis by simp
  next
    case (3 u)
    with woken(1) mutex_inv_park(1) [OF assms(1) 3(1,2) woken(3)] show ?thesis by simp
  qed
next
  case (spin t n ok m)
  have free: "t \<notin> set (waiters (mtx s))" using mutex_inv_waiter [OF assms(1)] spin(2) by auto
  from spin(5) show ?thesis
  proof (cases rule: mutex_spin_cases)
    case 1
    then have "depth (mpc s t) = 0" using mutex_inv_owner [OF assms(1), of t] spin(2) by auto
    with 1 spin(1) mutex_inv_acquire [OF assms(1) 1(1) free] show ?thesis by simp
  next
    case 2
    then have "mpc s t = Hold n" using mutex_inv_owner [OF assms(1), of t] spin(2) by auto
    with 2 spin(1) mutex_inv_nest [OF assms(1) _ 2(2) spin(3)] show ?thesis by simp
  next
    case (3 u)
    with spin(1) mutex_inv_park(2) [OF assms(1) 3(1,2) free] show ?thesis by simp
  qed
next
  case (again t ok m)
  have free: "t \<notin> set (waiters (mtx s))" "owner (mtx s) \<noteq> Some t"
    using mutex_inv_waiter [OF assms(1)] mutex_inv_owner [OF assms(1)] again(2) by auto
  from again(4) [unfolded mutex_again_spin] show ?thesis
  proof (cases rule: mutex_spin_cases)
    case 1
    with again(1) mutex_inv_acquire [OF assms(1) 1(1) free(1)] show ?thesis by simp
  next
    case 2
    with free(2) show ?thesis by simp
  next
    case (3 u)
    with again(1) mutex_inv_park(2) [OF assms(1) 3(1,2) free(1)] show ?thesis by simp
  qed
next
  case (unlock t n m)
  then show ?thesis using mutex_inv_unlocked [OF assms(1)] by simp
next
  case (interrupt t)
  have "mpc s t = Wait" "distinct (waiters (mtx s))"
    using assms(1) interrupt(2) by (auto simp: mutex_inv_def queue_ok_def)
  moreover have "holds_ok s'" "counts_ok s'" using assms(1) interrupt(1)
    by (auto simp: mutex_inv_def holds_ok_def counts_ok_def recursive_def)
  ultimately show ?thesis using assms(1) interrupt(1) by (auto simp: mutex_inv_def queue_ok_def wakes_ok_def)
qed

section \<open>Threads at a read-write lock\<close>

datatype rw_pc = RwOut | Reading | Writing | Rwait | Wwait

record rw_sys =
  rw :: rwlock
  rpc :: "tid \<Rightarrow> rw_pc"

definition rw_start :: "rw_sys \<Rightarrow> bool" where
  "rw_start s \<longleftrightarrow> rw s = rwlock_init \<and> rpc s = (\<lambda>_. RwOut)"

text \<open>
  A thread takes the lock once at a time, and fewer threads read than the counter has values. Only a thread
  that has the lock unlocks it.
\<close>

inductive rwlock_step :: "rw_sys \<Rightarrow> rw_sys \<Rightarrow> bool" where
  rdlock: "\<lbrakk>rpc s t = RwOut \<or> rpc s t = Rwait \<and> t \<notin> set (rwaiters (rw s)); rlock_nb (rw s) + 1 \<noteq> 0;
      rwlock_rdlock (Some t) (rw s) = Inr (ok, l)\<rbrakk> \<Longrightarrow>
    rwlock_step s (s\<lparr>rw := l, rpc := (rpc s)(t := if ok then Reading else Rwait)\<rparr>)"
| tryrdlock: "\<lbrakk>rpc s t = RwOut; rlock_nb (rw s) + 1 \<noteq> 0; rwlock_tryrdlock (rw s) = (r, l)\<rbrakk> \<Longrightarrow>
    rwlock_step s (s\<lparr>rw := l, rpc := (rpc s)(t := if r = 0 then Reading else RwOut)\<rparr>)"
| wrlock: "\<lbrakk>rpc s t = RwOut \<or> rpc s t = Wwait \<and> t \<notin> set (wwaiters (rw s));
      rwlock_wrlock (Some t) (rw s) = Inr (ok, l)\<rbrakk> \<Longrightarrow>
    rwlock_step s (s\<lparr>rw := l, rpc := (rpc s)(t := if ok then Writing else Wwait)\<rparr>)"
| tryrwlock: "\<lbrakk>rpc s t = RwOut; rwlock_tryrwlock (Some t) (rw s) = (r, l)\<rbrakk> \<Longrightarrow>
    rwlock_step s (s\<lparr>rw := l, rpc := (rpc s)(t := if r = 0 then Writing else RwOut)\<rparr>)"
| unlock: "\<lbrakk>rpc s t = Reading \<or> rpc s t = Writing\<rbrakk> \<Longrightarrow>
    rwlock_step s (s\<lparr>rw := rwlock_unlock (Some t) (rw s), rpc := (rpc s)(t := RwOut)\<rparr>)"
| interrupt_reader: "\<lbrakk>t \<in> set (rwaiters (rw s))\<rbrakk> \<Longrightarrow>
    rwlock_step s (s\<lparr>rw := (rw s)\<lparr>rwaiters := remove1 t (rwaiters (rw s))\<rparr>\<rparr>)"
| interrupt_writer: "\<lbrakk>t \<in> set (wwaiters (rw s))\<rbrakk> \<Longrightarrow>
    rwlock_step s (s\<lparr>rw := (rw s)\<lparr>wwaiters := remove1 t (wwaiters (rw s))\<rparr>\<rparr>)"

definition owners_ok :: "rw_sys \<Rightarrow> bool" where
  "owners_ok s \<longleftrightarrow> (\<forall>t. wowner (rw s) = Some t \<longleftrightarrow> rpc s t = Writing)"

definition readers_ok :: "rw_sys \<Rightarrow> bool" where
  "readers_ok s \<longleftrightarrow> finite {t. rpc s t = Reading} \<and> unat (rlock_nb (rw s)) = card {t. rpc s t = Reading} \<and>
     (wowner (rw s) \<noteq> None \<longrightarrow> rlock_nb (rw s) = 0)"

definition queues_ok :: "rw_sys \<Rightarrow> bool" where
  "queues_ok s \<longleftrightarrow> distinct (rwaiters (rw s)) \<and> distinct (wwaiters (rw s)) \<and>
     (\<forall>t \<in> set (rwaiters (rw s)). rpc s t = Rwait) \<and> (\<forall>t \<in> set (wwaiters (rw s)). rpc s t = Wwait)"

text \<open>A writer that was woken and has yet to look at the lock.\<close>

definition woken_writer :: "rw_sys \<Rightarrow> bool" where
  "woken_writer s \<longleftrightarrow> (\<exists>t. rpc s t = Wwait \<and> t \<notin> set (wwaiters (rw s)))"

definition rw_wakes_ok :: "rw_sys \<Rightarrow> bool" where
  "rw_wakes_ok s \<longleftrightarrow>
     (wwaiters (rw s) \<noteq> [] \<longrightarrow> wowner (rw s) \<noteq> None \<or> rlock_nb (rw s) \<noteq> 0 \<or> woken_writer s) \<and>
     (rwaiters (rw s) \<noteq> [] \<longrightarrow> wowner (rw s) \<noteq> None \<or> wwaiters (rw s) \<noteq> [] \<or> woken_writer s)"

definition rw_inv :: "rw_sys \<Rightarrow> bool" where
  "rw_inv s \<longleftrightarrow> owners_ok s \<and> readers_ok s \<and> queues_ok s \<and> rw_wakes_ok s"

lemma rw_start_inv: "rw_start s \<Longrightarrow> rw_inv s"
  by (simp add: rw_start_def rw_inv_def owners_ok_def readers_ok_def queues_ok_def rw_wakes_ok_def rwlock_init_def)

lemma woken_writer_same:
  assumes "rpc s t \<noteq> Wwait" "pc \<noteq> Wwait" "wwaiters l = wwaiters (rw s)"
  shows "woken_writer (s\<lparr>rw := l, rpc := (rpc s)(t := pc)\<rparr>) \<longleftrightarrow> woken_writer s"
proof -
  have "((rpc s)(t := pc)) u = Wwait \<longleftrightarrow> rpc s u = Wwait" for u using assms(1,2) by (cases "u = t") auto
  then show ?thesis using assms(3) unfolding woken_writer_def by simp
qed

text \<open>Again, what a step can come to. A thread that is not in the queues gets the lock or goes to sleep.\<close>

lemma rw_inv_read:
  assumes "rw_inv s" "wowner (rw s) = None" "wwaiters (rw s) = []" "rlock_nb (rw s) + 1 \<noteq> 0"
    and "t \<notin> set (rwaiters (rw s))" "rpc s t = RwOut \<or> rpc s t = Rwait"
  shows "rw_inv (s\<lparr>rw := (rw s)\<lparr>rlock_nb := rlock_nb (rw s) + 1\<rparr>, rpc := (rpc s)(t := Reading)\<rparr>)" (is "rw_inv ?s")
proof -
  have set: "{u. rpc ?s u = Reading} = insert t {u. rpc s u = Reading}" "t \<notin> {u. rpc s u = Reading}"
    using assms(6) by auto
  have "unat (rlock_nb (rw s) + 1) = unat (rlock_nb (rw s)) + 1"
    using assms(4) by (metis Suc_eq_plus1 add.commute unatSuc)
  then have "readers_ok ?s" using assms(1,2) set by (simp add: rw_inv_def readers_ok_def)
  moreover have "owners_ok ?s" "queues_ok ?s" using assms by (auto simp: rw_inv_def owners_ok_def queues_ok_def)
  moreover have "rw_wakes_ok ?s" using assms woken_writer_same [of s t] by (auto simp: rw_inv_def rw_wakes_ok_def)
  ultimately show ?thesis by (simp add: rw_inv_def)
qed

lemma rw_inv_rsleep:
  assumes "rw_inv s" "wowner (rw s) \<noteq> None \<or> wwaiters (rw s) \<noteq> []"
    and "t \<notin> set (rwaiters (rw s))" "rpc s t = RwOut \<or> rpc s t = Rwait"
  shows "rw_inv (s\<lparr>rw := (rw s)\<lparr>rwaiters := rwaiters (rw s) @ [t]\<rparr>, rpc := (rpc s)(t := Rwait)\<rparr>)" (is "rw_inv ?s")
proof -
  have same: "{u. rpc ?s u = Reading} = {u. rpc s u = Reading}" using assms(4) by auto
  have "readers_ok ?s" using assms(1) same by (simp add: rw_inv_def readers_ok_def)
  moreover have "owners_ok ?s" "queues_ok ?s" using assms by (auto simp: rw_inv_def owners_ok_def queues_ok_def)
  moreover have "rw_wakes_ok ?s" using assms woken_writer_same [of s t] by (auto simp: rw_inv_def rw_wakes_ok_def)
  ultimately show ?thesis by (simp add: rw_inv_def)
qed

lemma rw_inv_write:
  assumes "rw_inv s" "wowner (rw s) = None" "rlock_nb (rw s) = 0"
    and "t \<notin> set (wwaiters (rw s))" "rpc s t = RwOut \<or> rpc s t = Wwait"
  shows "rw_inv (s\<lparr>rw := (rw s)\<lparr>wowner := Some t\<rparr>, rpc := (rpc s)(t := Writing)\<rparr>)" (is "rw_inv ?s")
proof -
  have same: "{u. rpc ?s u = Reading} = {u. rpc s u = Reading}" using assms(5) by auto
  have none: "rpc s u \<noteq> Writing" for u using assms(1,2) by (simp add: rw_inv_def owners_ok_def)
  have "readers_ok ?s" using assms(1,3) same by (simp add: rw_inv_def readers_ok_def)
  moreover have "owners_ok ?s" "queues_ok ?s" using assms none by (auto simp: rw_inv_def owners_ok_def queues_ok_def)
  moreover have "rw_wakes_ok ?s" by (simp add: rw_wakes_ok_def)
  ultimately show ?thesis by (simp add: rw_inv_def)
qed

lemma rw_inv_wsleep:
  assumes "rw_inv s" "wowner (rw s) \<noteq> None \<or> rlock_nb (rw s) \<noteq> 0"
    and "t \<notin> set (wwaiters (rw s))" "rpc s t = RwOut \<or> rpc s t = Wwait"
  shows "rw_inv (s\<lparr>rw := (rw s)\<lparr>wwaiters := wwaiters (rw s) @ [t]\<rparr>, rpc := (rpc s)(t := Wwait)\<rparr>)" (is "rw_inv ?s")
proof -
  have same: "{u. rpc ?s u = Reading} = {u. rpc s u = Reading}" using assms(4) by auto
  have "readers_ok ?s" using assms(1) same by (simp add: rw_inv_def readers_ok_def)
  moreover have "owners_ok ?s" "queues_ok ?s" using assms by (auto simp: rw_inv_def owners_ok_def queues_ok_def)
  moreover have "rw_wakes_ok ?s" using assms by (auto simp: rw_wakes_ok_def)
  ultimately show ?thesis by (simp add: rw_inv_def)
qed

lemma signalled_writer:
  assumes "queues_ok s" "wwaiters (rw s) = w # ws" "rpc s t \<noteq> Wwait"
  shows "rpc s w = Wwait \<and> w \<noteq> t \<and> w \<notin> set ws \<and> distinct ws"
  using assms by (auto simp: queues_ok_def)

lemma rw_inv_unwrite:
  assumes "rw_inv s" "rpc s t = Writing"
  shows "rw_inv (s\<lparr>rw := rwlock_unlock (Some t) (rw s), rpc := (rpc s)(t := RwOut)\<rparr>)" (is "rw_inv ?s")
proof -
  have own: "wowner (rw s) = Some t" using assms by (simp add: rw_inv_def owners_ok_def)
  have q: "queues_ok s" using assms(1) by (simp add: rw_inv_def)
  have same: "{u. rpc ?s u = Reading} = {u. rpc s u = Reading}" using assms(2) by auto
  have single: "rpc s u = Writing \<Longrightarrow> u = t" for u using assms(1) own by (auto simp: rw_inv_def owners_ok_def)
  have nb: "rlock_nb (rwlock_unlock (Some t) (rw s)) = rlock_nb (rw s)" "wowner (rwlock_unlock (Some t) (rw s)) = None"
    using own by (auto simp: rwlock_unlock_def rw_thread_def Let_def split: prod.split)
  then have "readers_ok ?s" "owners_ok ?s" using assms(1) same single
    by (auto simp: rw_inv_def readers_ok_def owners_ok_def)
  moreover have "queues_ok ?s \<and> rw_wakes_ok ?s"
  proof (cases "wwaiters (rw s)")
    case Nil
    then have "rwlock_unlock (Some t) (rw s) = (rw s)\<lparr>wowner := None, wwaiters := [], rwaiters := []\<rparr>"
      using own by (simp add: rwlock_unlock_def rw_thread_def queue_signal_def queue_broadcast_def)
    then show ?thesis by (simp add: queues_ok_def rw_wakes_ok_def)
  next
    case (Cons w ws)
    then have un: "rwlock_unlock (Some t) (rw s) = (rw s)\<lparr>wowner := None, wwaiters := ws\<rparr>"
      using own by (simp add: rwlock_unlock_def rw_thread_def queue_signal_def)
    note w = signalled_writer [OF q Cons, of t]
    have "woken_writer ?s" using w assms(2) un by (auto simp: woken_writer_def)
    then show ?thesis using q Cons un assms(2) by (auto simp: queues_ok_def rw_wakes_ok_def)
  qed
  ultimately show ?thesis by (simp add: rw_inv_def)
qed

lemma rw_inv_unread:
  assumes "rw_inv s" "rpc s t = Reading"
  shows "rw_inv (s\<lparr>rw := rwlock_unlock (Some t) (rw s), rpc := (rpc s)(t := RwOut)\<rparr>)" (is "rw_inv ?s")
proof -
  have q: "queues_ok s" and fin: "finite {u. rpc s u = Reading}"
    and card: "unat (rlock_nb (rw s)) = card {u. rpc s u = Reading}"
    using assms(1) by (simp_all add: rw_inv_def readers_ok_def)
  have pos: "0 < unat (rlock_nb (rw s))" using card fin assms(2) by (auto simp: card_gt_0_iff)
  then have nz: "rlock_nb (rw s) \<noteq> 0" by auto
  then have none: "wowner (rw s) = None" using assms(1) by (auto simp: rw_inv_def readers_ok_def)
  have less: "{u. rpc ?s u = Reading} = {u. rpc s u = Reading} - {t}" by auto
  have "unat (rlock_nb (rw s) - 1) = unat (rlock_nb (rw s)) - 1" using nz by (simp add: unat_minus_one)
  then have cd: "unat (rlock_nb (rw s) - 1) = card {u. rpc ?s u = Reading}"
    using card fin assms(2) unfolding less by simp
  have nb: "rlock_nb (rwlock_unlock (Some t) (rw s)) = rlock_nb (rw s) - 1" "wowner (rwlock_unlock (Some t) (rw s)) = None"
    using none by (auto simp: rwlock_unlock_def Let_def)
  then have "readers_ok ?s" "owners_ok ?s" using assms cd fin less none
    by (auto simp: rw_inv_def readers_ok_def owners_ok_def)
  moreover have "queues_ok ?s \<and> rw_wakes_ok ?s"
  proof (cases "rlock_nb (rw s) - 1 = 0 \<and> wwaiters (rw s) \<noteq> []")
    case False
    then have ws: "wwaiters (rwlock_unlock (Some t) (rw s)) = wwaiters (rw s)" "rwaiters (rwlock_unlock (Some t) (rw s)) = rwaiters (rw s)"
      using none by (auto simp: rwlock_unlock_def Let_def queue_signal_def split: list.split)
    have "woken_writer ?s = woken_writer s" using ws assms(2) by (simp add: woken_writer_same)
    with False nb ws q assms nz none show ?thesis by (auto simp: rw_inv_def queues_ok_def rw_wakes_ok_def)
  next
    case True
    then obtain w ws where ws: "wwaiters (rw s) = w # ws" by (cases "wwaiters (rw s)") auto
    have un: "wwaiters (rwlock_unlock (Some t) (rw s)) = ws" "rwaiters (rwlock_unlock (Some t) (rw s)) = rwaiters (rw s)"
      using none True ws by (auto simp: rwlock_unlock_def Let_def queue_signal_def)
    note w = signalled_writer [OF q ws, of t]
    have "woken_writer ?s" using w assms(2) un by (auto simp: woken_writer_def)
    then show ?thesis using q ws un assms(2) by (auto simp: queues_ok_def rw_wakes_ok_def)
  qed
  ultimately show ?thesis by (simp add: rw_inv_def)
qed

lemma rw_step_inv:
  assumes "rw_inv s" "rwlock_step s s'"
  shows "rw_inv s'"
  using assms(2)
proof cases
  case (rdlock t ok l)
  have t: "t \<notin> set (rwaiters (rw s))" "rpc s t = RwOut \<or> rpc s t = Rwait"
    using rdlock(2) assms(1) by (auto simp: rw_inv_def queues_ok_def)
  show ?thesis
  proof (cases "wowner (rw s) \<noteq> None \<or> wwaiters (rw s) \<noteq> []")
    case True
    with rdlock rw_inv_rsleep [OF assms(1) True t] show ?thesis by (simp add: rwlock_rdlock_def)
  next
    case False
    with rdlock rw_inv_read [OF assms(1) _ _ rdlock(3) t] show ?thesis by (simp add: rwlock_rdlock_def)
  qed
next
  case (tryrdlock t r l)
  have t: "t \<notin> set (rwaiters (rw s))" using tryrdlock(2) assms(1) by (auto simp: rw_inv_def queues_ok_def)
  have "rpc s = (rpc s)(t := RwOut)" using tryrdlock(2) by auto
  then have same: "s\<lparr>rpc := (rpc s)(t := RwOut)\<rparr> = s" by simp
  with tryrdlock rw_inv_read [OF assms(1) _ _ tryrdlock(3) t] assms(1) show ?thesis
    by (auto simp: rwlock_tryrdlock_def split: if_splits)
next
  case (wrlock t ok l)
  have t: "t \<notin> set (wwaiters (rw s))" "rpc s t = RwOut \<or> rpc s t = Wwait"
    using wrlock(2) assms(1) by (auto simp: rw_inv_def queues_ok_def)
  show ?thesis
  proof (cases "wowner (rw s) \<noteq> None \<or> rlock_nb (rw s) \<noteq> 0")
    case True
    with wrlock rw_inv_wsleep [OF assms(1) True t] show ?thesis by (simp add: rwlock_wrlock_def)
  next
    case False
    with wrlock rw_inv_write [OF assms(1) _ _ t] show ?thesis by (simp add: rwlock_wrlock_def rw_thread_def)
  qed
next
  case (tryrwlock t r l)
  have t: "t \<notin> set (wwaiters (rw s))" using tryrwlock(2) assms(1) by (auto simp: rw_inv_def queues_ok_def)
  have "rpc s = (rpc s)(t := RwOut)" using tryrwlock(2) by auto
  then have same: "s\<lparr>rpc := (rpc s)(t := RwOut)\<rparr> = s" by simp
  with tryrwlock rw_inv_write [OF assms(1) _ _ t] assms(1) show ?thesis
    by (auto simp: rwlock_tryrwlock_def rw_thread_def split: if_splits)
next
  case (unlock t)
  then show ?thesis using rw_inv_unread [OF assms(1)] rw_inv_unwrite [OF assms(1)] by auto
next
  case (interrupt_reader t)
  have "owners_ok s'" "readers_ok s'" using assms(1) interrupt_reader(1)
    by (simp_all add: rw_inv_def owners_ok_def readers_ok_def)
  moreover have "woken_writer s' = woken_writer s" using interrupt_reader(1) by (simp add: woken_writer_def)
  then have "rw_wakes_ok s'" using assms(1) interrupt_reader by (auto simp: rw_inv_def rw_wakes_ok_def)
  moreover have "queues_ok s'" using assms(1) interrupt_reader(1) set_remove1_subset [of t "rwaiters (rw s)"]
    by (auto simp: rw_inv_def queues_ok_def)
  ultimately show ?thesis by (simp add: rw_inv_def)
next
  case (interrupt_writer t)
  have "rpc s t = Wwait" "t \<notin> set (remove1 t (wwaiters (rw s)))"
    using assms(1) interrupt_writer(2) by (auto simp: rw_inv_def queues_ok_def)
  then have "woken_writer s'" using interrupt_writer(1) by (auto simp: woken_writer_def)
  then have "rw_wakes_ok s'" by (simp add: rw_wakes_ok_def)
  moreover have "queues_ok s'" using assms(1) interrupt_writer(1) set_remove1_subset [of t "wwaiters (rw s)"]
    by (auto simp: rw_inv_def queues_ok_def)
  moreover have "owners_ok s'" "readers_ok s'" using assms(1) interrupt_writer(1)
    by (simp_all add: rw_inv_def owners_ok_def readers_ok_def)
  ultimately show ?thesis by (simp add: rw_inv_def)
qed

section \<open>What the locks guarantee\<close>

interpretation mutex_reach: invariant_system mutex_start mutex_step mutex_inv
  by unfold_locales (fact mutex_start_inv, fact mutex_step_inv)

interpretation rwlock_reach: invariant_system rw_start rwlock_step rw_inv
  by unfold_locales (fact rw_start_inv, fact rw_step_inv)

lemma mutex_holder_unlocks:
  assumes "mutex_inv s" "mpc s t = Hold n"
  shows "\<exists>m. mutex_unlock (Some t) (mtx s) = Inr m \<and> owner m = (if n = 1 then None else Some t)"
proof -
  have own: "owner (mtx s) = Some t" using mutex_inv_owner [OF assms(1)] assms(2) by blast
  have n: "0 < n" "n < 2 ^ 64" "if recursive (mtx s) then recursive_nb (mtx s) = of_nat n else n = 1"
    using assms unfolding mutex_inv_def counts_ok_def by blast+
  have "of_nat n \<noteq> (0 :: size_t)" "of_nat n - 1 = (0 :: size_t) \<longleftrightarrow> n = 1"
    using n(1,2) unat_of_nat64 [of n] unat_of_nat64 [of 1] by (auto simp: word_unat_eq_iff [of "of_nat n"])
  with own n(3) show ?thesis
    by (auto simp: mutex_unlock_def mutex_signal_def Let_def split: if_splits)
qed

text \<open>
  C1. Mutual exclusion. Whatever calls of \<^verbatim>\<open>mutex_lock\<close>, \<^verbatim>\<open>mutex_spinlock\<close> and \<^verbatim>\<open>mutex_unlock\<close> the threads make on
  a mutex and however they interleave, two threads never hold it at once. The holder is the owner the mutex
  records, its unlock does not panic, and the mutex is free after as many unlocks as it was locked times.
\<close>

theorem mutex_exclusion:
  assumes "mutex_start s" "mutex_step\<^sup>*\<^sup>* s s'" "mpc s' t = Hold n"
  shows "owner (mtx s') = Some t \<and> (\<forall>u k. mpc s' u = Hold k \<longrightarrow> u = t) \<and>
    (\<exists>m. mutex_unlock (Some t) (mtx s') = Inr m \<and> owner m = (if n = 1 then None else Some t))"
  using mutex_reach.reachable [OF assms(1,2)] assms(3) mutex_inv_owner [of s'] mutex_inv_uniq [of s'] mutex_holder_unlocks [of s']
  by blast

definition mutex_demo :: "mutex_sys" where
  "mutex_demo = \<lparr>mtx = mutex_init MUTEX_RECURSIVE, mpc = (\<lambda>_. Out)\<rparr>"

text \<open>Thread 1 locks the mutex twice over and thread 2 goes to sleep at it.\<close>

definition mutex_demo2 :: "mutex_sys" where
  "mutex_demo2 =
     \<lparr>mtx = \<lparr>spinlock = 0, waiters = [2], owner = Some 1, flags = 1, recursive_nb = 2\<rparr>,
      mpc = (\<lambda>_. Out)(1 := Hold (Suc 1), 2 := Wait)\<rparr>"

text \<open>The same once thread 1 has unlocked it once.\<close>

definition mutex_demo3 :: "mutex_sys" where
  "mutex_demo3 = mutex_demo2\<lparr>mtx := (mtx mutex_demo2)\<lparr>recursive_nb := 1\<rparr>, mpc := (mpc mutex_demo2)(1 := Hold 1)\<rparr>"

lemma mutex_demo_start: "mutex_start mutex_demo"
  by (auto simp: mutex_demo_def mutex_start_def)

lemma mutex_demo_steps: "mutex_step\<^sup>*\<^sup>* mutex_demo mutex_demo2"
proof -
  let ?m = "\<lambda>k ws. \<lparr>spinlock = 0, waiters = ws, owner = Some 1, flags = 1, recursive_nb = k\<rparr>"
  let ?a = "\<lparr>mtx = ?m 1 [], mpc = (\<lambda>_. Out)(1 := Hold 1)\<rparr>" and ?b = "\<lparr>mtx = ?m 2 [], mpc = (\<lambda>_. Out)(1 := Hold (Suc 1))\<rparr>"
  have a: "mutex_step mutex_demo ?a"
    using mutex_step.lock [of mutex_demo 1 0 True "?m 1 []"]
    by (simp add: mutex_demo_def mutex_init_def spinlock_init_def MUTEX_RECURSIVE_def mutex_lock_def mutex_acquire_def recursive_def)
  have b: "mutex_step ?a ?b"
    using mutex_step.lock [of ?a 1 1 True "?m 2 []"]
    by (simp add: MUTEX_RECURSIVE_def mutex_lock_def mutex_lock_body_def recursive_def)
  have c: "mutex_step ?b mutex_demo2"
    using mutex_step.lock [of ?b 2 0 False "?m 2 [2]"]
    by (simp add: MUTEX_RECURSIVE_def mutex_lock_def mutex_lock_body_def recursive_def mutex_demo2_def)
  show ?thesis by (rule rtranclp_trans [OF rtranclp.rtrancl_into_rtrancl [OF r_into_rtranclp [of mutex_step, OF a] b] r_into_rtranclp [of mutex_step, OF c]])
qed

lemma mutex_demo_unlocks: "mutex_step\<^sup>*\<^sup>* mutex_demo mutex_demo3"
proof -
  have "mutex_step mutex_demo2 mutex_demo3"
    using mutex_step.unlock [of mutex_demo2 1 1 "(mtx mutex_demo2)\<lparr>recursive_nb := 1\<rparr>"]
    by (simp add: mutex_demo2_def mutex_demo3_def mutex_unlock_def recursive_def MUTEX_RECURSIVE_def)
  with mutex_demo_steps show ?thesis by (rule rtranclp.rtrancl_into_rtrancl)
qed

theorem mutex_exclusion_witness:
  "owner (mtx mutex_demo2) = Some 1 \<and> {u. \<exists>k. mpc mutex_demo2 u = Hold k} = {1} \<and>
    (\<exists>m. mutex_unlock (Some 1) (mtx mutex_demo2) = Inr m \<and> owner m = Some 1)"
proof -
  have one: "mpc mutex_demo2 1 = Hold (Suc 1)" by (simp add: mutex_demo2_def)
  note ex = mutex_exclusion [OF mutex_demo_start mutex_demo_steps one]
  then have "{u. \<exists>k. mpc mutex_demo2 u = Hold k} = {1}" using one by blast
  with ex show ?thesis by simp
qed

text \<open>
  C8. No lost wake-up. While a thread sleeps at a mutex, some thread holds the mutex and its last unlock takes
  the first sleeper off the queue, or a thread that was woken before is about to run and takes the mutex.
\<close>

theorem mutex_wakes:
  assumes "mutex_start s" "mutex_step\<^sup>*\<^sup>* s s'" "waiters (mtx s') = t # ts"
  shows "(\<exists>u n. mpc s' u = Hold n \<and>
      (n = 1 \<longrightarrow> (\<exists>m. mutex_unlock (Some u) (mtx s') = Inr m \<and> waiters m = ts))) \<or>
    (\<exists>u s''. mpc s' u = Wait \<and> u \<notin> set (t # ts) \<and> mutex_step s' s'' \<and> mpc s'' u = Hold 1)"
proof (cases "owner (mtx s')")
  case (Some u)
  note inv = mutex_reach.reachable [OF assms(1,2)]
  obtain n where n: "mpc s' u = Hold n" using mutex_inv_owner [OF inv] Some by blast
  have "waiters m = ts" if "n = 1" "mutex_unlock (Some u) (mtx s') = Inr m" for m
    using that mutex_holder_unlocks [OF inv n] assms(3) Some
    by (auto simp: mutex_unlock_def mutex_signal_def queue_signal_def Let_def split: if_splits)
  with n mutex_holder_unlocks [OF inv n] show ?thesis by blast
next
  case None
  note inv = mutex_reach.reachable [OF assms(1,2)]
  have "wakes_ok s'" using inv by (simp add: mutex_inv_def)
  then obtain u where u: "mpc s' u = Wait" "u \<notin> set (t # ts)" using None assms(3) unfolding wakes_ok_def by auto
  obtain m where m: "mutex_lock_woken (Some u) (mtx s') = Inr (True, m)" using None by (simp add: mutex_lock_woken_def Let_def)
  have "spinlock (mtx s') = 0" using inv by (simp add: mutex_inv_def holds_ok_def)
  with u m assms(3) have "mutex_step s' (s'\<lparr>mtx := m, mpc := (mpc s')(u := if True then Hold 1 else Wait)\<rparr>)"
    by (intro mutex_step.woken) simp_all
  moreover have "mpc (s'\<lparr>mtx := m, mpc := (mpc s')(u := if True then Hold 1 else Wait)\<rparr>) u = Hold 1" by simp
  ultimately have "\<exists>s''. mutex_step s' s'' \<and> mpc s'' u = Hold 1" by blast
  with u show ?thesis by blast
qed

theorem mutex_wakes_witness:
  "waiters (mtx mutex_demo3) = [2] \<and> (\<exists>m. mutex_unlock (Some 1) (mtx mutex_demo3) = Inr m \<and> waiters m = [])"
proof -
  have w: "waiters (mtx mutex_demo3) = [2]" by (simp add: mutex_demo3_def mutex_demo2_def)
  have "mpc mutex_demo3 u = Hold n \<Longrightarrow> u = 1 \<and> n = 1" "mpc mutex_demo3 u = Wait \<Longrightarrow> u = 2" for u n
    by (auto simp: mutex_demo3_def mutex_demo2_def split: if_splits)
  with mutex_wakes [OF mutex_demo_start mutex_demo_unlocks w] w show ?thesis by fastforce
qed

text \<open>
  C33. \<^verbatim>\<open>mutex_trylock\<close> has the test of its spin lock the wrong way round. At a mutex nobody uses it answers that
  it failed and leaves the spin lock taken, so that no later attempt at the mutex gets past the spin lock. While
  another processor is inside the spin lock it goes on as if it had it, takes the mutex if it is free and
  releases the other processor's spin lock.
\<close>

theorem mutex_trylock_inverted:
  "mutex_trylock cur (mutex_init f) = Inr (1, (mutex_init f)\<lparr>spinlock := 1\<rparr>) \<and>
   spinlock_lock (replicate n (spinlock ((mutex_init f)\<lparr>spinlock := 1\<rparr>))) = None \<and>
   mutex_trylock (Some t) ((mutex_init f)\<lparr>spinlock := 1\<rparr>) = Inr (0, mutex_acquire (Some t) (mutex_init f))"
proof -
  have "spinlock_lock (replicate n 1) = None" by (induction n) (simp_all add: spinlock_trylock_def)
  then show ?thesis
    by (simp add: mutex_trylock_def mutex_init_def spinlock_init_def spinlock_trylock_def spinlock_unlock_def mutex_acquire_def
        recursive_def Let_def)
qed

text \<open>
  C6. Readers and writers exclude each other. However the calls on a read-write lock interleave, a thread that
  writes is the only one that has the lock, the lock counts the threads that read exactly, and it records the
  one that writes.
\<close>

theorem rwlock_exclusion:
  assumes "rw_start s" "rwlock_step\<^sup>*\<^sup>* s s'"
  shows "(\<forall>t. rpc s' t = Writing \<longrightarrow> (\<forall>u. rpc s' u = Reading \<or> rpc s' u = Writing \<longrightarrow> u = t)) \<and>
    unat (rlock_nb (rw s')) = card {t. rpc s' t = Reading} \<and> (\<forall>t. wowner (rw s') = Some t \<longleftrightarrow> rpc s' t = Writing)"
proof -
  have inv: "owners_ok s'" "readers_ok s'" using rwlock_reach.reachable [OF assms] by (simp_all add: rw_inv_def)
  have own: "wowner (rw s') = Some t \<longleftrightarrow> rpc s' t = Writing" for t using inv(1) by (simp add: owners_ok_def)
  have rd: "finite {t. rpc s' t = Reading}" "unat (rlock_nb (rw s')) = card {t. rpc s' t = Reading}"
    using inv(2) by (simp_all add: readers_ok_def)
  have "u = t" if "rpc s' t = Writing" "rpc s' u = Reading \<or> rpc s' u = Writing" for t u
  proof -
    have "card {v. rpc s' v = Reading} = 0" using inv(2) own [of t] that(1) rd(2) by (simp add: readers_ok_def)
    then have "rpc s' u = Writing" using rd(1) that(2) by auto
    with own [of u] own [of t] that(1) show ?thesis by simp
  qed
  with own rd(2) show ?thesis by blast
qed

definition rw_demo :: rw_sys where
  "rw_demo = \<lparr>rw = rwlock_init, rpc = (\<lambda>_. RwOut)\<rparr>"

text \<open>Thread 1 writes, thread 2 sleeps to read.\<close>

definition rw_demo2 :: rw_sys where
  "rw_demo2 = \<lparr>rw = rwlock_init\<lparr>wowner := Some 1, rwaiters := [2]\<rparr>, rpc = (\<lambda>_. RwOut)(1 := Writing, 2 := Rwait)\<rparr>"

lemma rw_demo_start: "rw_start rw_demo"
  by (simp add: rw_demo_def rw_start_def)

lemma rw_demo_steps: "rwlock_step\<^sup>*\<^sup>* rw_demo rw_demo2"
proof -
  let ?l = "rwlock_init\<lparr>wowner := Some 1\<rparr>"
  let ?a = "\<lparr>rw = ?l, rpc = (\<lambda>_. RwOut)(1 := Writing)\<rparr>"
  have a: "rwlock_step rw_demo ?a"
    using rwlock_step.wrlock [of rw_demo 1 True ?l] by (simp add: rw_demo_def rwlock_init_def rwlock_wrlock_def rw_thread_def)
  have b: "rwlock_step ?a rw_demo2"
    using rwlock_step.rdlock [of ?a 2 False "?l\<lparr>rwaiters := [2]\<rparr>"]
    by (simp add: rw_demo2_def rwlock_init_def rwlock_rdlock_def)
  show ?thesis by (rule rtranclp.rtrancl_into_rtrancl [OF r_into_rtranclp [of rwlock_step, OF a] b])
qed

theorem rwlock_exclusion_witness:
  "rpc rw_demo2 1 = Writing \<and> {u. rpc rw_demo2 u = Reading \<or> rpc rw_demo2 u = Writing} = {1} \<and>
    unat (rlock_nb (rw rw_demo2)) = card {t. rpc rw_demo2 t = Reading} \<and> wowner (rw rw_demo2) = Some 1"
proof -
  have one: "rpc rw_demo2 1 = Writing" by (simp add: rw_demo2_def)
  note ex = rwlock_exclusion [OF rw_demo_start rw_demo_steps]
  then have "{u. rpc rw_demo2 u = Reading \<or> rpc rw_demo2 u = Writing} = {1}" using one by blast
  with ex one show ?thesis by blast
qed

text \<open>
  C9. No lost wake-up at a read-write lock. While a thread sleeps to read or to write, some thread has the lock,
  or a writer that was woken is about to run and gets it.
\<close>

theorem rwlock_wakes:
  assumes "rw_start s" "rwlock_step\<^sup>*\<^sup>* s s'" "t \<in> set (rwaiters (rw s')) \<union> set (wwaiters (rw s'))"
  shows "(\<exists>u. rpc s' u = Reading \<or> rpc s' u = Writing) \<or>
    (\<exists>u s''. rpc s' u = Wwait \<and> u \<notin> set (wwaiters (rw s')) \<and> rwlock_step s' s'' \<and> rpc s'' u = Writing)"
proof (cases "wowner (rw s') = None \<and> rlock_nb (rw s') = 0")
  case False
  have inv: "owners_ok s'" "readers_ok s'" using rwlock_reach.reachable [OF assms(1,2)] by (simp_all add: rw_inv_def)
  have "rlock_nb (rw s') \<noteq> 0 \<Longrightarrow> {u. rpc s' u = Reading} \<noteq> {}" using inv(2)
    by (auto simp: readers_ok_def word_unat_eq_iff card_gt_0_iff)
  moreover have "wowner (rw s') = Some u \<Longrightarrow> rpc s' u = Writing" for u using inv(1) unfolding owners_ok_def by blast
  ultimately show ?thesis using False by auto
next
  case True
  have "rw_wakes_ok s'" using rwlock_reach.reachable [OF assms(1,2)] by (simp add: rw_inv_def)
  then have "woken_writer s'" using True assms(3) by (auto simp: rw_wakes_ok_def)
  then obtain u where u: "rpc s' u = Wwait" "u \<notin> set (wwaiters (rw s'))" by (auto simp: woken_writer_def)
  have "rwlock_wrlock (Some u) (rw s') = Inr (True, (rw s')\<lparr>wowner := Some u\<rparr>)"
    using True by (simp add: rwlock_wrlock_def rw_thread_def)
  from rwlock_step.wrlock [OF _ this] u
  have "rwlock_step s' (s'\<lparr>rw := (rw s')\<lparr>wowner := Some u\<rparr>, rpc := (rpc s')(u := Writing)\<rparr>)" by simp
  moreover have "rpc (s'\<lparr>rw := (rw s')\<lparr>wowner := Some u\<rparr>, rpc := (rpc s')(u := Writing)\<rparr>) u = Writing" by simp
  ultimately have "\<exists>s''. rwlock_step s' s'' \<and> rpc s'' u = Writing" by blast
  with u show ?thesis by blast
qed

theorem rwlock_wakes_witness:
  "2 \<in> set (rwaiters (rw rw_demo2)) \<and> (\<exists>u. rpc rw_demo2 u = Reading \<or> rpc rw_demo2 u = Writing)"
proof -
  have w: "2 \<in> set (rwaiters (rw rw_demo2))" by (simp add: rw_demo2_def)
  have "rpc rw_demo2 u \<noteq> Wwait" for u by (simp add: rw_demo2_def)
  with rwlock_wakes [OF rw_demo_start rw_demo_steps, of 2] w show ?thesis by blast
qed

end
