(* ===== verification/Zring.thy ===== *)
theory Zring
  imports Ringbuf
begin

text \<open>
  The byte ring and the bit stream of the compression library (lib/libz/src/ringbuf.h, lib/libz/src/bitstream.h). The ring is the
  kernel's structure with sizes that are powers of two, so that positions wrap with a mask instead of a
  division; its operations are shown to be the kernel ring's. A bit stream reads or writes its ring's bytes least
  significant bit first.
\<close>

section \<open>The ring\<close>

definition z_ringbuf_init :: "u8 list \<Rightarrow> size_t \<Rightarrow> ringbuf" where
  "z_ringbuf_init d sz = \<lparr>data = Some d, rb_size = sz, read_pos = 0, write_pos = 0\<rparr>"

definition z_ringbuf_write_size :: "ringbuf \<Rightarrow> size_t" where
  "z_ringbuf_write_size rb =
     (if write_pos rb < read_pos rb then read_pos rb - write_pos rb - 1
      else rb_size rb - 1 - write_pos rb + read_pos rb)"

definition z_ringbuf_contiguous_write_size :: "ringbuf \<Rightarrow> size_t" where
  "z_ringbuf_contiguous_write_size rb =
     (if write_pos rb < read_pos rb then read_pos rb - write_pos rb - 1
      else if read_pos rb = 0 then rb_size rb - write_pos rb - 1
      else rb_size rb - write_pos rb)"

definition z_ringbuf_next_write_pos :: "ringbuf \<Rightarrow> size_t \<Rightarrow> size_t" where
  "z_ringbuf_next_write_pos rb n = (write_pos rb + n) AND (rb_size rb - 1)"

text \<open>The memory behind a pointer into the ring: a byte, and a block that starts there.\<close>

definition ring_at :: "ringbuf \<Rightarrow> size_t \<Rightarrow> u8" where
  "ring_at rb i = the (data rb) ! unat i"

definition ring_put :: "ringbuf \<Rightarrow> size_t \<Rightarrow> u8 list \<Rightarrow> ringbuf" where
  "ring_put rb i bs = rb\<lparr>data := map_option (\<lambda>d. block_write d (unat i) bs) (data rb)\<rparr>"

definition z_ringbuf_advance_write :: "ringbuf \<Rightarrow> size_t \<Rightarrow> ringbuf" where
  "z_ringbuf_advance_write rb n = rb\<lparr>write_pos := z_ringbuf_next_write_pos rb n\<rparr>"

definition z_ringbuf_write_byte :: "ringbuf \<Rightarrow> u8 \<Rightarrow> ringbuf" where
  "z_ringbuf_write_byte rb v =
     (let ptr = write_pos rb; rb = z_ringbuf_advance_write rb 1 in ring_put rb ptr [v])"

text \<open>\<^verbatim>\<open>ringbuf_write\<close>: \<open>None\<close> for a null pointer, which writes zeroes.\<close>

function z_ringbuf_write_loop :: "ringbuf \<Rightarrow> u8 list option \<Rightarrow> size_t \<Rightarrow> size_t \<Rightarrow> size_t \<times> ringbuf" where
  "z_ringbuf_write_loop rb src n wr =
     (if n = 0 then (wr, rb)
      else let available = z_ringbuf_contiguous_write_size rb
           in if available = 0 then (wr, rb)
              else let available = clip n available;
                       rb = ring_put rb (write_pos rb)
                         (case src of
                            Some bs \<Rightarrow> take (unat available) (drop (unat wr) bs)
                          | None \<Rightarrow> replicate (unat available) 0)
                   in z_ringbuf_write_loop (z_ringbuf_advance_write rb available) src (n - available)
                        (wr + available))"
  by pat_completeness auto
termination
  by (relation "measure (\<lambda>(rb, src, n, wr). unat n)") (auto intro: clip_progress)

definition z_ringbuf_write :: "ringbuf \<Rightarrow> u8 list option \<Rightarrow> size_t \<Rightarrow> size_t \<times> ringbuf" where
  "z_ringbuf_write rb src n = z_ringbuf_write_loop rb src n 0"

definition z_ringbuf_read_size :: "ringbuf \<Rightarrow> size_t" where
  "z_ringbuf_read_size rb =
     (if read_pos rb \<le> write_pos rb then write_pos rb - read_pos rb
      else rb_size rb - read_pos rb + write_pos rb)"

definition z_ringbuf_contiguous_read_size :: "ringbuf \<Rightarrow> size_t" where
  "z_ringbuf_contiguous_read_size rb =
     (if read_pos rb \<le> write_pos rb then write_pos rb - read_pos rb
      else rb_size rb - read_pos rb)"

definition z_ringbuf_next_read_pos :: "ringbuf \<Rightarrow> size_t \<Rightarrow> size_t" where
  "z_ringbuf_next_read_pos rb n = (read_pos rb + n) AND (rb_size rb - 1)"

definition z_ringbuf_advance_read :: "ringbuf \<Rightarrow> size_t \<Rightarrow> ringbuf" where
  "z_ringbuf_advance_read rb n = rb\<lparr>read_pos := z_ringbuf_next_read_pos rb n\<rparr>"

definition z_ringbuf_read_byte :: "ringbuf \<Rightarrow> u8 \<times> ringbuf" where
  "z_ringbuf_read_byte rb =
     (let ptr = read_pos rb; rb = z_ringbuf_advance_read rb 1 in (ring_at rb ptr, rb))"

text \<open>\<^verbatim>\<open>ringbuf_read\<close>: the count, the bytes it reads, and the ring.\<close>

function z_ringbuf_read_loop :: "ringbuf \<Rightarrow> size_t \<Rightarrow> size_t \<Rightarrow> u8 list \<Rightarrow> size_t \<times> u8 list \<times> ringbuf" where
  "z_ringbuf_read_loop rb n rd acc =
     (if n = 0 then (rd, acc, rb)
      else let available = z_ringbuf_contiguous_read_size rb
           in if available = 0 then (rd, acc, rb)
              else let available = clip n available
                   in z_ringbuf_read_loop (z_ringbuf_advance_read rb available) (n - available)
                        (rd + available) (acc @ block_read (the (data rb)) (unat (read_pos rb)) (unat available)))"
  by pat_completeness auto
termination
  by (relation "measure (\<lambda>(rb, n, rd, acc). unat n)") (auto intro: clip_progress)

definition z_ringbuf_read :: "ringbuf \<Rightarrow> size_t \<Rightarrow> size_t \<times> u8 list \<times> ringbuf" where
  "z_ringbuf_read rb n = z_ringbuf_read_loop rb n 0 []"

declare z_ringbuf_write_loop.simps [simp del] z_ringbuf_read_loop.simps [simp del]

section \<open>The bit stream\<close>

text \<open>The ring is the one the \<^verbatim>\<open>ringbuf\<close> pointer names.\<close>

record bitstream =
  bs_ring :: ringbuf
  bs_pos :: size_t

definition bitstream_avail_read :: "bitstream \<Rightarrow> size_t" where
  "bitstream_avail_read bs = z_ringbuf_read_size (bs_ring bs) * 8 - bs_pos bs"

definition bitstream_avail_write :: "bitstream \<Rightarrow> size_t" where
  "bitstream_avail_write bs = z_ringbuf_write_size (bs_ring bs) * 8 - bs_pos bs"

definition bitstream_getbit :: "bitstream \<Rightarrow> size_t \<Rightarrow> u8" where
  "bitstream_getbit bs p =
     (let off = bs_pos bs + p
      in drop_bit (unat (off mod 8)) (ring_at (bs_ring bs) (z_ringbuf_next_read_pos (bs_ring bs) (off div 8))) AND 1)"

definition bitstream_putbit :: "bitstream \<Rightarrow> size_t \<Rightarrow> u8 \<Rightarrow> bitstream" where
  "bitstream_putbit bs p b =
     (let off = bs_pos bs + p;
          dst = z_ringbuf_next_write_pos (bs_ring bs) (off div 8);
          v = (if off mod 8 = 0 then 0 else ring_at (bs_ring bs) dst)
      in bs\<lparr>bs_ring := ring_put (bs_ring bs) dst [v OR push_bit (unat (off mod 8)) (b AND 1)]\<rparr>)"

definition bitstream_has_read :: "bitstream \<Rightarrow> size_t \<Rightarrow> bool" where
  "bitstream_has_read bs n = (n \<le> bitstream_avail_read bs)"

definition bitstream_has_write :: "bitstream \<Rightarrow> size_t \<Rightarrow> bool" where
  "bitstream_has_write bs n = (n \<le> bitstream_avail_write bs)"

definition bitstream_peek :: "bitstream \<Rightarrow> size_t \<Rightarrow> u32" where
  "bitstream_peek bs n =
     foldl (\<lambda>v i. v OR push_bit i (ucast (bitstream_getbit bs (of_nat i)))) 0 [0..<unat n]"

definition bitstream_skip :: "bitstream \<Rightarrow> size_t \<Rightarrow> bitstream" where
  "bitstream_skip bs n =
     (let nxt = bs_pos bs + n
      in bs\<lparr>bs_pos := nxt mod 8, bs_ring := z_ringbuf_advance_read (bs_ring bs) (nxt div 8)\<rparr>)"

definition bitstream_read :: "bitstream \<Rightarrow> size_t \<Rightarrow> u32 \<times> bitstream" where
  "bitstream_read bs n = (bitstream_peek bs n, bitstream_skip bs n)"

definition bitstream_write :: "bitstream \<Rightarrow> u32 \<Rightarrow> size_t \<Rightarrow> bitstream" where
  "bitstream_write bs v n =
     (let bs = foldl (\<lambda>bs i. bitstream_putbit bs (of_nat i) (ucast (drop_bit i v))) bs [0..<unat n];
          nxt = bs_pos bs + n
      in bs\<lparr>bs_ring := z_ringbuf_advance_write (bs_ring bs) (nxt div 8), bs_pos := nxt mod 8\<rparr>)"

section \<open>The ring is the kernel's\<close>

definition pow2_size :: "ringbuf \<Rightarrow> bool" where
  "pow2_size rb \<longleftrightarrow> (\<exists>k < 60. rb_size rb = 2 ^ k)"

lemma pow2_sizeE:
  assumes "pow2_size rb"
  obtains k where "k < 60" "rb_size rb = 2 ^ k" "unat (rb_size rb) = 2 ^ k"
proof -
  from assms obtain k where k: "k < 60" "rb_size rb = 2 ^ k" by (auto simp: pow2_size_def)
  have "(2 :: nat) ^ k < 2 ^ 64" using k(1) by (intro power_strict_increasing) simp_all
  then have "unat (2 ^ k :: size_t) = 2 ^ k" using unat_of_nat64 [of "2 ^ k"] by simp
  with k show ?thesis by (intro that) simp_all
qed

lemma and_size_mod:
  assumes "pow2_size rb"
  shows "x AND (rb_size rb - 1) = x mod rb_size rb"
proof -
  from assms obtain k where k: "k < 60" "rb_size rb = 2 ^ k" by (rule pow2_sizeE)
  have "rb_size rb - 1 = mask k" using k by (simp add: mask_eq_exp_minus_1)
  then show ?thesis by (simp add: k(2) take_bit_eq_mod flip: take_bit_eq_mask)
qed

lemma unat_ring_pos:
  assumes "pow2_size rb"
  shows "unat ((x + y) AND (rb_size rb - 1)) = (unat x + unat y) mod unat (rb_size rb)"
proof -
  from assms obtain k where k: "k < 60" "rb_size rb = 2 ^ k" "unat (rb_size rb) = 2 ^ k" by (rule pow2_sizeE)
  have "(2 :: nat) ^ k dvd 2 ^ 64" using k(1) by (intro le_imp_power_dvd) simp
  then have "(unat x + unat y) mod 2 ^ 64 mod 2 ^ k = (unat x + unat y) mod 2 ^ k" by (rule mod_mod_cancel)
  then show ?thesis unfolding and_size_mod [OF assms] unat_mod k(3) unat_word_ariths(1) by simp
qed

lemma z_sizes_kernel:
  "z_ringbuf_write_size = ringbuf_write_size" "z_ringbuf_contiguous_write_size = ringbuf_contiguous_write_size"
  "z_ringbuf_read_size = ringbuf_read_size" "z_ringbuf_contiguous_read_size = ringbuf_contiguous_read_size"
  by (simp_all add: fun_eq_iff z_ringbuf_write_size_def z_ringbuf_contiguous_write_size_def z_ringbuf_read_size_def
      z_ringbuf_contiguous_read_size_def ringbuf_write_size_def ringbuf_contiguous_write_size_def ringbuf_read_size_def
      ringbuf_contiguous_read_size_def)

lemma z_advance_kernel:
  assumes "pow2_size rb"
  shows "z_ringbuf_advance_write rb n = ringbuf_advance_write rb n" "z_ringbuf_advance_read rb n = ringbuf_advance_read rb n"
  using and_size_mod [OF assms]
  by (simp_all add: z_ringbuf_advance_write_def z_ringbuf_advance_read_def ringbuf_advance_write_def ringbuf_advance_read_def
      z_ringbuf_next_write_pos_def z_ringbuf_next_read_pos_def)

lemma pow2_size_upd [simp]:
  "pow2_size (rb\<lparr>data := d\<rparr>) = pow2_size rb" "pow2_size (rb\<lparr>write_pos := p\<rparr>) = pow2_size rb"
  "pow2_size (rb\<lparr>read_pos := p\<rparr>) = pow2_size rb"
  by (simp_all add: pow2_size_def)

lemma z_write_kernel:
  assumes "pow2_size rb"
  shows "z_ringbuf_write_loop rb (Some src) n wr = ringbuf_write_loop rb src n wr"
  using assms
proof (induction rb src n wr rule: ringbuf_write_loop.induct)
  case (1 rb src n wr)
  show ?case
  proof (cases "n = 0 \<or> ringbuf_contiguous_write_size rb = 0")
    case True
    then show ?thesis
      by (auto simp: z_ringbuf_write_loop.simps [of rb] ringbuf_write_loop.simps [of rb] z_sizes_kernel Let_def)
  next
    case False
    let ?k = "clip n (ringbuf_contiguous_write_size rb)"
    let ?rb = "ringbuf_poke rb (take (unat ?k) (drop (unat wr) src))"
    have p: "pow2_size ?rb" using "1.prems" by (simp add: ringbuf_poke_def)
    have put: "ring_put rb (write_pos rb) bs = ringbuf_poke rb bs" for bs by (simp add: ring_put_def ringbuf_poke_def)
    have "pow2_size (ringbuf_advance_write ?rb ?k)" using p by (simp add: ringbuf_advance_write_def)
    with False "1.IH" [OF _ refl _ refl refl] have
      "z_ringbuf_write_loop (ringbuf_advance_write ?rb ?k) (Some src) (n - ?k) (wr + ?k) =
       ringbuf_write_loop (ringbuf_advance_write ?rb ?k) src (n - ?k) (wr + ?k)" by simp
    with False show ?thesis
      by (simp add: z_ringbuf_write_loop.simps [of rb] ringbuf_write_loop.simps [of rb] z_sizes_kernel Let_def put
          z_advance_kernel [OF p])
  qed
qed

lemma z_read_kernel:
  assumes "pow2_size rb" "data rb \<noteq> None"
  shows "z_ringbuf_read_loop rb n rd acc = ringbuf_read_loop rb n rd acc"
  using assms
proof (induction rb n rd acc rule: ringbuf_read_loop.induct)
  case (1 rb n rd acc)
  show ?case
  proof (cases "n = 0 \<or> ringbuf_contiguous_read_size rb = 0")
    case True
    then show ?thesis
      by (auto simp: z_ringbuf_read_loop.simps [of rb] ringbuf_read_loop.simps [of rb] z_sizes_kernel Let_def)
  next
    case False
    let ?k = "clip n (ringbuf_contiguous_read_size rb)"
    have pull: "ringbuf_pull rb ?k = block_read (the (data rb)) (unat (read_pos rb)) (unat ?k)"
      using "1.prems"(2) by (auto simp: ringbuf_pull_def)
    have "pow2_size (ringbuf_advance_read rb ?k)" "data (ringbuf_advance_read rb ?k) \<noteq> None"
      using "1.prems" by (simp_all add: ringbuf_advance_read_def)
    with False "1.IH" [OF _ refl _ refl] have
      "z_ringbuf_read_loop (ringbuf_advance_read rb ?k) (n - ?k) (rd + ?k) (acc @ ringbuf_pull rb ?k) =
       ringbuf_read_loop (ringbuf_advance_read rb ?k) (n - ?k) (rd + ?k) (acc @ ringbuf_pull rb ?k)" by simp
    with False show ?thesis
      by (simp add: z_ringbuf_read_loop.simps [of rb] ringbuf_read_loop.simps [of rb] z_sizes_kernel Let_def pull
          z_advance_kernel [OF "1.prems"(1)])
  qed
qed

section \<open>The bytes a ring holds, by index\<close>

definition zring_ok :: "ringbuf \<Rightarrow> bool" where
  "zring_ok rb \<longleftrightarrow> ringbuf_wf rb \<and> pow2_size rb"

text \<open>The byte of the array that is \<open>i\<close> places behind the read or the write position.\<close>

definition behind_read :: "ringbuf \<Rightarrow> nat \<Rightarrow> nat" where
  "behind_read rb i = (unat (read_pos rb) + i) mod unat (rb_size rb)"

definition behind_write :: "ringbuf \<Rightarrow> nat \<Rightarrow> nat" where
  "behind_write rb i = (unat (write_pos rb) + i) mod unat (rb_size rb)"

lemma wrap_mod: "a < s + s \<Longrightarrow> a mod s = (if a < s then a else a - s)" for a s :: nat
  by (simp add: le_mod_geq)

lemma contents_index:
  assumes "ringbuf_wf rb"
  shows "contents rb = map (\<lambda>i. the (data rb) ! behind_read rb i) [0..<length (contents rb)]"
proof -
  obtain d where d: "data rb = Some d" "unat (rb_size rb) \<le> length d"
    "unat (read_pos rb) < unat (rb_size rb)" "unat (write_pos rb) < unat (rb_size rb)"
    using assms by (rule ringbuf_wfE)
  let ?r = "unat (read_pos rb)" and ?w = "unat (write_pos rb)" and ?s = "unat (rb_size rb)"
  show ?thesis
  proof (rule nth_equalityI)
    fix i assume i: "i < length (contents rb)"
    show "contents rb ! i = map (\<lambda>i. the (data rb) ! behind_read rb i) [0..<length (contents rb)] ! i"
    proof (cases "?r \<le> ?w \<or> i < ?s - ?r")
      case True
      then have "?r + i < ?s" using i d(3,4) by (auto simp: length_contents [OF assms] split: if_splits)
      then show ?thesis using True i d by (auto simp: contents_def behind_read_def Let_def nth_append)
    next
      case False
      then have "i < ?s - ?r + ?w" "\<not> ?r + i < ?s" using i d(3) by (auto simp: length_contents [OF assms])
      then have "(?r + i) mod ?s = ?r + i - ?s" using d(3,4) by (subst wrap_mod) simp_all
      then show ?thesis using False i d by (auto simp: contents_def behind_read_def Let_def nth_append add.commute)
    qed
  qed simp
qed

lemma contents_nth:
  assumes "ringbuf_wf rb" "i < length (contents rb)"
  shows "contents rb ! i = the (data rb) ! behind_read rb i"
  using arg_cong [OF contents_index [OF assms(1)], of "\<lambda>xs. xs ! i"] assms(2) by simp

lemma write_behind_contents:
  assumes "ringbuf_wf rb"
  shows "behind_read rb (length (contents rb) + i) = behind_write rb i"
    and "unat (write_pos rb) = behind_read rb (length (contents rb))"
proof -
  show w: "unat (write_pos rb) = behind_read rb (length (contents rb))"
    using assms by (auto elim!: ringbuf_wfE simp: behind_read_def length_contents [OF assms])
  show "behind_read rb (length (contents rb) + i) = behind_write rb i"
    unfolding behind_write_def w by (simp add: behind_read_def mod_add_left_eq add.assoc)
qed

lemma advance_read_contents:
  assumes "zring_ok rb" "n \<le> length (contents rb)"
  shows "zring_ok (z_ringbuf_advance_read rb (of_nat n)) \<and>
    contents (z_ringbuf_advance_read rb (of_nat n)) = drop n (contents rb) \<and>
    rb_size (z_ringbuf_advance_read rb (of_nat n)) = rb_size rb"
proof -
  let ?rb = "z_ringbuf_advance_read rb (of_nat n)" and ?s = "unat (rb_size rb)" and ?r = "unat (read_pos rb)"
  have wf: "ringbuf_wf rb" and p: "pow2_size rb" using assms(1) by (simp_all add: zring_ok_def)
  have n: "n < ?s" using contents_bound [OF wf] assms(2) by simp
  then have un: "unat (of_nat n :: size_t) = n" using unat_lt64 [of "rb_size rb"] by (intro unat_of_nat64) simp
  have r: "unat (read_pos ?rb) = (?r + n) mod ?s"
    using unat_ring_pos [OF p, of "read_pos rb" "of_nat n"] un
    by (simp add: z_ringbuf_advance_read_def z_ringbuf_next_read_pos_def)
  have same: "rb_size ?rb = rb_size rb" "write_pos ?rb = write_pos rb" "data ?rb = data rb"
    by (simp_all add: z_ringbuf_advance_read_def)
  have wf': "ringbuf_wf ?rb" using wf r same n
    by (auto simp: ringbuf_wf_def word_less_nat_alt)
  have b: "behind_read ?rb i = behind_read rb (n + i)" for i
    by (simp add: behind_read_def r same mod_add_left_eq add.assoc)
  have "?r < ?s" "unat (write_pos rb) < ?s" using wf by (auto elim: ringbuf_wfE)
  then have "length (contents ?rb) = length (contents rb) - n"
    using assms(2) n by (auto simp: length_contents [OF wf'] length_contents [OF wf] r same wrap_mod split: if_splits)
  then have "contents ?rb = drop n (contents rb)"
    using contents_nth [OF wf'] contents_nth [OF wf] b same by (intro nth_equalityI) simp_all
  with wf' p same show ?thesis by (simp add: zring_ok_def pow2_size_def)
qed

lemma advance_write_contents:
  assumes "zring_ok rb" "n \<le> room rb"
  shows "zring_ok (z_ringbuf_advance_write rb (of_nat n)) \<and>
    contents (z_ringbuf_advance_write rb (of_nat n)) =
      contents rb @ map (\<lambda>i. the (data rb) ! behind_write rb i) [0..<n] \<and>
    rb_size (z_ringbuf_advance_write rb (of_nat n)) = rb_size rb"
proof -
  let ?rb = "z_ringbuf_advance_write rb (of_nat n)" and ?s = "unat (rb_size rb)" and ?w = "unat (write_pos rb)"
  have wf: "ringbuf_wf rb" and p: "pow2_size rb" using assms(1) by (simp_all add: zring_ok_def)
  have n: "length (contents rb) + n < ?s" using contents_bound [OF wf] assms(2) by (simp add: room_def)
  then have un: "unat (of_nat n :: size_t) = n" using unat_lt64 [of "rb_size rb"] by (intro unat_of_nat64) simp
  have w: "unat (write_pos ?rb) = (?w + n) mod ?s"
    using unat_ring_pos [OF p, of "write_pos rb" "of_nat n"] un
    by (simp add: z_ringbuf_advance_write_def z_ringbuf_next_write_pos_def)
  have same: "rb_size ?rb = rb_size rb" "read_pos ?rb = read_pos rb" "data ?rb = data rb"
    by (simp_all add: z_ringbuf_advance_write_def)
  have wf': "ringbuf_wf ?rb" using wf w same n
    by (auto simp: ringbuf_wf_def word_less_nat_alt)
  have b: "behind_read ?rb = behind_read rb" by (simp add: behind_read_def fun_eq_iff same)
  have "unat (read_pos rb) < ?s" "?w < ?s" using wf by (auto elim: ringbuf_wfE)
  then have len: "length (contents ?rb) = length (contents rb) + n"
    using n by (auto simp: length_contents [OF wf'] length_contents [OF wf] w same wrap_mod split: if_splits)
  have "contents ?rb = contents rb @ map (\<lambda>i. the (data rb) ! behind_write rb i) [0..<n]"
  proof (rule nth_equalityI)
    fix i assume "i < length (contents ?rb)"
    then have "contents ?rb ! i = the (data rb) ! behind_read rb i" using contents_nth [OF wf'] b same by simp
    with \<open>i < length (contents ?rb)\<close> show "contents ?rb ! i = (contents rb @ map (\<lambda>i. the (data rb) ! behind_write rb i) [0..<n]) ! i"
      using contents_nth [OF wf] write_behind_contents(1) [OF wf, of "i - length (contents rb)"] len
      by (cases "i < length (contents rb)") (auto simp: nth_append)
  qed (simp add: len)
  with wf' p same show ?thesis by (simp add: zring_ok_def pow2_size_def)
qed

lemma ring_at_read:
  assumes "zring_ok rb" "n < length (contents rb)"
  shows "ring_at rb (z_ringbuf_next_read_pos rb (of_nat n)) = contents rb ! n"
proof -
  have wf: "ringbuf_wf rb" and p: "pow2_size rb" using assms(1) by (simp_all add: zring_ok_def)
  have "n < 2 ^ 64" using contents_bound [OF wf] assms(2) unat_lt64 [of "rb_size rb"] by simp
  then show ?thesis using contents_nth [OF wf assms(2)] unat_ring_pos [OF p, of "read_pos rb" "of_nat n"]
    by (simp add: ring_at_def z_ringbuf_next_read_pos_def behind_read_def unat_of_nat64)
qed

section \<open>Reading bits\<close>

definition byte_bits :: "u8 \<Rightarrow> bool list" where
  "byte_bits b = map (bit b) [0..<8]"

definition bits_of :: "u8 list \<Rightarrow> bool list" where
  "bits_of bs = concat (map byte_bits bs)"

lemma length_bits_of [simp]: "length (bits_of bs) = 8 * length bs"
  by (induction bs) (simp_all add: bits_of_def byte_bits_def)

lemma bits_of_simps [simp]: "bits_of [] = []" "bits_of (b # bs) = byte_bits b @ bits_of bs"
  "bits_of (xs @ ys) = bits_of xs @ bits_of ys" "length (byte_bits b) = 8"
  by (simp_all add: bits_of_def byte_bits_def)

lemma bits_of_nth: "i < 8 * length bs \<Longrightarrow> bits_of bs ! i = bit (bs ! (i div 8)) (i mod 8)"
proof (induction bs arbitrary: i)
  case (Cons b bs)
  show ?case
  proof (cases "i < 8")
    case True
    then show ?thesis by (simp add: nth_append byte_bits_def)
  next
    case False
    then have "(i - 8) div 8 = i div 8 - 1" "(i - 8) mod 8 = i mod 8" "i div 8 \<noteq> 0"
      using le_div_geq [of 8 i] le_mod_geq [of 8 i] by simp_all
    with False Cons show ?thesis by (simp add: nth_append nth_Cons')
  qed
qed simp

lemma bits_of_drop: "bits_of (drop k xs) = drop (8 * k) (bits_of xs)"
proof (induction xs arbitrary: k)
  case (Cons x xs)
  then show ?case by (cases k) simp_all
qed simp

text \<open>The bits a stream has yet to deliver, and when a stream is fit to read from.\<close>

definition rbits :: "bitstream \<Rightarrow> bool list" where
  "rbits bs = drop (unat (bs_pos bs)) (bits_of (contents (bs_ring bs)))"

definition rstream_ok :: "bitstream \<Rightarrow> bool" where
  "rstream_ok bs \<longleftrightarrow> zring_ok (bs_ring bs) \<and> unat (bs_pos bs) < 8 \<and>
     (unat (bs_pos bs) \<noteq> 0 \<longrightarrow> contents (bs_ring bs) \<noteq> [])"

lemma zring_bits_bound:
  assumes "zring_ok rb"
  shows "8 * length (contents rb) < 2 ^ 63" "unat (rb_size rb) \<le> 2 ^ 59"
proof -
  obtain k where k: "k < 60" "unat (rb_size rb) = 2 ^ k" using assms by (auto simp: zring_ok_def elim: pow2_sizeE)
  have "(2 :: nat) ^ k \<le> 2 ^ 59" using k(1) by (intro power_increasing) simp_all
  then show "unat (rb_size rb) \<le> 2 ^ 59" using k by simp
  then show "8 * length (contents rb) < 2 ^ 63" using contents_bound [of rb] assms by (simp add: zring_ok_def)
qed

lemma unat_times_8:
  assumes "unat (x :: size_t) < 2 ^ 60"
  shows "unat (x * 8) = unat x * 8"
  using assms by (simp add: unat_word_ariths(2))

lemma unat_bitstream_avail_read:
  assumes "rstream_ok bs"
  shows "unat (bitstream_avail_read bs) = length (rbits bs)"
proof -
  let ?rb = "bs_ring bs"
  have ok: "zring_ok ?rb" "ringbuf_wf ?rb" "unat (bs_pos bs) < 8" using assms by (simp_all add: rstream_ok_def zring_ok_def)
  have sz: "unat (z_ringbuf_read_size ?rb) = length (contents ?rb)"
    unfolding z_sizes_kernel by (rule unat_ringbuf_read_size [OF ok(2)])
  have eight: "unat (z_ringbuf_read_size ?rb * 8) = length (contents ?rb) * 8"
    using zring_bits_bound(1) [OF ok(1)] by (subst unat_times_8) (simp_all add: sz)
  have "unat (bs_pos bs) \<le> length (contents ?rb) * 8"
    using assms ok(3) by (cases "contents ?rb") (auto simp: rstream_ok_def)
  then show ?thesis using eight
    by (simp add: bitstream_avail_read_def rbits_def unat_diff_le)
qed

lemma bitstream_has_read_iff:
  assumes "rstream_ok bs" "n < 2 ^ 64"
  shows "bitstream_has_read bs (of_nat n) \<longleftrightarrow> n \<le> length (rbits bs)"
  using unat_bitstream_avail_read [OF assms(1)] assms(2)
  by (simp add: bitstream_has_read_def word_le_nat_alt unat_of_nat64)

lemma bit_offset:
  assumes "unat p < 8" "n < 2 ^ 63"
  shows "unat ((p + of_nat n :: size_t) div 8) = (unat p + n) div 8" "unat ((p + of_nat n) mod 8) = (unat p + n) mod 8"
    "unat (p + of_nat n) = unat p + n"
proof -
  have "unat (p + of_nat n) = unat p + n" using assms by (subst unat_add64) (simp_all add: unat_of_nat64)
  then show "unat (p + of_nat n) = unat p + n" "unat ((p + of_nat n :: size_t) div 8) = (unat p + n) div 8"
    "unat ((p + of_nat n) mod 8) = (unat p + n) mod 8" by (simp_all add: unat_div unat_mod)
qed

lemma bitstream_getbit_rbits:
  assumes "rstream_ok bs" "i < length (rbits bs)"
  shows "bitstream_getbit bs (of_nat i) = of_bool (rbits bs ! i)"
proof -
  let ?rb = "bs_ring bs" and ?o = "unat (bs_pos bs) + i"
  have ok: "zring_ok ?rb" "unat (bs_pos bs) < 8" using assms(1) by (simp_all add: rstream_ok_def)
  have o: "?o < 8 * length (contents ?rb)" using assms(2) by (simp add: rbits_def)
  then have i: "i < 2 ^ 63" using zring_bits_bound(1) [OF ok(1)] by simp
  note off = bit_offset [OF ok(2) i]
  have d: "(bs_pos bs + of_nat i) div 8 = of_nat (?o div 8)"
    using arg_cong [OF off(1), of "of_nat :: nat \<Rightarrow> size_t"] by simp
  have "?o div 8 < length (contents ?rb)" using o by (simp add: div_less_iff_less_mult)
  then have "ring_at ?rb (z_ringbuf_next_read_pos ?rb ((bs_pos bs + of_nat i) div 8)) = contents ?rb ! (?o div 8)"
    unfolding d by (rule ring_at_read [OF ok(1)])
  moreover have "rbits bs ! i = bit (contents ?rb ! (?o div 8)) (?o mod 8)"
    using bits_of_nth [OF o] assms(2) by (simp add: rbits_def)
  ultimately show ?thesis
    by (simp add: bitstream_getbit_def off(2) Let_def and_one_eq bit_iff_odd_drop_bit mod_2_eq_odd)
qed

text \<open>The number a group of bits denotes, the first the least significant.\<close>

definition bits_val :: "bool list \<Rightarrow> u32" where
  "bits_val xs = horner_sum of_bool 2 xs"

lemma bit_bits_val: "bit (bits_val xs) i \<longleftrightarrow> i < 32 \<and> i < length xs \<and> xs ! i"
  by (simp add: bits_val_def bit_horner_sum_bit_iff)

lemma bitstream_peek_rbits:
  assumes "rstream_ok bs" "n \<le> length (rbits bs)" "n \<le> 32"
  shows "bitstream_peek bs (of_nat n) = bits_val (take n (rbits bs))"
proof -
  let ?f = "\<lambda>v i. v OR push_bit i (ucast (bitstream_getbit bs (of_nat i)) :: u32)"
  have "foldl ?f 0 [0..<k] = bits_val (take k (rbits bs))" if "k \<le> n" for k
    using that
  proof (induction k)
    case 0
    then show ?case by (simp add: bits_val_def)
  next
    case (Suc k)
    then have k: "k < length (rbits bs)" "k < 32" using assms by simp_all
    have "bit (bits_val (take (Suc k) (rbits bs))) i \<longleftrightarrow>
        bit (bits_val (take k (rbits bs)) OR push_bit k (of_bool (rbits bs ! k))) i" for i
      using k by (auto simp: bit_bits_val bit_simps less_Suc_eq)
    then have "bits_val (take (Suc k) (rbits bs)) = bits_val (take k (rbits bs)) OR push_bit k (of_bool (rbits bs ! k))"
      by (simp add: bit_eq_iff)
    with Suc bitstream_getbit_rbits [OF assms(1) k(1)] show ?case by simp
  qed
  moreover have "unat (of_nat n :: size_t) = n" using assms(3) by (intro unat_of_nat64) simp
  ultimately show ?thesis by (simp add: bitstream_peek_def)
qed

lemma bitstream_skip_rbits:
  assumes "rstream_ok bs" "n \<le> length (rbits bs)"
  shows "rstream_ok (bitstream_skip bs (of_nat n)) \<and> rbits (bitstream_skip bs (of_nat n)) = drop n (rbits bs) \<and>
    rb_size (bs_ring (bitstream_skip bs (of_nat n))) = rb_size (bs_ring bs)"
proof -
  let ?rb = "bs_ring bs" and ?o = "unat (bs_pos bs) + n" and ?bs = "bitstream_skip bs (of_nat n)"
  have ok: "zring_ok ?rb" "unat (bs_pos bs) < 8" using assms(1) by (simp_all add: rstream_ok_def)
  have o: "?o \<le> 8 * length (contents ?rb)"
    using assms ok(2) by (cases "contents ?rb") (auto simp: rbits_def rstream_ok_def)
  then have n: "n < 2 ^ 63" using zring_bits_bound(1) [OF ok(1)] by simp
  note off = bit_offset [OF ok(2) n]
  have d: "(bs_pos bs + of_nat n) div 8 = of_nat (?o div 8)"
    using arg_cong [OF off(1), of "of_nat :: nat \<Rightarrow> size_t"] by simp
  have "?o div 8 \<le> length (contents ?rb)" using o by simp
  from advance_read_contents [OF ok(1) this] have ring: "zring_ok (bs_ring ?bs)"
    "contents (bs_ring ?bs) = drop (?o div 8) (contents ?rb)" "rb_size (bs_ring ?bs) = rb_size ?rb"
    by (simp_all add: bitstream_skip_def d)
  have pos: "unat (bs_pos ?bs) = ?o mod 8" using off(2) by (simp add: bitstream_skip_def Let_def)
  have "contents (bs_ring ?bs) \<noteq> []" if "?o mod 8 \<noteq> 0"
  proof -
    have "?o \<noteq> 8 * length (contents ?rb)" using that by auto
    then have "?o div 8 < length (contents ?rb)" using o by (simp add: div_less_iff_less_mult)
    then show ?thesis by (simp add: ring(2))
  qed
  moreover have "rbits ?bs = drop n (rbits bs)"
    by (simp add: rbits_def ring(2) bits_of_drop pos add.commute)
  ultimately show ?thesis using ring pos by (simp add: rstream_ok_def)
qed

lemma bitstream_read_rbits:
  assumes "rstream_ok bs" "n \<le> length (rbits bs)" "n \<le> 32" "bitstream_read bs (of_nat n) = (v, bs')"
  shows "v = bits_val (take n (rbits bs)) \<and> rstream_ok bs' \<and> rbits bs' = drop n (rbits bs) \<and>
    rb_size (bs_ring bs') = rb_size (bs_ring bs)"
  using bitstream_skip_rbits [OF assms(1,2)] bitstream_peek_rbits [OF assms(1-3)] assms(4)
  by (auto simp: bitstream_read_def)

section \<open>Writing bits\<close>

text \<open>
  The bits a stream has written: those of the bytes in the ring, then those of the byte it is filling, whose
  other bits are clear.
\<close>

definition wbits :: "bitstream \<Rightarrow> bool list" where
  "wbits bs = bits_of (contents (bs_ring bs)) @
     take (unat (bs_pos bs)) (byte_bits (the (data (bs_ring bs)) ! behind_write (bs_ring bs) 0))"

definition wstream_ok :: "bitstream \<Rightarrow> bool" where
  "wstream_ok bs \<longleftrightarrow> zring_ok (bs_ring bs) \<and> unat (bs_pos bs) < 8 \<and>
     (unat (bs_pos bs) \<noteq> 0 \<longrightarrow> 0 < room (bs_ring bs) \<and>
        (\<forall>j \<ge> unat (bs_pos bs). \<not> bit (the (data (bs_ring bs)) ! behind_write (bs_ring bs) 0) j))"

text \<open>How many bits may still be written.\<close>

definition wroom :: "bitstream \<Rightarrow> nat" where
  "wroom bs = 8 * room (bs_ring bs) - unat (bs_pos bs)"

lemma bitstream_has_write_iff:
  assumes "wstream_ok bs" "n < 2 ^ 64"
  shows "bitstream_has_write bs (of_nat n) \<longleftrightarrow> n \<le> wroom bs"
proof -
  let ?rb = "bs_ring bs"
  have ok: "zring_ok ?rb" "ringbuf_wf ?rb" "unat (bs_pos bs) < 8" using assms by (simp_all add: wstream_ok_def zring_ok_def)
  have sz: "unat (z_ringbuf_write_size ?rb) = room ?rb"
    unfolding z_sizes_kernel by (rule unat_ringbuf_write_size [OF ok(2)])
  have "room ?rb < 2 ^ 60" using zring_bits_bound(2) [OF ok(1)] by (simp add: room_def)
  then have eight: "unat (z_ringbuf_write_size ?rb * 8) = room ?rb * 8"
    by (subst unat_times_8) (simp_all add: sz)
  have "unat (bs_pos bs) \<le> room ?rb * 8" using assms(1) ok(3) by (auto simp: wstream_ok_def)
  with eight assms(2) show ?thesis
    by (simp add: bitstream_has_write_def bitstream_avail_write_def wroom_def word_le_nat_alt unat_diff_le unat_of_nat64 mult.commute)
qed

lemma behind_write_inj:
  assumes "i < unat (rb_size rb)" "j < unat (rb_size rb)"
  shows "behind_write rb i = behind_write rb j \<longleftrightarrow> i = j"
  using assms add_mod_cancel [of "unat (write_pos rb)" i "unat (rb_size rb)" j] by (auto simp: behind_write_def)

text \<open>Storing a byte in the free part of the ring.\<close>

lemma ring_put_free:
  assumes "zring_ok rb" "q < room rb" and rb'_def: "rb' = ring_put rb (z_ringbuf_next_write_pos rb (of_nat q)) [v]"
  shows "zring_ok rb' \<and> contents rb' = contents rb \<and> room rb' = room rb \<and> rb_size rb' = rb_size rb \<and>
    behind_write rb' = behind_write rb \<and>
    (\<forall>j < room rb. the (data rb') ! behind_write rb j = (if j = q then v else the (data rb) ! behind_write rb j))"
proof -
  let ?s = "unat (rb_size rb)"
  have wf: "ringbuf_wf rb" and p: "pow2_size rb" using assms(1) by (simp_all add: zring_ok_def)
  obtain d where d: "data rb = Some d" "?s \<le> length d" using wf by (rule ringbuf_wfE)
  have q: "length (contents rb) + q < ?s" using assms(2) by (simp add: room_def)
  then have "unat (of_nat q :: size_t) = q" using unat_lt64 [of "rb_size rb"] by (intro unat_of_nat64) simp
  then have pos: "unat (z_ringbuf_next_write_pos rb (of_nat q)) = behind_write rb q"
    using unat_ring_pos [OF p, of "write_pos rb" "of_nat q"] by (simp add: z_ringbuf_next_write_pos_def behind_write_def)
  have lt: "behind_write rb q < length d" using d(2) q
    by (simp add: behind_write_def) (metis mod_less_divisor not_less_zero order_less_le_trans gr_zeroI)
  have upd: "block_write d i [v] = d[i := v]" if "i < length d" for i
    using that by (simp add: block_write_def upd_conv_take_nth_drop)
  have data: "data rb' = Some (d[behind_write rb q := v])"
    using d lt by (simp add: rb'_def ring_put_def pos upd)
  have same: "rb_size rb' = rb_size rb" "read_pos rb' = read_pos rb" "write_pos rb' = write_pos rb"
    by (simp_all add: rb'_def ring_put_def)
  have wf': "ringbuf_wf rb'" using wf same data d by (simp add: ringbuf_wf_def)
  have len: "length (contents rb') = length (contents rb)" by (simp add: length_contents [OF wf] length_contents [OF wf'] same)
  have "behind_write rb q \<noteq> behind_read rb i" if "i < length (contents rb)" for i
  proof -
    have "behind_read rb i = behind_write rb q \<Longrightarrow> i = length (contents rb) + q"
      unfolding write_behind_contents(1) [OF wf, symmetric] behind_read_def
      by (rule add_mod_cancel) (use that q in simp_all)
    then show ?thesis using that by auto
  qed
  moreover have "behind_read rb' = behind_read rb" by (simp add: behind_read_def fun_eq_iff same)
  ultimately have "contents rb' = contents rb"
    using len contents_nth [OF wf] contents_nth [OF wf'] data d(1) by (intro nth_equalityI) simp_all
  moreover have "the (data rb') ! behind_write rb j = (if j = q then v else the (data rb) ! behind_write rb j)"
    if "j < room rb" for j
  proof -
    have "j < ?s" using that by (simp add: room_def)
    then show ?thesis using q behind_write_inj [of j rb q] data d(1) lt by (auto simp: nth_list_update)
  qed
  ultimately show ?thesis using wf' p same by (simp add: zring_ok_def pow2_size_def room_def behind_write_def fun_eq_iff)
qed

text \<open>What a stream has stored after some of the bits of a field.\<close>

definition stored :: "bitstream \<Rightarrow> u32 \<Rightarrow> nat \<Rightarrow> bitstream \<Rightarrow> bool" where
  "stored bs v k bs' \<longleftrightarrow>
     (let rb = bs_ring bs; rb' = bs_ring bs'; P = unat (bs_pos bs);
          old = (\<lambda>j. the (data rb) ! behind_write rb j); new = (\<lambda>j. the (data rb') ! behind_write rb j)
      in zring_ok rb' \<and> contents rb' = contents rb \<and> room rb' = room rb \<and> rb_size rb' = rb_size rb \<and>
         behind_write rb' = behind_write rb \<and> bs_pos bs' = bs_pos bs \<and>
         (\<forall>m < P + k. bit (new (m div 8)) (m mod 8) \<longleftrightarrow> (if m < P then bit (old 0) m else bit v (m - P))) \<and>
         ((P + k) mod 8 \<noteq> 0 \<longrightarrow> (\<forall>j \<ge> (P + k) mod 8. \<not> bit (new ((P + k) div 8)) j)))"

lemma stored_start: "wstream_ok bs \<Longrightarrow> stored bs v 0 bs"
  by (auto simp: stored_def wstream_ok_def Let_def)

lemma same_byte: "m < n \<Longrightarrow> m div 8 = n div 8 \<Longrightarrow> m mod 8 < n mod (8 :: nat)"
  by (metis div_mult_mod_eq nat_add_left_cancel_less)

lemma stored_step:
  assumes "wstream_ok bs" "stored bs v k bs'" "k < wroom bs" "k < 32"
  shows "stored bs v (Suc k) (bitstream_putbit bs' (of_nat k) (ucast (drop_bit k v)))"
proof -
  let ?rb = "bs_ring bs" and ?rb' = "bs_ring bs'" and ?P = "unat (bs_pos bs)"
  let ?o = "?P + k" and ?new = "\<lambda>j. the (data (bs_ring bs')) ! behind_write (bs_ring bs) j"
  let ?b = "(if ?o mod 8 = 0 then 0 else ?new (?o div 8)) OR push_bit (?o mod 8) (ucast (drop_bit k v) AND 1 :: u8)"
  have P: "?P < 8" using assms(1) by (simp add: wstream_ok_def)
  have st: "zring_ok ?rb'" "contents ?rb' = contents ?rb" "room ?rb' = room ?rb" "rb_size ?rb' = rb_size ?rb"
    "behind_write ?rb' = behind_write ?rb" "bs_pos bs' = bs_pos bs"
    and low: "\<And>m. m < ?o \<Longrightarrow> bit (?new (m div 8)) (m mod 8) \<longleftrightarrow>
      (if m < ?P then bit (the (data ?rb) ! behind_write ?rb 0) m else bit v (m - ?P))"
    and high: "\<And>j. ?o mod 8 \<noteq> 0 \<Longrightarrow> ?o mod 8 \<le> j \<Longrightarrow> \<not> bit (?new (?o div 8)) j"
    using assms(2) unfolding stored_def Let_def by auto
  have q: "?o div 8 < room ?rb'" using assms(3) P unfolding st(3) by (simp add: wroom_def div_less_iff_less_mult)
  note off = bit_offset [of "bs_pos bs" k, OF P]
  have k63: "k < 2 ^ 63" using assms(4) by simp
  have dst: "(bs_pos bs + of_nat k) div 8 = of_nat (?o div 8)"
    using arg_cong [OF off(1) [OF k63], of "of_nat :: nat \<Rightarrow> size_t"] by simp
  have wf: "ringbuf_wf ?rb'" "pow2_size ?rb'" using st(1) by (simp_all add: zring_ok_def)
  have "?o div 8 < 2 ^ 64" using assms(4) P by simp
  then have at: "ring_at ?rb' (z_ringbuf_next_write_pos ?rb' (of_nat (?o div 8))) = ?new (?o div 8)"
    using unat_ring_pos [OF wf(2), of "write_pos ?rb'" "of_nat (?o div 8)"] fun_cong [OF st(5), of "?o div 8"]
    by (simp add: ring_at_def z_ringbuf_next_write_pos_def behind_write_def unat_of_nat64)
  have mod0: "(bs_pos bs + of_nat k) mod 8 = 0 \<longleftrightarrow> ?o mod 8 = 0"
    using off(2) [OF k63] by (metis unat_eq_0)
  have "bitstream_putbit bs' (of_nat k) (ucast (drop_bit k v)) =
      bs'\<lparr>bs_ring := ring_put ?rb' (z_ringbuf_next_write_pos ?rb' (of_nat (?o div 8))) [?b]\<rparr>"
    unfolding bitstream_putbit_def Let_def st(6) dst mod0 off(2) [OF k63] at by simp
  moreover define rb2 where "rb2 = ring_put ?rb' (z_ringbuf_next_write_pos ?rb' (of_nat (?o div 8))) [?b]"
  note put = ring_put_free [OF st(1) q rb2_def]
  have bitb: "bit ?b i \<longleftrightarrow> (?o mod 8 \<noteq> 0 \<and> bit (?new (?o div 8)) i) \<or> (i = ?o mod 8 \<and> bit v k)" if "i < 8" for i
    using that assms(4) by (auto simp: bit_simps)
  have new2: "the (data rb2) ! behind_write ?rb j = (if j = ?o div 8 then ?b else ?new j)" if "j < room ?rb" for j
    using put that st(3,5) by simp
  have "bit (the (data rb2) ! behind_write ?rb (m div 8)) (m mod 8) \<longleftrightarrow>
      (if m < ?P then bit (the (data ?rb) ! behind_write ?rb 0) m else bit v (m - ?P))" if "m < ?P + Suc k" for m
  proof -
    have mq: "m div 8 \<le> ?o div 8" using that by (intro div_le_mono) simp
    then have mr: "m div 8 < room ?rb" using q st(3) by simp
    show ?thesis
    proof (cases "m = ?o")
      case True
      then show ?thesis using new2 [OF mr] bitb [of "?o mod 8"] high [of "?o mod 8"] by auto
    next
      case False
      then have m: "m < ?o" using that by simp
      show ?thesis
      proof (cases "m div 8 = ?o div 8")
        case True
        then show ?thesis using new2 [OF mr] low [OF m] bitb [of "m mod 8"] same_byte [OF m True] by auto
      next
        case False
        then show ?thesis using new2 [OF mr] low [OF m] by simp
      qed
    qed
  qed
  moreover have "\<not> bit (the (data rb2) ! behind_write ?rb ((?P + Suc k) div 8)) j"
    if "(?P + Suc k) mod 8 \<noteq> 0" "(?P + Suc k) mod 8 \<le> j" for j
  proof -
    have o: "(?P + Suc k) div 8 = ?o div 8" "(?P + Suc k) mod 8 = Suc (?o mod 8)"
      using that(1) by (simp_all add: mod_Suc div_Suc split: if_splits)
    then have "j > ?o mod 8" using that(2) by simp
    then show ?thesis using new2 [of "?o div 8"] q st(3) o(1) high [of j] bitb [of j]
      by (cases "j < 8") (auto dest: bit_imp_le_length)
  qed
  ultimately show ?thesis using put st unfolding rb2_def [symmetric]
    unfolding stored_def Let_def by simp
qed

lemma bits_of_map_nth: "bits_of (map f [0..<q]) = map (\<lambda>m. bit (f (m div 8)) (m mod 8)) [0..<8 * q]"
  by (rule nth_equalityI) (simp_all add: bits_of_nth div_less_iff_less_mult)

lemma last_byte_bits:
  "take (N mod 8) (byte_bits (f (N div 8))) = map (\<lambda>m. bit (f (m div 8)) (m mod 8)) [8 * (N div 8)..<N]"
proof (rule nth_equalityI)
  fix i assume "i < length (take (N mod 8) (byte_bits (f (N div 8))))"
  then have i: "i < N mod 8" "i < 8" by simp_all
  then have "8 * (N div 8) + i < N" using div_mult_mod_eq [of N 8] by linarith
  then have "[8 * (N div 8)..<N] ! i = 8 * (N div 8) + i" by (rule nth_upt)
  moreover have "i < length [8 * (N div 8)..<N]" using i by (simp add: minus_mult_div_eq_mod)
  ultimately show "take (N mod 8) (byte_bits (f (N div 8))) ! i = map (\<lambda>m. bit (f (m div 8)) (m mod 8)) [8 * (N div 8)..<N] ! i"
    using i unfolding nth_map [OF \<open>i < length [8 * (N div 8)..<N]\<close>] by (simp add: byte_bits_def)
qed (simp add: minus_mult_div_eq_mod)

lemma bitstream_write_wbits:
  assumes "wstream_ok bs" "n \<le> wroom bs" "n \<le> 32"
    and bs'_def: "bs' = bitstream_write bs v (of_nat n)"
  shows "wstream_ok bs' \<and> wbits bs' = wbits bs @ map (bit v) [0..<n] \<and> wroom bs' = wroom bs - n \<and>
    rb_size (bs_ring bs') = rb_size (bs_ring bs)"
proof -
  define f where "f = (\<lambda>bs i. bitstream_putbit bs (of_nat i) (ucast (drop_bit i v)))"
  define b1 where "b1 = foldl f bs [0..<n]"
  have "k \<le> n \<Longrightarrow> stored bs v k (foldl f bs [0..<k])" for k
  proof (induction k)
    case 0
    then show ?case using stored_start [OF assms(1)] by simp
  next
    case (Suc k)
    then show ?case using stored_step [OF assms(1) _, of v k "foldl f bs [0..<k]"] assms(2,3) by (simp add: f_def)
  qed
  then have "stored bs v n b1" by (simp add: b1_def)
  let ?rb = "bs_ring bs" and ?P = "unat (bs_pos bs)" and ?q = "(unat (bs_pos bs) + n) div 8"
  let ?new = "\<lambda>j. the (data (bs_ring b1)) ! behind_write (bs_ring bs) j"
  have P: "?P < 8" "?P + n \<le> 8 * room ?rb" using assms(1,2) by (auto simp: wstream_ok_def wroom_def)
  have st: "zring_ok (bs_ring b1)" "contents (bs_ring b1) = contents ?rb" "room (bs_ring b1) = room ?rb"
    "rb_size (bs_ring b1) = rb_size ?rb" "behind_write (bs_ring b1) = behind_write ?rb" "bs_pos b1 = bs_pos bs"
    and low: "\<And>m. m < ?P + n \<Longrightarrow> bit (?new (m div 8)) (m mod 8) \<longleftrightarrow>
      (if m < ?P then bit (the (data ?rb) ! behind_write ?rb 0) m else bit v (m - ?P))"
    and high: "\<And>j. (?P + n) mod 8 \<noteq> 0 \<Longrightarrow> (?P + n) mod 8 \<le> j \<Longrightarrow> \<not> bit (?new ?q) j"
    using \<open>stored bs v n b1\<close> unfolding stored_def Let_def by auto
  have n63: "n < 2 ^ 63" using assms(3) by simp
  note off = bit_offset [OF P(1) n63]
  have dst: "(bs_pos bs + of_nat n) div 8 = of_nat ?q"
    using arg_cong [OF off(1), of "of_nat :: nat \<Rightarrow> size_t"] by simp
  have un: "unat (of_nat n :: size_t) = n" using assms(3) by (intro unat_of_nat64) simp
  have bs': "bs_ring bs' = z_ringbuf_advance_write (bs_ring b1) (of_nat ?q)" "unat (bs_pos bs') = (?P + n) mod 8"
    using off(2) by (simp_all add: bs'_def bitstream_write_def un b1_def [symmetric, unfolded f_def] st(6) dst Let_def)
  have q: "?q \<le> room (bs_ring b1)" using P(2) st(3) by simp
  note adv = advance_write_contents [OF st(1) q, folded bs'(1)]
  have room: "room (bs_ring bs') = room ?rb - ?q" using adv st(2,4) by (simp add: room_def)
  have b: "behind_write (bs_ring bs') j = behind_write ?rb (?q + j)" for j
  proof -
    have p: "pow2_size (bs_ring b1)" using st(1) by (simp add: zring_ok_def)
    have "unat (of_nat ?q :: size_t) = ?q" using assms(3) P(1) by (intro unat_of_nat64) simp
    then have "unat (write_pos (bs_ring bs')) = behind_write (bs_ring b1) ?q"
      using unat_ring_pos [OF p, of "write_pos (bs_ring b1)" "of_nat ?q"]
      by (simp add: bs'(1) z_ringbuf_advance_write_def z_ringbuf_next_write_pos_def behind_write_def)
    then show ?thesis using adv st(4) unfolding st(5) by (simp add: behind_write_def mod_add_left_eq add.assoc)
  qed
  have d: "data (bs_ring bs') = data (bs_ring b1)" by (simp add: bs'(1) z_ringbuf_advance_write_def)
  have top: "the (data (bs_ring bs')) ! behind_write (bs_ring bs') 0 = ?new ?q" by (simp add: b d)
  have "(?P + n) mod 8 \<noteq> 0 \<Longrightarrow> ?q < room ?rb" using P(2) by (metis div_less_iff_less_mult le_neq_implies_less
        mod_mult_self1_is_0 mult.commute zero_less_numeral)
  then have ok: "wstream_ok bs'" using adv bs'(2) top high room by (auto simp: wstream_ok_def)
  have "bits_of (map ?new [0..<?q]) @ take ((?P + n) mod 8) (byte_bits (?new ?q)) =
      map (\<lambda>m. bit (?new (m div 8)) (m mod 8)) [0..<?P + n]"
  proof -
    note last_byte_bits [of "?P + n" ?new]
    moreover have "[0..<?P + n] = [0..<8 * ?q] @ [8 * ?q..<?P + n]"
      by (metis le_add1 le_add_same_cancel1 mult.commute div_times_less_eq_dividend upt_add_eq_append le_add_diff_inverse zero_le)
    ultimately show ?thesis by (simp add: bits_of_map_nth)
  qed
  also have "\<dots> = map (\<lambda>m. if m < ?P then bit (the (data ?rb) ! behind_write ?rb 0) m else bit v (m - ?P)) [0..<?P + n]"
    using low by simp
  also have "\<dots> = take ?P (byte_bits (the (data ?rb) ! behind_write ?rb 0)) @ map (bit v) [0..<n]"
    using P(1) by (intro nth_equalityI) (auto simp: nth_append byte_bits_def)
  finally have "wbits bs' = wbits bs @ map (bit v) [0..<n]"
    using adv st(2,5) top bs'(2) by (simp add: wbits_def)
  moreover have "wroom bs' = wroom bs - n"
    using room bs'(2) by (simp add: wroom_def) (metis add.commute diff_diff_left diff_mult_distrib2 div_mult_mod_eq mult.commute)
  ultimately show ?thesis using ok adv st(4) by simp
qed

section \<open>Properties\<close>

lemma z_write_eq: "zring_ok rb \<Longrightarrow> z_ringbuf_write rb (Some bs) n = ringbuf_write rb bs n"
  by (simp add: z_ringbuf_write_def ringbuf_write_def z_write_kernel zring_ok_def)

lemma z_read_eq: "zring_ok rb \<Longrightarrow> z_ringbuf_read rb n = ringbuf_read rb n"
  by (auto simp: z_ringbuf_read_def ringbuf_read_def z_read_kernel zring_ok_def elim!: ringbuf_wfE)

interpretation z_ring: byte_queue zring_ok contents ring_capacity "\<lambda>rb bs. z_ringbuf_write rb (Some bs)" z_ringbuf_read
proof unfold_locales
  fix rb assume "zring_ok rb"
  then show "length (contents rb) \<le> ring_capacity rb" using ring.held_bound by (simp add: zring_ok_def)
next
  fix rb rb' :: ringbuf and n k :: size_t and bs :: "u8 list"
  assume ok: "zring_ok rb" and le: "unat n \<le> length bs" and w: "z_ringbuf_write rb (Some bs) n = (k, rb')"
  have "rb_size rb' = rb_size rb" using ringbuf_write_ok [of rb n bs] ok le w by (auto simp: z_write_eq zring_ok_def)
  with ring.put_law [of rb n bs k rb'] ok le w show "zring_ok rb' \<and> ring_capacity rb' = ring_capacity rb
      \<and> unat k = min (unat n) (ring_capacity rb - length (contents rb)) \<and> contents rb' = contents rb @ take (unat k) bs"
    by (simp add: z_write_eq zring_ok_def pow2_size_def)
next
  fix rb rb' :: ringbuf and n k :: size_t and bs :: "u8 list"
  assume ok: "zring_ok rb" and r: "z_ringbuf_read rb n = (k, bs, rb')"
  have "rb_size rb' = rb_size rb" using ringbuf_read_ok [of rb n] ok r by (auto simp: z_read_eq zring_ok_def)
  with ring.get_law [of rb n k bs rb'] ok r show "zring_ok rb' \<and> ring_capacity rb' = ring_capacity rb
      \<and> bs = take (unat n) (contents rb) \<and> unat k = length bs \<and> contents rb' = drop (unat n) (contents rb)"
    by (simp add: z_read_eq zring_ok_def pow2_size_def)
qed

text \<open>
  The ring of the compression library is the kernel's: for sizes that are powers of two the masked positions are
  the remainders the kernel computes, every sequence of writes and reads gives the same bytes and leaves the
  same ring, and the bytes come out in the order they went in.
\<close>

lemma z_ringbuf_kernel:
  assumes "zring_ok rb" "list_all fits ops"
    and "run_queue (\<lambda>rb bs. z_ringbuf_write rb (Some bs)) z_ringbuf_read ops rb = (accepted, delivered, rb')"
  shows "run_queue ringbuf_write ringbuf_read ops rb = (accepted, delivered, rb') \<and> zring_ok rb' \<and>
    contents rb @ accepted = delivered @ contents rb'"
proof -
  have "run_queue ringbuf_write ringbuf_read ops rb = run_queue (\<lambda>rb bs. z_ringbuf_write rb (Some bs)) z_ringbuf_read ops rb"
    using assms(1,2)
  proof (induction ops arbitrary: rb)
    case (Cons op ops)
    show ?case
    proof (cases op)
      case (Write bs)
      obtain k q where w: "z_ringbuf_write rb (Some bs) (of_nat (length bs)) = (k, q)" by fastforce
      have "unat (of_nat (length bs) :: size_t) \<le> length bs" using Cons.prems(2) Write by (simp add: unat_of_nat64)
      from z_ring.put_law [OF Cons.prems(1) this w] Cons.IH [of q] Cons.prems Write w z_write_eq [OF Cons.prems(1)]
      show ?thesis by simp
    next
      case (Read n)
      obtain k bs q where r: "z_ringbuf_read rb n = (k, bs, q)" by (metis prod_cases3)
      from z_ring.get_law [OF Cons.prems(1) r] Cons.IH [of q] Cons.prems Read r z_read_eq [OF Cons.prems(1), of n]
      show ?thesis by simp
    qed
  qed simp
  with z_ring.run_fifo [OF assms] assms(3) show ?thesis by simp
qed

lemma small_ring_ok: "zring_ok small_ring"
  using small_ring_wf by (simp add: zring_ok_def pow2_size_def small_ring_def exI [of _ 2])

lemmas z_ring_eval = z_ringbuf_write_def z_ringbuf_read_def z_ringbuf_write_loop.simps z_ringbuf_read_loop.simps
  z_ringbuf_contiguous_write_size_def z_ringbuf_contiguous_read_size_def clip_def ring_put_def z_ringbuf_advance_write_def
  z_ringbuf_advance_read_def z_ringbuf_next_write_pos_def z_ringbuf_next_read_pos_def block_write_def block_read_def Let_def

lemma z_ringbuf_kernel_witness:
  "\<exists>rb'. run_queue ringbuf_write ringbuf_read [Write [1, 2], Read 1, Write [3, 4, 5], Read 9] small_ring
     = ([1, 2, 3, 4], [1, 2, 3, 4], rb') \<and> zring_ok rb' \<and> contents rb' = []"
proof -
  let ?ops = "[Write [1, 2], Read 1, Write [3, 4, 5], Read 9]"
  obtain rb' where run: "run_queue (\<lambda>rb bs. z_ringbuf_write rb (Some bs)) z_ringbuf_read ?ops small_ring = ([1, 2, 3, 4], [1, 2, 3, 4], rb')"
    by (simp add: small_ring_def z_ring_eval)
  have "contents small_ring = []" by (simp add: contents_def small_ring_def)
  with z_ringbuf_kernel [OF small_ring_ok _ run] show ?thesis by simp
qed

text \<open>Fields of a stream, written and read one after the other.\<close>

fun write_fields :: "bitstream \<Rightarrow> (u32 \<times> nat) list \<Rightarrow> bitstream" where
  "write_fields bs [] = bs"
| "write_fields bs ((v, n) # fs) = write_fields (bitstream_write bs v (of_nat n)) fs"

fun read_fields :: "bitstream \<Rightarrow> nat list \<Rightarrow> u32 list" where
  "read_fields bs [] = []"
| "read_fields bs (n # ns) = (let (v, bs) = bitstream_read bs (of_nat n) in v # read_fields bs ns)"

definition field_bits :: "(u32 \<times> nat) list \<Rightarrow> bool list" where
  "field_bits fs = concat (map (\<lambda>(v, n). map (bit v) [0..<n]) fs)"

lemma length_field_bits: "length (field_bits fs) = (\<Sum>(v, n) \<leftarrow> fs. n)"
  by (induction fs) (auto simp: field_bits_def)

lemma write_fields_wbits:
  assumes "wstream_ok bs" "length (field_bits fs) \<le> wroom bs" "\<forall>(v, n) \<in> set fs. n \<le> 32"
  shows "wstream_ok (write_fields bs fs) \<and> wbits (write_fields bs fs) = wbits bs @ field_bits fs"
  using assms
proof (induction bs fs rule: write_fields.induct)
  case (2 bs v n fs)
  then have n: "n \<le> wroom bs" "n \<le> 32" by (simp_all add: field_bits_def)
  note w = bitstream_write_wbits [OF "2.prems"(1) n refl, of v]
  from 2 w show ?case by (simp add: field_bits_def)
qed (simp add: field_bits_def)

lemma bits_val_field: "n \<le> 32 \<Longrightarrow> bits_val (map (bit v) [0..<n]) = take_bit n v"
  by (rule bit_eqI) (auto simp: bit_bits_val bit_simps)

lemma read_fields_rbits:
  assumes "rstream_ok bs" "rbits bs = field_bits fs @ rest" "\<forall>(v, n) \<in> set fs. n \<le> 32"
  shows "read_fields bs (map snd fs) = map (\<lambda>(v, n). take_bit n v) fs"
  using assms
proof (induction fs arbitrary: bs)
  case (Cons f fs)
  obtain v n where f: "f = (v, n)" by (cases f)
  obtain x bs' where r: "bitstream_read bs (of_nat n) = (x, bs')" by fastforce
  have n: "n \<le> length (rbits bs)" "n \<le> 32" using Cons.prems f by (simp_all add: field_bits_def)
  have x: "take n (rbits bs) = map (bit v) [0..<n]" "drop n (rbits bs) = field_bits fs @ rest"
    using Cons.prems(2) by (simp_all add: f field_bits_def)
  note rd = bitstream_read_rbits [OF Cons.prems(1) n r, unfolded x]
  then have "x = take_bit n v" using bits_val_field [OF n(2)] by simp
  with Cons rd r f show ?case by simp
qed simp

lemma write_pos_0:
  assumes "wstream_ok bs" "8 dvd length (wbits bs)"
  shows "unat (bs_pos bs) = 0 \<and> wbits bs = bits_of (contents (bs_ring bs))"
proof -
  have "length (wbits bs) = 8 * length (contents (bs_ring bs)) + unat (bs_pos bs)"
    using assms(1) by (simp add: wbits_def wstream_ok_def)
  then have "8 dvd unat (bs_pos bs)" using assms(2) by (simp add: dvd_add_right_iff)
  then have "unat (bs_pos bs) = 0" using assms(1) by (auto simp: wstream_ok_def dest: dvd_imp_le)
  then show ?thesis by (simp add: wbits_def)
qed

text \<open>
  C35. Bits written to a ring are the bits read from it: fields of up to 32 bits each, whose widths add up to
  whole bytes that the ring has room for, are read back in order with the values they were given, cut to their
  widths, however they straddle bytes and the end of the array.
\<close>

theorem bitstream_roundtrip:
  assumes "zring_ok rb" "contents rb = []" "\<forall>(v, n) \<in> set fs. n \<le> 32"
    and "(\<Sum>(v, n) \<leftarrow> fs. n) = 8 * k" "k < unat (rb_size rb)"
  shows "read_fields \<lparr>bs_ring = bs_ring (write_fields \<lparr>bs_ring = rb, bs_pos = 0\<rparr> fs), bs_pos = 0\<rparr> (map snd fs) =
    map (\<lambda>(v, n). take_bit n v) fs"
proof -
  let ?w = "\<lparr>bs_ring = rb, bs_pos = 0\<rparr>"
  have ok: "wstream_ok ?w" "wbits ?w = []" using assms(1,2) by (simp_all add: wstream_ok_def wbits_def)
  have "length (field_bits fs) \<le> wroom ?w"
    using assms(2,4,5) by (simp add: length_field_bits wroom_def room_def)
  note w = write_fields_wbits [OF ok(1) this assms(3)]
  let ?bs = "write_fields ?w fs"
  have "8 dvd length (wbits ?bs)" using w ok(2) assms(4) by (simp add: length_field_bits)
  note z = write_pos_0 [OF conjunct1 [OF w] this]
  let ?r = "\<lparr>bs_ring = bs_ring ?bs, bs_pos = 0\<rparr>"
  have "rstream_ok ?r" using w by (simp add: rstream_ok_def wstream_ok_def)
  moreover have "rbits ?r = field_bits fs @ []" using w z ok(2) by (simp add: rbits_def)
  ultimately show ?thesis using assms(3) by (rule read_fields_rbits)
qed

theorem bitstream_roundtrip_witness:
  "read_fields \<lparr>bs_ring = bs_ring (write_fields \<lparr>bs_ring = small_ring, bs_pos = 0\<rparr> [(5, 3), (0x3FF, 9), (9, 12)]), bs_pos = 0\<rparr>
     [3, 9, 12] = [5, 0x1FF, 9]"
proof -
  have "contents small_ring = []" by (simp add: contents_def small_ring_def)
  from bitstream_roundtrip [OF small_ring_ok this, of "[(5, 3), (0x3FF, 9), (9, 12)]" 3]
  show ?thesis by (simp add: small_ring_def take_bit_eq_mask mask_eq_exp_minus_1)
qed

end
