(* ===== verification/Zhuff.thy ===== *)
theory Zhuff
  imports Zring
begin

text \<open>
  The Huffman decoder of the compression library (lib/libz/src/huffman.c, lib/libz/src/huffman.h): the canonical code of a
  list of code lengths, and the bit-by-bit decoder. A reference definition gives every symbol its code; the
  decoder, run on the tables \<^verbatim>\<open>huffman_generate\<close> fills, is shown to read back every symbol from its code.
\<close>

section \<open>Model\<close>

definition MAX_BITS :: nat where
  "MAX_BITS = 15"

record huffman =
  hf_counts :: "u16 list"
  hf_codes :: "u16 list"
  hf_values :: "u16 list"
  hf_count :: size_t

definition count_sizes :: "u8 list \<Rightarrow> u16 list" where
  "count_sizes sizes = foldl (\<lambda>c s. c[unat s := c ! unat s + 1]) (replicate (MAX_BITS + 1) 0) sizes"

fun code_loop :: "u32 \<Rightarrow> u16 list \<Rightarrow> u16 list" where
  "code_loop code [] = []"
| "code_loop code (c # cs) = ucast code # code_loop (push_bit 1 (code + ucast c)) cs"

fun offset_loop :: "u32 \<Rightarrow> u16 list \<Rightarrow> u16 list" where
  "offset_loop offset [] = []"
| "offset_loop offset (c # cs) = ucast offset # offset_loop (offset + ucast c) cs"

fun place_loop :: "nat \<Rightarrow> u8 list \<Rightarrow> u16 list \<Rightarrow> u16 list \<Rightarrow> u16 list" where
  "place_loop i [] offsets vs = vs"
| "place_loop i (s # ss) offsets vs =
     (if s \<noteq> 0
      then place_loop (Suc i) ss (offsets[unat s := offsets ! unat s + 1])
             (vs[unat (offsets ! unat s) := of_nat i])
      else place_loop (Suc i) ss offsets vs)"

text \<open>\<open>sizes\<close> is the array behind the pointer; the first \<open>n\<close> entries are read.\<close>

definition huffman_generate :: "huffman \<Rightarrow> u8 list \<Rightarrow> u32 \<Rightarrow> huffman" where
  "huffman_generate huff sizes n =
     (let sizes = take (unat n) sizes;
          counts = (count_sizes sizes)[0 := 0];
          codes = code_loop 0 counts;
          offsets = offset_loop 0 counts
      in huff\<lparr>hf_count := ucast n, hf_counts := counts, hf_codes := codes,
           hf_values := place_loop 0 sizes offsets (hf_values huff)\<rparr>)"

definition Z_NEED_MORE :: int where "Z_NEED_MORE = - 6"
definition Z_DATA_ERROR :: int where "Z_DATA_ERROR = - 3"

function decode_loop :: "bitstream \<Rightarrow> huffman \<Rightarrow> nat \<Rightarrow> u16 \<Rightarrow> u32 \<Rightarrow> int \<times> bitstream" where
  "decode_loop bs huff i v pos =
     (if i \<le> MAX_BITS
      then if \<not> bitstream_has_read bs (of_nat i) then (Z_NEED_MORE, bs)
           else let v = push_bit 1 v OR ucast (bitstream_getbit bs (of_nat i - 1));
                    counts = ucast (hf_counts huff ! i) :: u32;
                    base = ucast (hf_codes huff ! i) :: u32
                in if base \<le> ucast v \<and> ucast v < base + counts
                   then (uint (hf_values huff ! unat (pos + (ucast v - base))), bitstream_skip bs (of_nat i))
                   else decode_loop bs huff (Suc i) v (pos + counts)
      else (Z_DATA_ERROR, bs))"
  by pat_completeness auto
termination
  by (relation "measure (\<lambda>(bs, huff, i, v, pos). Suc MAX_BITS - i)") auto

definition huffman_decode :: "bitstream \<Rightarrow> huffman \<Rightarrow> int \<times> bitstream" where
  "huffman_decode bs huff = decode_loop bs huff 1 0 0"

declare decode_loop.simps [simp del]

section \<open>The canonical code\<close>

text \<open>
  The reference: the number of symbols of a length, the first code and the first place of a length, the rank of
  a symbol among those of its length, its code and the bits that stand for it.
\<close>

definition cnt :: "nat list \<Rightarrow> nat \<Rightarrow> nat" where
  "cnt L l = (if l = 0 then 0 else count_list L l)"

fun base :: "nat list \<Rightarrow> nat \<Rightarrow> nat" where
  "base L 0 = 0"
| "base L (Suc l) = 2 * (base L l + cnt L l)"

fun place :: "nat list \<Rightarrow> nat \<Rightarrow> nat" where
  "place L 0 = 0"
| "place L (Suc l) = place L l + cnt L l"

definition rank :: "nat list \<Rightarrow> nat \<Rightarrow> nat" where
  "rank L s = count_list (take s L) (L ! s)"

definition code :: "nat list \<Rightarrow> nat \<Rightarrow> nat" where
  "code L s = base L (L ! s) + rank L s"

definition code_bits :: "nat \<Rightarrow> nat \<Rightarrow> bool list" where
  "code_bits l c = rev (map (bit c) [0..<l])"

text \<open>The lengths of a code: none above 15, no more than 288, and no length with more codes than there are.\<close>

definition lengths_ok :: "nat list \<Rightarrow> bool" where
  "lengths_ok L \<longleftrightarrow> length L \<le> 288 \<and> (\<forall>l \<in> set L. l \<le> MAX_BITS) \<and> (\<forall>l \<le> MAX_BITS. base L l + cnt L l \<le> 2 ^ l)"

lemma base_numeral: "base L (numeral k) = 2 * (base L (pred_numeral k) + cnt L (pred_numeral k))"
  by (simp add: numeral_eq_Suc)

lemma rank_less: "s < length L \<Longrightarrow> rank L s < count_list L (L ! s)"
proof -
  assume s: "s < length L"
  have "count_list L (L ! s) = count_list (take s L) (L ! s) + count_list (drop s L) (L ! s)"
    by (metis append_take_drop_id count_list_append)
  moreover have "drop s L = L ! s # drop (Suc s) L" using s by (simp add: Cons_nth_drop_Suc)
  ultimately show ?thesis by (simp add: rank_def)
qed

lemma base_shift:
  assumes "i < l"
  shows "2 ^ (l - i) * (base L i + cnt L i) \<le> base L l"
  using assms
proof (induction l)
  case (Suc l)
  show ?case
  proof (cases "i = l")
    case False
    then have "2 ^ (l - i) * (base L i + cnt L i) \<le> base L l" using Suc by simp
    moreover have "Suc l - i = Suc (l - i)" using Suc.prems by simp
    ultimately show ?thesis by simp
  qed simp
qed simp

lemma place_mono: "i \<le> l \<Longrightarrow> place L i \<le> place L l"
  by (induction l) (auto simp: le_Suc_eq)

lemma sum_cnt_place: "place L l = (\<Sum>j < l. cnt L j)"
  by (induction l) simp_all

lemma place_bound: "place L l \<le> length L"
proof -
  have "(\<Sum>j < l. cnt L j) \<le> (\<Sum>j < l. count_list L j)" by (intro sum_mono) (simp add: cnt_def)
  also have "\<dots> \<le> length L"
  proof (induction L)
    case (Cons a L)
    have "(\<Sum>j < l. count_list (a # L) j) = (\<Sum>j < l. count_list L j) + (\<Sum>j < l. if a = j then 1 else 0)"
    proof -
      have "count_list (a # L) j = count_list L j + (if a = j then 1 else 0)" for j by simp
      then show ?thesis by (simp only: sum.distrib)
    qed
    also have "(\<Sum>j < l. if a = j then 1 else (0 :: nat)) \<le> 1" by (simp add: sum.delta')
    finally show ?case using Cons by simp
  qed simp
  finally show ?thesis by (simp add: sum_cnt_place)
qed

text \<open>Different symbols have different places.\<close>

lemma place_inj:
  assumes "s < length L" "t < length L" "L ! s \<noteq> 0" "L ! t \<noteq> 0"
    and "place L (L ! s) + rank L s = place L (L ! t) + rank L t"
  shows "s = t"
proof -
  have bound: "place L (L ! s) + rank L s < place L (Suc (L ! s))" if "s < length L" "L ! s \<noteq> 0" for s
    using rank_less [OF that(1)] that(2) by (simp add: cnt_def)
  have same: "L ! s = L ! t"
  proof (rule ccontr)
    assume "L ! s \<noteq> L ! t"
    then consider "Suc (L ! s) \<le> L ! t" | "Suc (L ! t) \<le> L ! s" by linarith
    then show False
      using bound [OF assms(1,3)] bound [OF assms(2,4)] assms(5) place_mono [of "Suc (L ! s)" "L ! t" L]
        place_mono [of "Suc (L ! t)" "L ! s" L] by cases linarith+
  qed
  have mono: "rank L s < rank L t" if "s < t" "L ! s = L ! t" "t < length L" for s t
  proof -
    have "take (Suc s) L = take s L @ [L ! s]" using that by (simp add: take_Suc_conv_app_nth)
    then have "count_list (take (Suc s) L) (L ! s) = Suc (rank L s)" by (simp add: rank_def)
    moreover have "count_list (take (Suc s) L) x \<le> count_list (take t L) x" for x
      using that by (metis Suc_leI append_take_drop_id count_list_append le_add1 min.absorb1 take_take)
    ultimately have "Suc (rank L s) \<le> count_list (take t L) (L ! s)" by metis
    then show ?thesis using that(2) by (simp add: rank_def)
  qed
  show ?thesis using mono [of s t] mono [of t s] same assms by (cases s t rule: linorder_cases) auto
qed

section \<open>The tables\<close>

lemma ucast_of_nat_down: "ucast (of_nat n :: u32) = (of_nat n :: u16)"
  by (simp add: word_unat_eq_iff unsigned_ucast_eq unsigned_of_nat take_bit_take_bit)

lemma ucast_of_nat_up: "n < 2 ^ 16 \<Longrightarrow> ucast (of_nat n :: u16) = (of_nat n :: u32)"
  by (simp add: word_unat_eq_iff unsigned_ucast_eq unsigned_of_nat take_bit_nat_eq_self [of n 16] take_bit_nat_eq_self [of n 32])

lemma unat_of_nat16: "n < 2 ^ 16 \<Longrightarrow> unat (of_nat n :: u16) = n"
  by (simp add: unsigned_of_nat take_bit_nat_eq_self_iff)

lemma unat_of_nat32: "n < 2 ^ 32 \<Longrightarrow> unat (of_nat n :: u32) = n"
  by (simp add: unsigned_of_nat take_bit_nat_eq_self_iff)

lemma count_sizes_nth:
  assumes "\<forall>x \<in> set sizes. unat x \<le> MAX_BITS"
  shows "length (count_sizes sizes) = Suc MAX_BITS \<and>
    (\<forall>l \<le> MAX_BITS. count_sizes sizes ! l = of_nat (count_list (map unat sizes) l))"
  using assms
proof (induction sizes rule: rev_induct)
  case Nil
  then show ?case by (auto simp: count_sizes_def nth_Cons')
next
  case (snoc x xs)
  then have ih: "length (count_sizes xs) = Suc MAX_BITS"
    "\<forall>l \<le> MAX_BITS. count_sizes xs ! l = of_nat (count_list (map unat xs) l)" by simp_all
  have "count_sizes (xs @ [x]) = (count_sizes xs)[unat x := count_sizes xs ! unat x + 1]" by (simp add: count_sizes_def)
  with ih snoc.prems show ?case by (auto simp: nth_list_update)
qed

lemma cnt_bound: "cnt L l \<le> length L"
  by (simp add: cnt_def count_le_length)

lemma code_loop_base:
  assumes "length L < 2 ^ 16" "l \<le> n"
  shows "code_loop (of_nat (base L l)) (map (\<lambda>j. of_nat (cnt L j)) [l..<n]) = map (\<lambda>j. of_nat (base L j)) [l..<n]"
  using assms
proof (induction "n - l" arbitrary: l)
  case (Suc d)
  then have l: "[l..<n] = l # [Suc l..<n]" by (simp add: upt_conv_Cons)
  have "ucast (of_nat (cnt L l) :: u16) = (of_nat (cnt L l) :: u32)"
    using cnt_bound [of L l] Suc.prems(1) by (intro ucast_of_nat_up) simp
  then have "push_bit 1 (of_nat (base L l) + ucast (of_nat (cnt L l) :: u16)) = (of_nat (base L (Suc l)) :: u32)"
    by (simp add: push_bit_eq_mult)
  with Suc.hyps(1) [of "Suc l"] Suc.hyps(2) Suc.prems show ?case
    by (simp add: l ucast_of_nat_down del: base.simps)
qed simp

lemma offset_loop_place:
  assumes "length L < 2 ^ 16" "l \<le> n"
  shows "offset_loop (of_nat (place L l)) (map (\<lambda>j. of_nat (cnt L j)) [l..<n]) = map (\<lambda>j. of_nat (place L j)) [l..<n]"
  using assms
proof (induction "n - l" arbitrary: l)
  case (Suc d)
  then have l: "[l..<n] = l # [Suc l..<n]" by (simp add: upt_conv_Cons)
  have "ucast (of_nat (cnt L l) :: u16) = (of_nat (cnt L l) :: u32)"
    using cnt_bound [of L l] Suc.prems(1) by (intro ucast_of_nat_up) simp
  then have "of_nat (place L l) + ucast (of_nat (cnt L l) :: u16) = (of_nat (place L (Suc l)) :: u32)" by simp
  with Suc.hyps(1) [of "Suc l"] Suc.hyps(2) Suc.prems show ?case
    by (simp add: l ucast_of_nat_down del: place.simps)
qed simp

text \<open>The place of every symbol that has a code.\<close>

definition placed :: "nat list \<Rightarrow> nat \<Rightarrow> u16 list \<Rightarrow> bool" where
  "placed L m vs \<longleftrightarrow> (\<forall>s < m. L ! s \<noteq> 0 \<longrightarrow> vs ! (place L (L ! s) + rank L s) = of_nat s)"

lemma symbol_place:
  assumes "s < length L" "L ! s \<noteq> 0"
  shows "place L (L ! s) + rank L s < length L"
  using rank_less [OF assms(1)] assms(2) place_bound [of L "Suc (L ! s)"] by (simp add: cnt_def)

lemma place_loop_placed:
  assumes "L = map unat sizes" "length L \<le> 288" "\<forall>l \<in> set L. l \<le> MAX_BITS" "length vs = 288" "m \<le> length L"
    and "placed L m vs" "length offsets = Suc MAX_BITS"
    and "\<forall>l \<le> MAX_BITS. offsets ! l = of_nat (place L l + cnt (take m L) l)"
  shows "length (place_loop m (drop m sizes) offsets vs) = 288 \<and> placed L (length L) (place_loop m (drop m sizes) offsets vs)"
  using assms(4-)
proof (induction "length L - m" arbitrary: m offsets vs)
  case 0
  then show ?case using assms(1) by simp
next
  case (Suc d)
  let ?l = "L ! m" and ?x = "sizes ! m"
  have m: "m < length L" using Suc.hyps(2) by simp
  then have x: "drop m sizes = ?x # drop (Suc m) sizes" "unat ?x = ?l" "?l \<le> MAX_BITS"
    using assms(1,3) by (simp_all add: Cons_nth_drop_Suc)
  have tk: "take (Suc m) L = take m L @ [?l]" using m by (simp add: take_Suc_conv_app_nth)
  show ?case
  proof (cases "?l = 0")
    case True
    then have "?x = 0" using x(2) by (simp add: unat_eq_0)
    moreover have "placed L (Suc m) vs" using Suc.prems(3) True by (auto simp: placed_def less_Suc_eq)
    moreover have "cnt (take (Suc m) L) l = cnt (take m L) l" for l using True by (simp add: tk cnt_def)
    ultimately show ?thesis using Suc.hyps(1) [of "Suc m" vs offsets] Suc.hyps(2) Suc.prems m x(1) by simp
  next
    case False
    then have nz: "?x \<noteq> 0" using x(2) by auto
    have pl: "place L ?l + rank L m < 288" using symbol_place [OF m False] assms(2) by simp
    have off: "offsets ! ?l = of_nat (place L ?l + rank L m)"
      using Suc.prems(5) x(3) False by (simp add: cnt_def rank_def)
    then have un: "unat (offsets ! ?l) = place L ?l + rank L m" using pl unfolding off by (intro unat_of_nat16) simp
    let ?vs = "vs[unat (offsets ! ?l) := of_nat m]" and ?off = "offsets[?l := offsets ! ?l + 1]"
    have "placed L (Suc m) ?vs"
      unfolding placed_def
    proof (intro allI impI)
      fix s assume s: "s < Suc m" "L ! s \<noteq> 0"
      show "?vs ! (place L (L ! s) + rank L s) = of_nat s"
      proof (cases "s = m")
        case True
        then show ?thesis using pl Suc.prems(1) un by simp
      next
        case ne: False
        then have "place L (L ! s) + rank L s \<noteq> place L ?l + rank L m"
          using place_inj [of s L m] s m False by auto
        then show ?thesis using Suc.prems(3) s ne un by (simp add: placed_def)
      qed
    qed
    moreover have "\<forall>l \<le> MAX_BITS. ?off ! l = of_nat (place L l + cnt (take (Suc m) L) l)"
      using Suc.prems(4,5) False by (auto simp: nth_list_update tk cnt_def)
    ultimately show ?thesis using Suc.hyps(1) [of "Suc m" ?vs ?off] Suc.hyps(2) Suc.prems(1,4) m x(1,2) nz by simp
  qed
qed

text \<open>The tables of a code.\<close>

definition tables :: "nat list \<Rightarrow> huffman \<Rightarrow> bool" where
  "tables L huff \<longleftrightarrow> (\<forall>l \<le> MAX_BITS. hf_counts huff ! l = of_nat (cnt L l) \<and> hf_codes huff ! l = of_nat (base L l)) \<and>
     placed L (length L) (hf_values huff)"

lemma huffman_generate_tables:
  assumes "lengths_ok (map unat sizes)" "length (hf_values huff) = 288"
  shows "tables (map unat sizes) (huffman_generate huff sizes (of_nat (length sizes)))"
proof -
  let ?L = "map unat sizes"
  have L: "length ?L \<le> 288" "\<forall>l \<in> set ?L. l \<le> MAX_BITS" using assms(1) by (simp_all add: lengths_ok_def)
  have un: "unat (of_nat (length sizes) :: u32) = length sizes"
    using L(1) by (simp add: unsigned_of_nat take_bit_nat_eq_self_iff)
  have c: "length (count_sizes sizes) = Suc MAX_BITS"
    "\<forall>l \<le> MAX_BITS. count_sizes sizes ! l = of_nat (count_list ?L l)"
    using count_sizes_nth [of sizes] L(2) by simp_all
  have counts: "(count_sizes sizes)[0 := 0] = map (\<lambda>j. of_nat (cnt ?L j)) [0..<Suc MAX_BITS]"
    using c by (intro nth_equalityI) (auto simp: nth_list_update cnt_def simp del: upt_Suc)
  have codes: "code_loop 0 ((count_sizes sizes)[0 := 0]) = map (\<lambda>j. of_nat (base ?L j)) [0..<Suc MAX_BITS]"
    using code_loop_base [of ?L 0 "Suc MAX_BITS"] L(1) unfolding counts by (simp del: upt_Suc)
  have offsets: "offset_loop 0 ((count_sizes sizes)[0 := 0]) = map (\<lambda>j. of_nat (place ?L j)) [0..<Suc MAX_BITS]"
    using offset_loop_place [of ?L 0 "Suc MAX_BITS"] L(1) unfolding counts by (simp del: upt_Suc)
  have "placed ?L (length ?L) (place_loop 0 (drop 0 sizes) (map (\<lambda>j. of_nat (place ?L j)) [0..<Suc MAX_BITS]) (hf_values huff))"
    using place_loop_placed [OF refl L assms(2), of 0 "map (\<lambda>j. of_nat (place ?L j)) [0..<Suc MAX_BITS]"]
    by (simp add: placed_def cnt_def del: upt_Suc)
  then show ?thesis unfolding tables_def huffman_generate_def Let_def un take_all [OF order_refl] codes offsets
    by (simp add: counts del: upt_Suc)
qed

section \<open>Decoding\<close>

lemma length_code_bits [simp]: "length (code_bits l c) = l"
  by (simp add: code_bits_def)

lemma code_bits_nth: "i < l \<Longrightarrow> code_bits l c ! i = bit c (l - Suc i)"
  by (simp add: code_bits_def rev_nth)

lemma code_less:
  assumes "lengths_ok L" "s < length L" "L ! s \<noteq> 0"
  shows "code L s < 2 ^ (L ! s)" "base L (L ! s) \<le> code L s" "code L s - base L (L ! s) < cnt L (L ! s)" "L ! s \<le> MAX_BITS"
proof -
  show l: "L ! s \<le> MAX_BITS" using assms by (simp add: lengths_ok_def)
  then have "base L (L ! s) + cnt L (L ! s) \<le> 2 ^ (L ! s)" using assms(1) by (simp add: lengths_ok_def)
  moreover have "rank L s < cnt L (L ! s)" using rank_less [OF assms(2)] assms(3) by (simp add: cnt_def)
  ultimately show "code L s < 2 ^ (L ! s)" "base L (L ! s) \<le> code L s" "code L s - base L (L ! s) < cnt L (L ! s)"
    by (simp_all add: code_def)
qed

lemma div_pow_step: "i < l \<Longrightarrow> c div 2 ^ (l - Suc i) = 2 * (c div 2 ^ (l - i)) + of_bool (bit c (l - Suc i))" for c :: nat
proof -
  assume "i < l"
  then have "l - i = Suc (l - Suc i)" by simp
  then have "c div 2 ^ (l - i) = c div 2 ^ (l - Suc i) div 2" by (simp only: power_Suc2 div_mult2_eq)
  then show ?thesis by (simp add: bit_iff_odd mod_2_eq_odd [symmetric])
qed

lemma lengths_ok_small:
  assumes "lengths_ok L" "l \<le> MAX_BITS"
  shows "base L l + cnt L l \<le> 2 ^ 15" "place L l \<le> 288"
proof -
  have "(2 :: nat) ^ l \<le> 2 ^ 15" using assms(2) by (intro power_increasing) (simp_all add: MAX_BITS_def)
  moreover have "base L l + cnt L l \<le> 2 ^ l" using assms by (simp add: lengths_ok_def)
  ultimately show "base L l + cnt L l \<le> 2 ^ 15" by (rule order_trans [rotated])
  show "place L l \<le> 288" using place_bound [of L l] assms(1) by (simp add: lengths_ok_def)
qed

text \<open>One round of the loop, in natural numbers.\<close>

lemma decode_loop_round:
  assumes "lengths_ok L" "tables L huff" "rstream_ok bs" "i < length (rbits bs)" "i < MAX_BITS" "w < 2 ^ i"
    and w': "w' = 2 * w + of_bool (rbits bs ! i)"
  shows "decode_loop bs huff (Suc i) (of_nat w) (of_nat (place L (Suc i))) =
    (if base L (Suc i) \<le> w' \<and> w' < base L (Suc i) + cnt L (Suc i)
     then (uint (hf_values huff ! (place L (Suc i) + (w' - base L (Suc i)))), bitstream_skip bs (of_nat (Suc i)))
     else decode_loop bs huff (Suc (Suc i)) (of_nat w') (of_nat (place L (Suc (Suc i)))))"
proof -
  let ?l = "Suc i"
  have l: "?l \<le> MAX_BITS" using assms(5) by simp
  note small = lengths_ok_small [OF assms(1) l]
  have pw: "(2 :: nat) ^ i \<le> 2 ^ 14" using assms(5) by (intro power_increasing) (simp_all add: MAX_BITS_def)
  then have w: "w < 2 ^ 14" using assms(6) by simp
  then have w2: "w' < 2 ^ 15" using w' by simp
  have has: "bitstream_has_read bs (of_nat ?l)"
    using bitstream_has_read_iff [OF assms(3), of ?l] assms(4) l by (simp add: MAX_BITS_def)
  have get: "bitstream_getbit bs (of_nat ?l - 1) = of_bool (rbits bs ! i)"
    using bitstream_getbit_rbits [OF assms(3,4)] by simp
  have "push_bit 1 (of_nat w :: u16) OR ucast (of_bool (rbits bs ! i) :: u8) = of_nat w'"
  proof -
    have "(of_nat w * 2 OR 1 :: u16) = of_nat w * 2 + 1" by (simp add: or_one_eq)
    then show ?thesis by (cases "rbits bs ! i") (simp_all add: w' push_bit_eq_mult mult.commute)
  qed
  moreover have "(ucast (of_nat w' :: u16) :: u32) = of_nat w'" using w2 by (intro ucast_of_nat_up) simp
  moreover have "(ucast (hf_counts huff ! ?l) :: u32) = of_nat (cnt L ?l)" "(ucast (hf_codes huff ! ?l) :: u32) = of_nat (base L ?l)"
    using assms(2) l small(1) by (simp_all add: tables_def ucast_of_nat_up del: base.simps)
  moreover have "(of_nat (base L ?l) :: u32) \<le> of_nat w' \<longleftrightarrow> base L ?l \<le> w'"
    "(of_nat w' :: u32) < of_nat (base L ?l) + of_nat (cnt L ?l) \<longleftrightarrow> w' < base L ?l + cnt L ?l"
    using small(1) w2 unat_of_nat32 [of "base L ?l"] unat_of_nat32 [of w'] unat_of_nat32 [of "base L ?l + cnt L ?l"]
    by (simp_all add: word_le_nat_alt word_less_nat_alt del: base.simps)
  moreover have "unat (of_nat (place L ?l) + (of_nat w' - of_nat (base L ?l)) :: u32) = place L ?l + (w' - base L ?l)"
    if "base L ?l \<le> w'"
  proof -
    have "(of_nat (place L ?l) + (of_nat w' - of_nat (base L ?l)) :: u32) = of_nat (place L ?l + (w' - base L ?l))"
      using that by (simp add: of_nat_diff del: base.simps place.simps)
    then show ?thesis using small(2) w2 unat_of_nat32 [of "place L ?l + (w' - base L ?l)"] by (simp del: base.simps place.simps)
  qed
  ultimately show ?thesis using has get l
    by (simp add: decode_loop.simps [of bs huff ?l] Let_def del: base.simps place.simps(2))
      (simp add: add.commute)
qed

lemma take_nth_prefix: "take n xs = take n ys \<Longrightarrow> i < n \<Longrightarrow> i < length xs \<Longrightarrow> i < length ys \<Longrightarrow> xs ! i = ys ! i"
  by (metis nth_take)

text \<open>The first bits of a code do not look like a shorter code.\<close>

lemma no_shorter_code:
  assumes "lengths_ok L" "s < length L" "L ! s \<noteq> 0" "i < L ! s"
  shows "base L i + cnt L i \<le> code L s div 2 ^ (L ! s - i)"
proof -
  have "2 ^ (L ! s - i) * (base L i + cnt L i) \<le> code L s"
    using base_shift [OF assms(4), of L] by (simp add: code_def)
  then show ?thesis by (simp add: less_eq_div_iff_mult_less_eq mult.commute)
qed

lemma decode_loop_code:
  assumes "lengths_ok L" "tables L huff" "s < length L" "L ! s \<noteq> 0" "rstream_ok bs" "i < L ! s"
    and "take (L ! s) (rbits bs) = take (length (rbits bs)) (code_bits (L ! s) (code L s))" "i \<le> length (rbits bs)"
  shows "decode_loop bs huff (Suc i) (of_nat (code L s div 2 ^ (L ! s - i))) (of_nat (place L (Suc i))) =
    (if L ! s \<le> length (rbits bs) then (int s, bitstream_skip bs (of_nat (L ! s))) else (Z_NEED_MORE, bs))"
  using assms(6,8)
proof (induction "L ! s - Suc i" arbitrary: i rule: less_induct)
  case (less i)
  let ?l = "L ! s" and ?c = "code L s"
  note c = code_less [OF assms(1,3,4)]
  have i: "i < MAX_BITS" using less.prems(1) c(4) by simp
  show ?case
  proof (cases "i = length (rbits bs)")
    case True
    then have "\<not> bitstream_has_read bs (of_nat (Suc i))"
      using bitstream_has_read_iff [OF assms(5), of "Suc i"] i by (simp add: MAX_BITS_def)
    with True less.prems(1) i show ?thesis by (subst decode_loop.simps) simp
  next
    case False
    then have rb: "i < length (rbits bs)" using less.prems(2) by simp
    let ?w' = "?c div 2 ^ (?l - Suc i)"
    have "rbits bs ! i = code_bits ?l ?c ! i"
      using arg_cong [OF assms(7), of "\<lambda>xs. xs ! i"] rb less.prems(1) by simp
    then have w': "?w' = 2 * (?c div 2 ^ (?l - i)) + of_bool (rbits bs ! i)"
      using div_pow_step [OF less.prems(1), of ?c] less.prems(1) by (simp add: code_bits_nth)
    have "?c div 2 ^ (?l - i) < 2 ^ i"
      using c(1) less.prems(1) by (simp add: less_mult_imp_div_less flip: power_add)
    note round = decode_loop_round [OF assms(1,2,5) rb i this w']
    show ?thesis
    proof (cases "Suc i = ?l")
      case True
      then have "?w' = ?c" by simp
      then have "base L (Suc i) \<le> ?w'" "?w' < base L (Suc i) + cnt L (Suc i)" using c(2,3) True by simp_all
      moreover have "place L (Suc i) + (?w' - base L (Suc i)) = place L ?l + rank L s"
        using \<open>?w' = ?c\<close> True by (simp add: code_def del: base.simps place.simps)
      moreover have "hf_values huff ! (place L ?l + rank L s) = of_nat s"
        using assms(2,3,4) by (simp add: tables_def placed_def)
      moreover have "uint (of_nat s :: u16) = int s"
        using assms(1,3) by (simp add: lengths_ok_def unsigned_of_nat take_bit_nat_eq_self_iff uint_nat)
      ultimately show ?thesis using round True rb by (simp del: base.simps place.simps)
    next
      case ne: False
      then have "Suc i < ?l" using less.prems(1) by simp
      with no_shorter_code [OF assms(1,3,4) this] round have
        "decode_loop bs huff (Suc i) (of_nat (?c div 2 ^ (?l - i))) (of_nat (place L (Suc i))) =
         decode_loop bs huff (Suc (Suc i)) (of_nat ?w') (of_nat (place L (Suc (Suc i))))"
        by (simp del: base.simps place.simps)
      with less.hyps [of "Suc i"] \<open>Suc i < ?l\<close> rb show ?thesis by simp
    qed
  qed
qed

lemma huffman_decode_code:
  assumes "lengths_ok L" "tables L huff" "s < length L" "L ! s \<noteq> 0" "rstream_ok bs"
    and "take (L ! s) (rbits bs) = take (length (rbits bs)) (code_bits (L ! s) (code L s))"
  shows "huffman_decode bs huff =
    (if L ! s \<le> length (rbits bs) then (int s, bitstream_skip bs (of_nat (L ! s))) else (Z_NEED_MORE, bs))"
proof -
  have "code L s div 2 ^ (L ! s - 0) = 0" using code_less(1) [OF assms(1,3,4)] by simp
  moreover have "place L (Suc 0) = 0" by (simp add: cnt_def)
  ultimately show ?thesis using decode_loop_code [OF assms(1-5) _ assms(6), of 0] assms(4)
    by (simp add: huffman_decode_def)
qed

section \<open>Properties\<close>

text \<open>
  C34. The decoder inverts the canonical code. For code lengths of at most 15 bits that no length has too many of
  (the Kraft condition), \<^verbatim>\<open>huffman_decode\<close> on the tables of \<^verbatim>\<open>huffman_generate\<close> reads every symbol back from its
  code, takes exactly the bits of the code from the stream, and leaves the rest. On a stream that ends inside
  the code it asks for more input and leaves the stream as it was.
\<close>

theorem huffman_roundtrip:
  assumes "lengths_ok (map unat sizes)" "length (hf_values huff) = 288" "s < length sizes" "sizes ! s \<noteq> 0"
    and "rstream_ok bs" "rbits bs = take k (code_bits (unat (sizes ! s)) (code (map unat sizes) s) @ rest)"
  shows "\<exists>r bs'. huffman_decode bs (huffman_generate huff sizes (of_nat (length sizes))) = (r, bs') \<and>
    (if unat (sizes ! s) \<le> k
     then r = int s \<and> rstream_ok bs' \<and> rbits bs' = take (k - unat (sizes ! s)) rest
     else r = Z_NEED_MORE \<and> bs' = bs)"
proof -
  let ?L = "map unat sizes"
  have nz: "?L ! s \<noteq> 0" using assms(3,4) by (simp add: unat_eq_0)
  have l: "?L ! s = unat (sizes ! s)" using assms(3) by simp
  let ?l = "unat (sizes ! s)" and ?cb = "code_bits (unat (sizes ! s)) (code (map unat sizes) s)"
  have "take (?L ! s) (rbits bs) = take (length (rbits bs)) (code_bits (?L ! s) (code ?L s))"
    using assms(6) l by (cases "k \<le> ?l") (simp_all add: min_def)
  from huffman_decode_code [OF assms(1) huffman_generate_tables [OF assms(1,2)] _ nz assms(5) this] assms(3)
  have dec: "huffman_decode bs (huffman_generate huff sizes (of_nat (length sizes))) =
      (if ?l \<le> length (rbits bs) then (int s, bitstream_skip bs (of_nat ?l)) else (Z_NEED_MORE, bs))" by (simp add: l)
  show ?thesis
  proof (cases "?l \<le> k")
    case True
    then have le: "?l \<le> length (rbits bs)" using assms(6) by simp
    with dec bitstream_skip_rbits [OF assms(5) le] True assms(6) show ?thesis by simp
  next
    case False
    then have "\<not> ?l \<le> length (rbits bs)" using assms(6) by simp
    with dec False show ?thesis by simp
  qed
qed

text \<open>The code with the lengths 1, 2, 3 and 3, and a stream that starts with the code 110 of symbol 2.\<close>

definition demo_stream :: bitstream where
  "demo_stream = \<lparr>bs_ring = \<lparr>data = Some [3, 0], rb_size = 2, read_pos = 0, write_pos = 1\<rparr>, bs_pos = 0\<rparr>"

theorem huffman_roundtrip_witness:
  "\<exists>huff bs'. huffman_decode demo_stream (huffman_generate huff [1, 2, 3, 3] 4) = (2, bs') \<and>
     rbits bs' = [False, False, False, False, False]"
proof -
  let ?huff = "\<lparr>hf_counts = [], hf_codes = [], hf_values = replicate 288 0, hf_count = 0\<rparr>"
  let ?L = "map unat [1, 2, 3, 3 :: u8]"
  have set: "{l :: nat. l \<le> 15} = set [0..<16]" by auto
  have "\<forall>l \<in> {l :: nat. l \<le> 15}. base [1, 2, 3, 3] l + cnt [1, 2, 3, 3] l \<le> 2 ^ l"
    unfolding set by (simp add: upt_rec cnt_def base_numeral)
  then have ok: "lengths_ok ?L" by (simp add: lengths_ok_def MAX_BITS_def)
  have st: "rstream_ok demo_stream"
    by (auto simp: demo_stream_def rstream_ok_def zring_ok_def ringbuf_wf_def pow2_size_def contents_def intro: exI [of _ 1])
  have bits: "rbits demo_stream = take 8 (code_bits 3 (code ?L 2) @ [False, False, False, False, False])"
    by (simp add: demo_stream_def rbits_def contents_def byte_bits_def code_bits_def code_def rank_def cnt_def base_numeral
        upt_rec bit_0)
  have x: "[1, 2, 3, 3 :: u8] ! 2 = 3" by simp
  have "\<exists>r bs'. huffman_decode demo_stream (huffman_generate ?huff [1, 2, 3, 3] (of_nat (length [1, 2, 3, 3 :: u8]))) = (r, bs') \<and>
    (if unat ([1, 2, 3, 3 :: u8] ! 2) \<le> 8
     then r = int 2 \<and> rstream_ok bs' \<and> rbits bs' = take (8 - unat ([1, 2, 3, 3 :: u8] ! 2)) [False, False, False, False, False]
     else r = Z_NEED_MORE \<and> bs' = demo_stream)"
    by (rule huffman_roundtrip [OF ok _ _ _ st]) (simp_all only: x bits, simp_all)
  then show ?thesis unfolding x by auto
qed

end
