(* ===== verification/Zsum.thy ===== *)
theory Zsum
  imports Prelude
begin

text \<open>
  The checksums of the compression library (lib/libz/src/crc32.c, lib/libz/src/adler32.c). The table-driven CRC is the
  division by the generator polynomial done a bit at a time, and Adler-32 is a pair of sums modulo 65521. Both
  may be computed piece by piece and both tell apart two messages that differ in one byte.
\<close>

section \<open>CRC-32\<close>

definition crc32_table :: "u32 list" where
  "crc32_table =
    [0x00000000, 0x77073096, 0xEE0E612C, 0x990951BA, 0x076DC419, 0x706AF48F, 0xE963A535, 0x9E6495A3,
     0x0EDB8832, 0x79DCB8A4, 0xE0D5E91E, 0x97D2D988, 0x09B64C2B, 0x7EB17CBD, 0xE7B82D07, 0x90BF1D91,
     0x1DB71064, 0x6AB020F2, 0xF3B97148, 0x84BE41DE, 0x1ADAD47D, 0x6DDDE4EB, 0xF4D4B551, 0x83D385C7,
     0x136C9856, 0x646BA8C0, 0xFD62F97A, 0x8A65C9EC, 0x14015C4F, 0x63066CD9, 0xFA0F3D63, 0x8D080DF5,
     0x3B6E20C8, 0x4C69105E, 0xD56041E4, 0xA2677172, 0x3C03E4D1, 0x4B04D447, 0xD20D85FD, 0xA50AB56B,
     0x35B5A8FA, 0x42B2986C, 0xDBBBC9D6, 0xACBCF940, 0x32D86CE3, 0x45DF5C75, 0xDCD60DCF, 0xABD13D59,
     0x26D930AC, 0x51DE003A, 0xC8D75180, 0xBFD06116, 0x21B4F4B5, 0x56B3C423, 0xCFBA9599, 0xB8BDA50F,
     0x2802B89E, 0x5F058808, 0xC60CD9B2, 0xB10BE924, 0x2F6F7C87, 0x58684C11, 0xC1611DAB, 0xB6662D3D,
     0x76DC4190, 0x01DB7106, 0x98D220BC, 0xEFD5102A, 0x71B18589, 0x06B6B51F, 0x9FBFE4A5, 0xE8B8D433,
     0x7807C9A2, 0x0F00F934, 0x9609A88E, 0xE10E9818, 0x7F6A0DBB, 0x086D3D2D, 0x91646C97, 0xE6635C01,
     0x6B6B51F4, 0x1C6C6162, 0x856530D8, 0xF262004E, 0x6C0695ED, 0x1B01A57B, 0x8208F4C1, 0xF50FC457,
     0x65B0D9C6, 0x12B7E950, 0x8BBEB8EA, 0xFCB9887C, 0x62DD1DDF, 0x15DA2D49, 0x8CD37CF3, 0xFBD44C65,
     0x4DB26158, 0x3AB551CE, 0xA3BC0074, 0xD4BB30E2, 0x4ADFA541, 0x3DD895D7, 0xA4D1C46D, 0xD3D6F4FB,
     0x4369E96A, 0x346ED9FC, 0xAD678846, 0xDA60B8D0, 0x44042D73, 0x33031DE5, 0xAA0A4C5F, 0xDD0D7CC9,
     0x5005713C, 0x270241AA, 0xBE0B1010, 0xC90C2086, 0x5768B525, 0x206F85B3, 0xB966D409, 0xCE61E49F,
     0x5EDEF90E, 0x29D9C998, 0xB0D09822, 0xC7D7A8B4, 0x59B33D17, 0x2EB40D81, 0xB7BD5C3B, 0xC0BA6CAD,
     0xEDB88320, 0x9ABFB3B6, 0x03B6E20C, 0x74B1D29A, 0xEAD54739, 0x9DD277AF, 0x04DB2615, 0x73DC1683,
     0xE3630B12, 0x94643B84, 0x0D6D6A3E, 0x7A6A5AA8, 0xE40ECF0B, 0x9309FF9D, 0x0A00AE27, 0x7D079EB1,
     0xF00F9344, 0x8708A3D2, 0x1E01F268, 0x6906C2FE, 0xF762575D, 0x806567CB, 0x196C3671, 0x6E6B06E7,
     0xFED41B76, 0x89D32BE0, 0x10DA7A5A, 0x67DD4ACC, 0xF9B9DF6F, 0x8EBEEFF9, 0x17B7BE43, 0x60B08ED5,
     0xD6D6A3E8, 0xA1D1937E, 0x38D8C2C4, 0x4FDFF252, 0xD1BB67F1, 0xA6BC5767, 0x3FB506DD, 0x48B2364B,
     0xD80D2BDA, 0xAF0A1B4C, 0x36034AF6, 0x41047A60, 0xDF60EFC3, 0xA867DF55, 0x316E8EEF, 0x4669BE79,
     0xCB61B38C, 0xBC66831A, 0x256FD2A0, 0x5268E236, 0xCC0C7795, 0xBB0B4703, 0x220216B9, 0x5505262F,
     0xC5BA3BBE, 0xB2BD0B28, 0x2BB45A92, 0x5CB36A04, 0xC2D7FFA7, 0xB5D0CF31, 0x2CD99E8B, 0x5BDEAE1D,
     0x9B64C2B0, 0xEC63F226, 0x756AA39C, 0x026D930A, 0x9C0906A9, 0xEB0E363F, 0x72076785, 0x05005713,
     0x95BF4A82, 0xE2B87A14, 0x7BB12BAE, 0x0CB61B38, 0x92D28E9B, 0xE5D5BE0D, 0x7CDCEFB7, 0x0BDBDF21,
     0x86D3D2D4, 0xF1D4E242, 0x68DDB3F8, 0x1FDA836E, 0x81BE16CD, 0xF6B9265B, 0x6FB077E1, 0x18B74777,
     0x88085AE6, 0xFF0F6A70, 0x66063BCA, 0x11010B5C, 0x8F659EFF, 0xF862AE69, 0x616BFFD3, 0x166CCF45,
     0xA00AE278, 0xD70DD2EE, 0x4E048354, 0x3903B3C2, 0xA7672661, 0xD06016F7, 0x4969474D, 0x3E6E77DB,
     0xAED16A4A, 0xD9D65ADC, 0x40DF0B66, 0x37D83BF0, 0xA9BCAE53, 0xDEBB9EC5, 0x47B2CF7F, 0x30B5FFE9,
     0xBDBDF21C, 0xCABAC28A, 0x53B39330, 0x24B4A3A6, 0xBAD03605, 0xCDD70693, 0x54DE5729, 0x23D967BF,
     0xB3667A2E, 0xC4614AB8, 0x5D681B02, 0x2A6F2B94, 0xB40BBE37, 0xC30C8EA1, 0x5A05DF1B, 0x2D02EF8D]"

definition crc32_step :: "u32 \<Rightarrow> u8 \<Rightarrow> u32" where
  "crc32_step crc b = drop_bit 8 crc XOR crc32_table ! unat ((crc AND 0xFF) XOR ucast b)"

text \<open>A buffer is the list of its bytes, \<open>None\<close> for a null pointer; \<open>len\<close> is an \<^verbatim>\<open>unsigned\<close> or a \<^verbatim>\<open>size_t\<close>.\<close>

definition crc32 :: "u32 \<Rightarrow> u8 list option \<Rightarrow> u32 \<Rightarrow> u32" where
  "crc32 crc buf len =
     (case buf of
        None \<Rightarrow> 0
      | Some bs \<Rightarrow> foldl crc32_step (crc XOR 0xFFFFFFFF) (take (unat len) bs) XOR 0xFFFFFFFF)"

definition crc32_z :: "u32 \<Rightarrow> u8 list option \<Rightarrow> size_t \<Rightarrow> u32" where
  "crc32_z crc buf len =
     (case buf of
        None \<Rightarrow> 0
      | Some bs \<Rightarrow> foldl crc32_step (crc XOR 0xFFFFFFFF) (take (unat len) bs) XOR 0xFFFFFFFF)"

section \<open>Adler-32\<close>

fun adler32_loop :: "u32 \<Rightarrow> u32 \<Rightarrow> u8 list \<Rightarrow> u32 \<times> u32" where
  "adler32_loop s1 s2 [] = (s1, s2)"
| "adler32_loop s1 s2 (b # bs) =
     (let s1 = (s1 + ucast b) mod 65521; s2 = (s2 + s1) mod 65521 in adler32_loop s1 s2 bs)"

definition adler32 :: "u32 \<Rightarrow> u8 list option \<Rightarrow> u32 \<Rightarrow> u32" where
  "adler32 adler buf len =
     (case buf of
        None \<Rightarrow> 1
      | Some bs \<Rightarrow>
          let s1 = drop_bit 0 adler AND 0xFFFF; s2 = drop_bit 16 adler AND 0xFFFF;
              (s1, s2) = adler32_loop s1 s2 (take (unat len) bs)
          in push_bit 16 s2 OR s1)"

definition adler32_z :: "u32 \<Rightarrow> u8 list option \<Rightarrow> size_t \<Rightarrow> u32" where
  "adler32_z adler buf len =
     (case buf of
        None \<Rightarrow> push_bit 16 1
      | Some bs \<Rightarrow>
          let s1 = drop_bit 0 adler AND 0xFFFF; s2 = drop_bit 16 adler AND 0xFFFF;
              (s1, s2) = adler32_loop s1 s2 (take (unat len) bs)
          in push_bit 16 s2 OR s1)"

section \<open>The polynomial behind the table\<close>

text \<open>
  The reference: one step of the division by the reflected generator polynomial 0xEDB88320, and eight of them
  for a byte.
\<close>

definition crc_bit :: "u32 \<Rightarrow> u32" where
  "crc_bit c = (if bit c 0 then drop_bit 1 c XOR 0xEDB88320 else drop_bit 1 c)"

definition crc_byte :: "u32 \<Rightarrow> u8 \<Rightarrow> u32" where
  "crc_byte c b = (crc_bit ^^ 8) (c XOR ucast b)"

lemma crc_bit_xor: "crc_bit (a XOR b) = crc_bit a XOR crc_bit b"
  by (rule bit_eqI) (auto simp: crc_bit_def bit_simps)

lemma crc_bits_xor: "(crc_bit ^^ n) (a XOR b) = (crc_bit ^^ n) a XOR (crc_bit ^^ n) b"
  by (induction n) (simp_all add: crc_bit_xor)

lemma crc_bits_shift: "(\<And>i. i < n \<Longrightarrow> \<not> bit c i) \<Longrightarrow> (crc_bit ^^ n) c = drop_bit n c"
proof (induction n arbitrary: c)
  case (Suc n)
  have "crc_bit c = drop_bit 1 c" using Suc.prems [of 0] by (simp add: crc_bit_def)
  moreover have "\<not> bit (drop_bit 1 c) i" if "i < n" for i using Suc.prems [of "Suc i"] that by (simp add: bit_simps)
  ultimately show ?case using Suc.IH [of "drop_bit 1 c"]
    by (simp add: funpow_Suc_right del: funpow.simps)
qed simp

text \<open>The table of the polynomial is linear, so that eight entries and the sums between them determine it.\<close>

lemma length_crc32_table [simp]: "length crc32_table = 256"
  by (simp add: crc32_table_def)

lemma crc_bits_8: "(crc_bit ^^ 8) c = crc_bit (crc_bit (crc_bit (crc_bit (crc_bit (crc_bit (crc_bit (crc_bit c)))))))"
  by (simp add: numeral_eq_Suc)

lemma crc32_table_powers:
  "\<forall>k \<in> set [0..<8]. crc32_table ! (2 ^ k) = (crc_bit ^^ 8) (2 ^ k)"
  unfolding crc_bits_8 by (simp add: upt_rec crc32_table_def crc_bit_def)

lemma crc32_table_halves:
  "\<forall>k \<in> set [0..<8]. take (2 ^ k) (drop (2 ^ k) crc32_table) = map ((XOR) (crc32_table ! (2 ^ k))) (take (2 ^ k) crc32_table)"
  by (simp add: upt_rec crc32_table_def)

lemma of_nat_add_xor:
  assumes "j < 2 ^ k" "k < 32"
  shows "of_nat (2 ^ k + j) = (2 ^ k XOR of_nat j :: u32)"
proof -
  have "\<not> bit (of_nat j :: u32) k"
    using assms bit_iff_odd [of j k] by (simp add: bit_simps)
  then have "(2 ^ k :: u32) AND of_nat j = 0"
    by (auto intro: bit_eqI simp: bit_simps)
  then have "2 ^ k + of_nat j = (2 ^ k XOR of_nat j :: u32)"
    by (rule disjunctive_add_eq_xor)
  then show ?thesis by simp
qed

lemma crc32_table_upto: "k \<le> 8 \<Longrightarrow> i < 2 ^ k \<Longrightarrow> crc32_table ! i = (crc_bit ^^ 8) (of_nat i)"
proof (induction k arbitrary: i)
  case 0
  then show ?case unfolding crc_bits_8 by (simp add: crc32_table_def crc_bit_def)
next
  case (Suc k)
  show ?case
  proof (cases "i < 2 ^ k")
    case True
    with Suc show ?thesis by simp
  next
    case False
    define j where "j = i - 2 ^ k"
    then have j: "i = 2 ^ k + j" "j < 2 ^ k" using False Suc.prems(2) by simp_all
    have k: "k \<in> set [0..<8]" using Suc.prems(1) by simp
    have "(2 :: nat) ^ k \<le> 2 ^ 7" using Suc.prems(1) by (intro power_increasing) simp_all
    then have b: "i < 256" "2 ^ k + 2 ^ k \<le> (256 :: nat)" using j by simp_all
    have "crc32_table ! i = take (2 ^ k) (drop (2 ^ k) crc32_table) ! j" using j b by simp
    also have "\<dots> = crc32_table ! (2 ^ k) XOR crc32_table ! j"
      unfolding bspec [OF crc32_table_halves k] using j b by simp
    also have "\<dots> = (crc_bit ^^ 8) (2 ^ k) XOR (crc_bit ^^ 8) (of_nat j)"
      using bspec [OF crc32_table_powers k] Suc.IH [OF _ j(2)] Suc.prems(1) by simp
    also have "\<dots> = (crc_bit ^^ 8) (of_nat i)"
      using of_nat_add_xor [OF j(2)] Suc.prems(1) unfolding j(1) crc_bits_xor [symmetric] by simp
    finally show ?thesis .
  qed
qed

lemma crc32_step_byte: "crc32_step c b = crc_byte c b"
proof -
  let ?x = "c XOR ucast b" and ?i = "(c AND 0xFF) XOR ucast b"
  have ff: "(0xFF :: u32) = mask 8" by (simp add: mask_eq_exp_minus_1)
  have low: "?i = take_bit 8 ?x" unfolding ff by (rule bit_eqI) (auto simp: bit_simps dest: bit_imp_le_length)
  have "unat ?i < 2 ^ 8" unfolding low unsigned_take_bit_eq by (rule take_bit_nat_less_exp)
  then have "crc32_table ! unat ?i = (crc_bit ^^ 8) ?i" using crc32_table_upto [of 8 "unat ?i"] by simp
  moreover have "(crc_bit ^^ 8) (c AND NOT (mask 8)) = drop_bit 8 c"
  proof (subst crc_bits_shift)
    show "drop_bit 8 (c AND NOT (mask 8)) = drop_bit 8 c" by (rule bit_eqI) (auto simp: bit_simps dest: bit_imp_le_length)
  qed (simp add: bit_simps)
  moreover have "?x = (c AND NOT (mask 8)) XOR ?i" unfolding ff by (rule bit_eqI) (auto simp: bit_simps dest: bit_imp_le_length)
  ultimately show ?thesis unfolding crc32_step_def crc_byte_def by (metis crc_bits_xor)
qed

lemma xor_cancel: "(c :: 'a :: len word) XOR a = c XOR b \<longleftrightarrow> a = b"
  by (metis xor.assoc xor.left_neutral xor_self_eq)

lemma crc_bit_eq_0: "crc_bit c = 0 \<Longrightarrow> c = 0"
proof (rule ccontr)
  assume z: "crc_bit c = 0" and "c \<noteq> 0"
  have top: "\<not> bit (drop_bit 1 c) 31" by (auto simp: bit_simps dest: bit_imp_le_length)
  show False
  proof (cases "bit c 0")
    case True
    then have "0xEDB88320 XOR drop_bit 1 c = 0xEDB88320 XOR 0xEDB88320" using z by (simp add: crc_bit_def xor.commute)
    then have "drop_bit 1 c = 0xEDB88320" unfolding xor_cancel .
    with top show False by simp
  next
    case False
    then have "drop_bit 1 c = 0" using z by (simp add: crc_bit_def)
    then have "\<not> bit c (Suc i)" for i using fun_cong [OF bit_drop_bit_eq [of 1 c], of i] by simp
    then have "\<not> bit c i" for i using False by (cases i) simp_all
    then have "c = 0" by (intro bit_eqI) simp
    with \<open>c \<noteq> 0\<close> show False by simp
  qed
qed

lemma crc_bits_inj: "(crc_bit ^^ n) a = (crc_bit ^^ n) b \<Longrightarrow> a = b"
proof -
  have "(crc_bit ^^ n) c = 0 \<Longrightarrow> c = 0" for c by (induction n) (auto dest: crc_bit_eq_0)
  moreover assume "(crc_bit ^^ n) a = (crc_bit ^^ n) b"
  ultimately have "a XOR b = a XOR a" using crc_bits_xor [of n a b] by simp
  then show "a = b" unfolding xor_cancel by simp
qed

lemma crc32_fold_inj:
  "foldl crc32_step a bs = foldl crc32_step b bs \<Longrightarrow> a = b"
proof (induction bs arbitrary: a b)
  case (Cons x bs)
  then have "crc32_step a x = crc32_step b x" by simp
  then have "ucast x XOR a = ucast x XOR b" unfolding crc32_step_byte crc_byte_def by (metis crc_bits_inj xor.commute)
  then show ?case unfolding xor_cancel .
qed simp

lemma unat_ucast_u8: "unat (ucast x :: u32) = unat x" "unat x < 256" for x :: u8
proof -
  have "unat x < 2 ^ LENGTH(8)" by (rule unsigned_less)
  then show "unat x < 256" by simp
  then show "unat (ucast x :: u32) = unat x" by (simp add: unsigned_ucast_eq take_bit_nat_eq_self_iff)
qed

lemma ucast_u8_inj: "(ucast a :: u32) = ucast b \<Longrightarrow> a = b" for a b :: u8
  by (metis unat_ucast_u8(1) word_unat_eq_iff)

lemma crc32_fold_detects:
  assumes "foldl crc32_step c (xs @ a # ys) = foldl crc32_step c (xs @ b # ys)"
  shows "a = b"
proof -
  have "crc32_step (foldl crc32_step c xs) a = crc32_step (foldl crc32_step c xs) b"
    using assms crc32_fold_inj by simp
  then show ?thesis unfolding crc32_step_byte crc_byte_def by (auto dest!: crc_bits_inj intro: ucast_u8_inj simp: xor_cancel)
qed

section \<open>Adler-32 as sums\<close>

text \<open>The two sums of a message after the sums \<open>a\<close> and \<open>b\<close> of what came before.\<close>

definition adler_a :: "nat \<Rightarrow> u8 list \<Rightarrow> nat" where
  "adler_a a bs = (a + (\<Sum>x \<leftarrow> bs. unat x)) mod 65521"

definition adler_b :: "nat \<Rightarrow> nat \<Rightarrow> u8 list \<Rightarrow> nat" where
  "adler_b a b bs = (b + length bs * a + (\<Sum>i < length bs. (length bs - i) * unat (bs ! i))) mod 65521"

lemma adler_a_Cons: "adler_a a (x # bs) = adler_a (a + unat x) bs"
  by (simp add: adler_a_def add.assoc)

lemma adler_a_mod: "adler_a (a mod 65521) bs = adler_a a bs"
  by (simp add: adler_a_def mod_add_left_eq)

lemma adler_b_Cons: "adler_b a b (x # bs) = adler_b (a + unat x) (b + a + unat x) bs"
proof -
  have "(\<Sum>i < length (x # bs). (length (x # bs) - i) * unat ((x # bs) ! i)) =
      (Suc (length bs)) * unat x + (\<Sum>i < length bs. (length bs - i) * unat (bs ! i))"
    by (simp add: sum.lessThan_Suc_shift del: sum.lessThan_Suc)
  then show ?thesis by (simp add: adler_b_def algebra_simps)
qed

lemma adler_b_mod: "adler_b (a mod 65521) (b mod 65521) bs = adler_b a b bs"
  unfolding adler_b_def by (intro mod_add_cong mod_mult_cong) simp_all

lemma unat_add_mod_adler:
  assumes "unat x < 65536" "unat y < 65536"
  shows "unat ((x + y) mod 65521 :: u32) = (unat x + unat y) mod 65521"
  using assms by (simp add: unat_mod unat_plus_if')

lemma adler32_loop_step:
  assumes "unat s1 < 65536" "unat s2 < 65536"
  obtains t1 t2 where "adler32_loop s1 s2 (x # bs) = adler32_loop t1 t2 bs"
    "unat t1 = (unat s1 + unat x) mod 65521" "unat t2 = (unat s2 + unat s1 + unat x) mod 65521"
proof (rule that)
  let ?t1 = "(s1 + ucast x) mod 65521 :: u32" and ?t2 = "(s2 + (s1 + ucast x) mod 65521) mod 65521 :: u32"
  show "adler32_loop s1 s2 (x # bs) = adler32_loop ?t1 ?t2 bs" by (simp only: adler32_loop.simps Let_def)
  have "unat (ucast x :: u32) < 65536" using unat_ucast_u8 [of x] by linarith
  from unat_add_mod_adler [OF assms(1) this] show t1: "unat ?t1 = (unat s1 + unat x) mod 65521"
    unfolding unat_ucast_u8 .
  have "unat ?t1 < 65536" using mod_less_divisor [of 65521 "unat s1 + unat x"] unfolding t1 by simp
  from unat_add_mod_adler [OF assms(2) this] show "unat ?t2 = (unat s2 + unat s1 + unat x) mod 65521"
    unfolding t1 mod_add_right_eq add.assoc .
qed

lemma adler32_loop_sums:
  assumes "unat s1 < 65536" "unat s2 < 65536" "bs \<noteq> []"
  shows "unat (fst (adler32_loop s1 s2 bs)) = adler_a (unat s1) bs \<and>
    unat (snd (adler32_loop s1 s2 bs)) = adler_b (unat s1) (unat s2) bs"
  using assms
proof (induction bs arbitrary: s1 s2)
  case (Cons x bs)
  obtain t1 t2 where t: "adler32_loop s1 s2 (x # bs) = adler32_loop t1 t2 bs"
    "unat t1 = (unat s1 + unat x) mod 65521" "unat t2 = (unat s2 + unat s1 + unat x) mod 65521"
    using adler32_loop_step [OF Cons.prems(1,2)] by blast
  show ?case
  proof (cases "bs = []")
    case True
    then have "adler32_loop s1 s2 (x # bs) = (t1, t2)" using t(1) by simp
    then show ?thesis using True t(2,3) by (simp add: adler_a_Cons adler_b_Cons adler_a_def adler_b_def)
  next
    case False
    have "unat t1 < 65536" using mod_less_divisor [of 65521 "unat s1 + unat x"] unfolding t(2) by simp
    moreover have "unat t2 < 65536" using mod_less_divisor [of 65521 "unat s2 + unat s1 + unat x"] unfolding t(3) by simp
    ultimately have ih: "unat (fst (adler32_loop t1 t2 bs)) = adler_a (unat t1) bs \<and>
      unat (snd (adler32_loop t1 t2 bs)) = adler_b (unat t1) (unat t2) bs" using False by (rule Cons.IH)
    show ?thesis unfolding t(1) adler_a_Cons adler_b_Cons using ih unfolding t(2,3) adler_a_mod adler_b_mod .
  qed
qed simp

lemma adler32_loop_small:
  assumes "unat s1 < 65536" "unat s2 < 65536"
  shows "unat (fst (adler32_loop s1 s2 bs)) < 65536" "unat (snd (adler32_loop s1 s2 bs)) < 65536"
proof -
  have "adler_a (unat s1) bs < 65521" "adler_b (unat s1) (unat s2) bs < 65521"
    by (simp_all add: adler_a_def adler_b_def)
  then show "unat (fst (adler32_loop s1 s2 bs)) < 65536" "unat (snd (adler32_loop s1 s2 bs)) < 65536"
    using adler32_loop_sums [OF assms] assms by (cases "bs = []"; simp)+
qed

lemma adler32_loop_append:
  "adler32_loop s1 s2 (xs @ ys) = (let (t1, t2) = adler32_loop s1 s2 xs in adler32_loop t1 t2 ys)"
  by (induction xs arbitrary: s1 s2) (simp_all add: Let_def)

text \<open>The two sums are the halves of the checksum.\<close>

lemma adler_halves:
  assumes "unat a < 65536" "unat b < 65536"
  shows "(push_bit 16 b OR a) AND 0xFFFF = (a :: u32)" "drop_bit 16 (push_bit 16 b OR a) AND 0xFFFF = (b :: u32)"
proof -
  have ffff: "(0xFFFF :: u32) = mask 16" by (simp add: mask_eq_exp_minus_1)
  have "take_bit 16 a = a" "take_bit 16 b = b"
    using assms by (simp_all add: word_unat_eq_iff unsigned_take_bit_eq take_bit_nat_eq_self_iff)
  then have ab: "bit a i \<Longrightarrow> i < 16" "bit b i \<Longrightarrow> i < 16" for i by (metis bit_take_bit_iff)+
  then show "(push_bit 16 b OR a) AND 0xFFFF = a" "drop_bit 16 (push_bit 16 b OR a) AND 0xFFFF = b"
    unfolding ffff by (auto intro!: bit_eqI simp: bit_simps dest: ab)
qed

lemma adler_half_small: "unat (w AND 0xFFFF :: u32) < 65536"
proof -
  have ffff: "(0xFFFF :: u32) = mask 16" by (simp add: mask_eq_exp_minus_1)
  have "unat (take_bit 16 w) < 2 ^ 16" unfolding unsigned_take_bit_eq by (rule take_bit_nat_less_exp)
  then show ?thesis unfolding ffff take_bit_eq_mask by simp
qed

text \<open>Both checksums may be computed piece by piece.\<close>

definition len32 :: "u8 list \<Rightarrow> u32" where
  "len32 bs = of_nat (length bs)"

lemma unat_len32: "length bs < 2 ^ 32 \<Longrightarrow> unat (len32 bs) = length bs"
  by (simp add: len32_def unat_of_nat)

lemma crc32_append:
  assumes "length (xs @ ys) < 2 ^ 32"
  shows "crc32 (crc32 c (Some xs) (len32 xs)) (Some ys) (len32 ys) = crc32 c (Some (xs @ ys)) (len32 (xs @ ys))"
proof -
  have l: "unat (len32 xs) = length xs" "unat (len32 ys) = length ys" using assms by (simp_all add: unat_len32)
  show ?thesis unfolding crc32_def option.case l unat_len32 [OF assms] by (simp add: xor.assoc)
qed

text \<open>The value of \<^verbatim>\<open>adler32\<close> in its halves.\<close>

lemma adler32_parts:
  assumes "length bs < 2 ^ 32"
    and r_def: "r = adler32_loop (a AND 0xFFFF) (drop_bit 16 a AND 0xFFFF) bs"
  shows "adler32 a (Some bs) (len32 bs) = push_bit 16 (snd r) OR fst r"
    and "adler32 a (Some bs) (len32 bs) AND 0xFFFF = fst r"
    and "drop_bit 16 (adler32 a (Some bs) (len32 bs)) AND 0xFFFF = snd r"
proof -
  show eq: "adler32 a (Some bs) (len32 bs) = push_bit 16 (snd r) OR fst r"
    unfolding adler32_def option.case unat_len32 [OF assms(1)] r_def by (simp add: Let_def split: prod.split)
  note h = adler_halves [OF adler32_loop_small [OF adler_half_small adler_half_small, of a "drop_bit 16 a" bs, folded r_def]]
  show "adler32 a (Some bs) (len32 bs) AND 0xFFFF = fst r" unfolding eq by (rule h(1))
  show "drop_bit 16 (adler32 a (Some bs) (len32 bs)) AND 0xFFFF = snd r" unfolding eq by (rule h(2))
qed

lemma adler32_append:
  assumes "length (xs @ ys) < 2 ^ 32"
  shows "adler32 (adler32 a (Some xs) (len32 xs)) (Some ys) (len32 ys) = adler32 a (Some (xs @ ys)) (len32 (xs @ ys))"
proof -
  have l: "length xs < 2 ^ 32" "length ys < 2 ^ 32" using assms by simp_all
  show ?thesis unfolding adler32_parts(1) [OF l(2) refl] adler32_parts(2,3) [OF l(1) refl] adler32_parts(1) [OF assms refl]
    by (simp only: adler32_loop_append Let_def case_prod_unfold)
qed

lemma adler_a_detects:
  assumes "adler_a s (xs @ a # ys) = adler_a s (xs @ b # ys)"
  shows "a = b"
proof -
  define t where "t = s + (\<Sum>x \<leftarrow> xs. unat x) + (\<Sum>x \<leftarrow> ys. unat x)"
  have "(t + unat a) mod 65521 = (t + unat b) mod 65521" using assms by (simp add: adler_a_def t_def algebra_simps)
  then have "unat a = unat b"
    by (rule add_mod_cancel) (use unat_ucast_u8(2) [of a] unat_ucast_u8(2) [of b] in simp_all)
  then show ?thesis by (simp add: word_unat_eq_iff)
qed

section \<open>Properties\<close>

text \<open>
  C39. The table-driven \<^verbatim>\<open>crc32\<close> and \<^verbatim>\<open>crc32_z\<close> are the CRC of the polynomial: for every message the register is
  divided by 0xEDB88320 one bit at a time, eight times a byte, between the two inversions.
\<close>

theorem crc32_polynomial:
  "crc32 c (Some bs) n = foldl crc_byte (c XOR 0xFFFFFFFF) (take (unat n) bs) XOR 0xFFFFFFFF \<and>
   crc32_z c (Some bs) m = foldl crc_byte (c XOR 0xFFFFFFFF) (take (unat m) bs) XOR 0xFFFFFFFF"
proof -
  have "crc32_step = crc_byte" by (intro ext) (rule crc32_step_byte)
  then show ?thesis by (simp add: crc32_def crc32_z_def)
qed

text \<open>
  \<^verbatim>\<open>adler32\<close>, started with what it answers for a null pointer, is the pair of sums RFC 1950 defines: in the low
  half one plus the bytes, in the high half the sum of the low half after every byte, both modulo 65521. No
  intermediate sum overflows.
\<close>

lemma adler32_sums:
  assumes "length bs < 2 ^ 32"
  shows "unat (adler32 (adler32 x None 0) (Some bs) (len32 bs) AND 0xFFFF) = (1 + (\<Sum>b \<leftarrow> bs. unat b)) mod 65521 \<and>
    unat (drop_bit 16 (adler32 (adler32 x None 0) (Some bs) (len32 bs)) AND 0xFFFF) =
      (length bs + (\<Sum>i < length bs. (length bs - i) * unat (bs ! i))) mod 65521"
proof -
  have "adler32 x None 0 = 1" by (simp add: adler32_def)
  moreover have "(1 :: u32) AND 0xFFFF = 1" "drop_bit 16 (1 :: u32) AND 0xFFFF = 0" by simp_all
  ultimately show ?thesis using adler32_parts(2,3) [OF assms refl, of 1] adler32_loop_sums [of 1 0 bs]
    by (cases "bs = []") (simp_all add: adler_a_def adler_b_def)
qed

lemma adler32_sums_witness:
  "unat (adler32 (adler32 7 None 0) (Some [97, 98, 99]) (len32 [97, 98, 99]) AND 0xFFFF) = 295 \<and>
    unat (drop_bit 16 (adler32 (adler32 7 None 0) (Some [97, 98, 99]) (len32 [97, 98, 99])) AND 0xFFFF) = 589"
  using adler32_sums [of "[97, 98, 99]" 7] by (simp add: lessThan_nat_numeral lessThan_Suc)

text \<open>
  C40. Both checksums tell apart two messages of the same length that differ in one byte, whatever that byte is
  and wherever it stands.
\<close>

theorem checksums_detect:
  assumes "a \<noteq> b" "length (xs @ a # ys) < 2 ^ 32"
  shows "crc32 c (Some (xs @ a # ys)) (len32 (xs @ a # ys)) \<noteq> crc32 c (Some (xs @ b # ys)) (len32 (xs @ b # ys)) \<and>
    adler32 c (Some (xs @ a # ys)) (len32 (xs @ a # ys)) \<noteq> adler32 c (Some (xs @ b # ys)) (len32 (xs @ b # ys))"
proof
  have lb: "length (xs @ b # ys) < 2 ^ 32" using assms(2) by simp
  show "crc32 c (Some (xs @ a # ys)) (len32 (xs @ a # ys)) \<noteq> crc32 c (Some (xs @ b # ys)) (len32 (xs @ b # ys))"
    using crc32_fold_detects [of "c XOR 0xFFFFFFFF" xs a ys b] assms(1)
    unfolding crc32_def option.case unat_len32 [OF assms(2)] unat_len32 [OF lb]
    by (metis order_refl take_all xor.commute xor_cancel)
  have "fst (adler32_loop (c AND 0xFFFF) (drop_bit 16 c AND 0xFFFF) (xs @ a # ys)) \<noteq>
      fst (adler32_loop (c AND 0xFFFF) (drop_bit 16 c AND 0xFFFF) (xs @ b # ys))"
    using adler32_loop_sums [OF adler_half_small adler_half_small, of "xs @ a # ys" c "drop_bit 16 c"]
      adler32_loop_sums [OF adler_half_small adler_half_small, of "xs @ b # ys" c "drop_bit 16 c"]
      adler_a_detects [of _ xs a ys b] assms(1) by (metis append_is_Nil_conv list.distinct(1))
  then show "adler32 c (Some (xs @ a # ys)) (len32 (xs @ a # ys)) \<noteq> adler32 c (Some (xs @ b # ys)) (len32 (xs @ b # ys))"
    using adler32_parts(2) [OF assms(2) refl, of c] adler32_parts(2) [OF lb refl, of c] by metis
qed

theorem checksums_detect_witness:
  "crc32 0 (Some [1, 2, 3]) (len32 [1, 2, 3]) \<noteq> crc32 0 (Some [1, 9, 3]) (len32 [1, 9, 3]) \<and>
    adler32 0 (Some [1, 2, 3]) (len32 [1, 2, 3]) \<noteq> adler32 0 (Some [1, 9, 3]) (len32 [1, 9, 3])"
  using checksums_detect [of 2 9 "[1]" "[3]" 0] by simp

end
