(* ===== verification/Zdeflate.thy ===== *)
theory Zdeflate
  imports Zhuff Zsum
begin

text \<open>
  The compressor of the compression library (lib/libz/src/deflate.c): a state machine whose handlers move bytes from an
  input ring to an output ring, in blocks that are stored as they are, between a header and a checksum. The
  context's \<^verbatim>\<open>output\<close> ring is the one its bit stream writes to. The bytes behind \<^verbatim>\<open>next_in\<close> and those stored through
  \<^verbatim>\<open>next_out\<close> are lists. The two loops of \<^verbatim>\<open>deflate\<close> are partial functions: \<open>None\<close> is a call that does not return.
\<close>

section \<open>Model\<close>

definition Z_NO_FLUSH :: int where "Z_NO_FLUSH = 0"
definition Z_FINISH :: int where "Z_FINISH = 4"
definition Z_OK :: int where "Z_OK = 0"
definition Z_STREAM_END :: int where "Z_STREAM_END = 1"
definition Z_STREAM_ERROR :: int where "Z_STREAM_ERROR = - 2"
definition Z_MEM_ERROR :: int where "Z_MEM_ERROR = - 4"
definition Z_BEST_COMPRESSION :: int where "Z_BEST_COMPRESSION = 9"
definition Z_DEFAULT_COMPRESSION :: int where "Z_DEFAULT_COMPRESSION = - 1"
definition MAX_WINDOW_SIZE :: size_t where "MAX_WINDOW_SIZE = 32768"

definition ntohl :: "u32 \<Rightarrow> u32" where
  "ntohl v = push_bit 24 (v AND 0x000000FF) OR push_bit 8 (v AND 0x0000FF00)
     OR drop_bit 8 (v AND 0x00FF0000) OR drop_bit 24 (v AND 0xFF000000)"

datatype def_state =
    DEF_ZLHEAD | DEF_GZHEAD | DEF_BLKHDR | DEF_RAWHDR | DEF_RAWBLK | DEF_ZADLER | DEF_GZECRC | DEF_GZELEN | DEF_STREND

record def_ctx =
  d_inf_def :: int
  d_level :: int
  d_state :: def_state
  d_input :: ringbuf
  d_bs :: bitstream
  d_blk_len :: u32
  d_blk_pos :: u32
  d_last_blk :: bool
  d_is_gzip :: bool
  d_gz_crc :: u32
  d_gz_len :: u32
  d_zlib_adler :: u32

text \<open>A stream with the context it points to, \<open>'c\<close> for either direction.\<close>

record 'c z_stream =
  next_in :: "u8 list"
  avail_in :: size_t
  z_out :: "u8 list"
  avail_out :: size_t
  internal_state :: 'c

definition deflateInit :: "bool \<Rightarrow> 'c z_stream \<Rightarrow> int \<Rightarrow> int \<times> def_ctx option" where
  "deflateInit calloc_ok stream level =
     (if level < Z_DEFAULT_COMPRESSION \<or> level > Z_BEST_COMPRESSION then (Z_STREAM_ERROR, None)
      else let level = (if level = Z_DEFAULT_COMPRESSION then 6 else level)
           in if \<not> calloc_ok then (Z_MEM_ERROR, None)
              else (Z_OK, Some \<lparr>d_inf_def = 1, d_level = level, d_state = DEF_ZLHEAD,
                     d_input = z_ringbuf_init (replicate 32768 0) MAX_WINDOW_SIZE,
                     d_bs = \<lparr>bs_ring = z_ringbuf_init (replicate 4096 0) 4096, bs_pos = 0\<rparr>,
                     d_blk_len = 0, d_blk_pos = 0, d_last_blk = False, d_is_gzip = False,
                     d_gz_crc = crc32 0 None 0, d_gz_len = 0, d_zlib_adler = adler32 0 None 0\<rparr>))"

definition d_handle_zlhead :: "def_ctx \<Rightarrow> int \<times> def_ctx" where
  "d_handle_zlhead c =
     (if \<not> bitstream_has_write (d_bs c) 16 then (Z_NEED_MORE, c)
      else (Z_OK, c\<lparr>d_bs := bitstream_write (d_bs c) 0x9C78 16, d_state := DEF_BLKHDR\<rparr>))"

definition d_handle_gzhead :: "def_ctx \<Rightarrow> int \<times> def_ctx" where
  "d_handle_gzhead c =
     (if \<not> bitstream_has_write (d_bs c) (16 + 64) then (Z_NEED_MORE, c)
      else let b = bitstream_write (d_bs c) 0x8B1F 16;
               b = bitstream_write b 8 8;
               b = bitstream_write b 0 8;
               b = bitstream_write b 0 32;
               b = bitstream_write b 0 8;
               b = bitstream_write b 3 8
           in (Z_OK, c\<lparr>d_bs := b, d_state := DEF_BLKHDR\<rparr>))"

definition d_handle_blkhdr :: "int \<Rightarrow> def_ctx \<Rightarrow> int \<times> def_ctx" where
  "d_handle_blkhdr flush c =
     (if d_last_blk c then (Z_OK, c\<lparr>d_state := DEF_ZADLER\<rparr>)
      else if flush = Z_NO_FLUSH \<and> z_ringbuf_read_size (d_input c) < MAX_WINDOW_SIZE - 1 then (Z_NEED_MORE, c)
      else if \<not> bitstream_has_write (d_bs c) 3 then (Z_NEED_MORE, c)
      else let last = (flush = Z_FINISH);
               b = bitstream_write (d_bs c) (of_bool last) 1;
               b = bitstream_write b 0 2
           in (Z_OK, c\<lparr>d_blk_len := ucast (z_ringbuf_read_size (d_input c)), d_blk_pos := 0, d_last_blk := last,
                        d_bs := b, d_state := DEF_RAWHDR\<rparr>))"

definition d_handle_rawhdr :: "def_ctx \<Rightarrow> int \<times> def_ctx" where
  "d_handle_rawhdr c =
     (let req = (if bs_pos (d_bs c) \<noteq> 0 then 32 + (8 - bs_pos (d_bs c) mod 8) else 32)
      in if \<not> bitstream_has_write (d_bs c) req then (Z_NEED_MORE, c)
         else let raw_len = d_blk_len c; raw_nlen = NOT raw_len;
                  b = (if bs_pos (d_bs c) \<noteq> 0 then bitstream_write (d_bs c) 0 (8 - bs_pos (d_bs c) mod 8) else d_bs c);
                  b = bitstream_write b raw_len 16;
                  b = bitstream_write b raw_nlen 16
              in (Z_OK, c\<lparr>d_bs := b, d_state := DEF_RAWBLK\<rparr>))"

text \<open>\<^verbatim>\<open>cpy_len\<close> of a round: what is left, what the input has and what the output takes in one piece.\<close>

definition cpy_len :: "u32 \<Rightarrow> ringbuf \<Rightarrow> ringbuf \<Rightarrow> u32" where
  "cpy_len len input output =
     (let n = len; avail_in = ucast (z_ringbuf_contiguous_read_size input);
          n = (if n > avail_in then avail_in else n);
          avail_out = ucast (z_ringbuf_contiguous_write_size output)
      in if n > avail_out then avail_out else n)"

lemma cpy_len_le: "unat (cpy_len len input output) \<le> unat len"
  by (auto simp: cpy_len_def Let_def word_less_nat_alt)

lemma cpy_len_progress:
  assumes "cpy_len len input output \<noteq> 0"
  shows "unat (len - cpy_len len input output) < unat len"
proof -
  let ?n = "cpy_len len input output"
  have "unat ?n \<le> unat len" by (rule cpy_len_le)
  moreover from this have "unat (len - ?n) = unat len - unat ?n" by (simp add: unat_sub word_le_nat_alt)
  moreover have "0 < unat ?n" using assms by (simp add: unat_gt_0)
  ultimately show ?thesis by simp
qed

function d_rawblk_loop :: "bool \<Rightarrow> def_ctx \<Rightarrow> int \<times> def_ctx" where
  "d_rawblk_loop first c =
     (if d_blk_len c \<noteq> 0
      then let input = d_input c; output = bs_ring (d_bs c); n = cpy_len (d_blk_len c) input output
           in if n = 0 then (if first then Z_NEED_MORE else Z_OK, c)
              else let output = ring_put output (write_pos output)
                         (block_read (the (data input)) (unat (read_pos input)) (unat n))
                   in d_rawblk_loop False
                        (c\<lparr>d_input := z_ringbuf_advance_read input (ucast n),
                           d_bs := (d_bs c)\<lparr>bs_ring := z_ringbuf_advance_write output (ucast n)\<rparr>,
                           d_blk_len := d_blk_len c - n\<rparr>)
      else (Z_OK, c\<lparr>d_state := DEF_BLKHDR\<rparr>))"
  by pat_completeness auto
termination
  by (relation "measure (\<lambda>(first, c). unat (d_blk_len c))") (auto intro: cpy_len_progress)

definition d_handle_rawblk :: "def_ctx \<Rightarrow> int \<times> def_ctx" where
  "d_handle_rawblk c = d_rawblk_loop True c"

declare d_rawblk_loop.simps [simp del]

definition d_handle_zadler :: "def_ctx \<Rightarrow> int \<times> def_ctx" where
  "d_handle_zadler c =
     (let pos = bs_pos (d_bs c); req = 8 - pos mod 8
      in if pos \<noteq> 0 \<and> \<not> bitstream_has_write (d_bs c) req then (Z_NEED_MORE, c)
         else let c = (if pos \<noteq> 0 then c\<lparr>d_bs := bitstream_write (d_bs c) 0 req\<rparr> else c)
              in if \<not> bitstream_has_write (d_bs c) 32 then (Z_NEED_MORE, c)
                 else let c = c\<lparr>d_bs := bitstream_write (d_bs c) (ntohl (d_zlib_adler c)) 32\<rparr>
                      in if d_is_gzip c then (Z_OK, c\<lparr>d_state := DEF_GZECRC\<rparr>)
                         else (Z_OK, c\<lparr>d_state := DEF_STREND\<rparr>))"

definition d_handle_gzecrc :: "def_ctx \<Rightarrow> int \<times> def_ctx" where
  "d_handle_gzecrc c =
     (let pos = bs_pos (d_bs c); req = 8 - pos mod 8
      in if pos \<noteq> 0 \<and> \<not> bitstream_has_write (d_bs c) req then (Z_NEED_MORE, c)
         else let c = (if pos \<noteq> 0 then c\<lparr>d_bs := bitstream_write (d_bs c) 0 req\<rparr> else c)
              in if \<not> bitstream_has_write (d_bs c) 32 then (Z_NEED_MORE, c)
                 else (Z_OK, c\<lparr>d_bs := bitstream_write (d_bs c) (d_gz_crc c) 32, d_state := DEF_GZELEN\<rparr>))"

definition d_handle_gzelen :: "def_ctx \<Rightarrow> int \<times> def_ctx" where
  "d_handle_gzelen c =
     (if \<not> bitstream_has_write (d_bs c) 32 then (Z_NEED_MORE, c)
      else (Z_OK, c\<lparr>d_bs := bitstream_write (d_bs c) (d_gz_len c) 32, d_state := DEF_STREND\<rparr>))"

definition d_handle_strend :: "def_ctx \<Rightarrow> int \<times> def_ctx" where
  "d_handle_strend c = (Z_STREAM_END, c)"

text \<open>\<^verbatim>\<open>copy_in\<close> and \<^verbatim>\<open>copy_out\<close>: the count and the stream.\<close>

definition d_copy_in :: "def_ctx z_stream \<Rightarrow> size_t \<times> def_ctx z_stream" where
  "d_copy_in s =
     (let c = internal_state s; n = z_ringbuf_write_size (d_input c)
      in if n = 0 then (0, s)
         else let n = (if n > avail_in s then avail_in s else n)
              in if n = 0 then (0, s)
                 else (n, s\<lparr>internal_state := c\<lparr>d_input := snd (z_ringbuf_write (d_input c) (Some (next_in s)) n),
                          d_gz_len := d_gz_len c + ucast n,
                          d_gz_crc := crc32 (d_gz_crc c) (Some (next_in s)) (ucast n),
                          d_zlib_adler := adler32 (d_zlib_adler c) (Some (next_in s)) (ucast n)\<rparr>,
                        avail_in := avail_in s - n, next_in := drop (unat n) (next_in s)\<rparr>))"

definition d_copy_out :: "def_ctx z_stream \<Rightarrow> size_t \<times> def_ctx z_stream" where
  "d_copy_out s =
     (let c = internal_state s; output = bs_ring (d_bs c); n = z_ringbuf_read_size output
      in if n = 0 then (0, s)
         else let n = (if n > avail_out s then avail_out s else n)
              in if n = 0 then (0, s)
                 else let (k, bs, output) = z_ringbuf_read output n
                      in (n, s\<lparr>internal_state := c\<lparr>d_bs := (d_bs c)\<lparr>bs_ring := output\<rparr>\<rparr>,
                               avail_out := avail_out s - n, z_out := z_out s @ bs\<rparr>))"

definition d_handle :: "int \<Rightarrow> def_ctx \<Rightarrow> int \<times> def_ctx" where
  "d_handle flush c =
     (case d_state c of
        DEF_ZLHEAD \<Rightarrow> d_handle_zlhead c
      | DEF_GZHEAD \<Rightarrow> d_handle_gzhead c
      | DEF_BLKHDR \<Rightarrow> d_handle_blkhdr flush c
      | DEF_RAWHDR \<Rightarrow> d_handle_rawhdr c
      | DEF_RAWBLK \<Rightarrow> d_handle_rawblk c
      | DEF_ZADLER \<Rightarrow> d_handle_zadler c
      | DEF_GZECRC \<Rightarrow> d_handle_gzecrc c
      | DEF_GZELEN \<Rightarrow> d_handle_gzelen c
      | DEF_STREND \<Rightarrow> d_handle_strend c)"

text \<open>The inner loop runs handlers while they answer \<^verbatim>\<open>Z_OK\<close>.\<close>

partial_function (option) d_run :: "int \<Rightarrow> def_ctx \<Rightarrow> (int \<times> def_ctx) option" where
  "d_run flush c =
     (case d_handle flush c of (ret, c') \<Rightarrow> if ret = Z_OK then d_run flush c' else Some (ret, c'))"

text \<open>What the outer loop does after the handlers.\<close>

definition d_after :: "int \<Rightarrow> def_ctx z_stream \<Rightarrow> int \<times> def_ctx z_stream" where
  "d_after ret s =
     (let (ret, s) = (if avail_out s \<noteq> 0
                      then let (k, s) = d_copy_out s in (if k \<noteq> 0 \<and> ret = Z_NEED_MORE then Z_OK else ret, s)
                      else (ret, s))
      in if avail_in s \<noteq> 0
         then let (k, s) = d_copy_in s in (if k \<noteq> 0 \<and> ret = Z_NEED_MORE then Z_OK else ret, s)
         else (ret, s))"

partial_function (option) deflate_loop :: "int \<Rightarrow> int \<Rightarrow> def_ctx z_stream \<Rightarrow> (int \<times> def_ctx z_stream) option" where
  "deflate_loop flush ret s =
     (if ret = Z_OK
         \<and> (avail_in s \<noteq> 0 \<or> z_ringbuf_read_size (d_input (internal_state s)) \<noteq> 0)
         \<and> (avail_out s \<noteq> 0 \<or> z_ringbuf_write_size (bs_ring (d_bs (internal_state s))) \<noteq> 0)
      then let s = (if avail_in s \<noteq> 0 then snd (d_copy_in s) else s)
           in case d_run flush (internal_state s) of
                None \<Rightarrow> None
              | Some (ret, c) \<Rightarrow>
                  (case d_after ret (s\<lparr>internal_state := c\<rparr>) of (ret, s) \<Rightarrow> deflate_loop flush ret s)
      else Some (ret, s))"

definition deflate :: "def_ctx z_stream \<Rightarrow> int \<Rightarrow> (int \<times> def_ctx z_stream) option" where
  "deflate s flush =
     (if d_inf_def (internal_state s) = 0 then Some (Z_STREAM_ERROR, s)
      else case deflate_loop flush Z_OK s of
             None \<Rightarrow> None
           | Some (ret, s) \<Rightarrow>
               let ret = (if ret = Z_STREAM_END \<and> z_ringbuf_read_size (bs_ring (d_bs (internal_state s))) \<noteq> 0 then Z_OK else ret);
                   ret = (if ret = Z_NEED_MORE then Z_OK else ret)
               in Some (ret, s))"

text \<open>\<^verbatim>\<open>deflateEnd\<close> of a stream, whose context is \<open>None\<close> once it was ended.\<close>

definition deflateEnd :: "def_ctx option z_stream option \<Rightarrow> int \<times> def_ctx option z_stream option" where
  "deflateEnd stream =
     (case stream of
        None \<Rightarrow> (Z_STREAM_ERROR, stream)
      | Some s \<Rightarrow>
          (case internal_state s of
             None \<Rightarrow> (Z_STREAM_ERROR, stream)
           | Some c \<Rightarrow> if d_inf_def c = 0 then (Z_STREAM_ERROR, stream)
                       else (Z_OK, Some (s\<lparr>internal_state := None\<rparr>))))"

section \<open>The output stream\<close>

text \<open>The output ring has 4096 bytes and nothing was read from it yet; \<open>B\<close> are the bits written so far.\<close>

definition wout :: "bitstream \<Rightarrow> bool list \<Rightarrow> bool" where
  "wout bs B \<longleftrightarrow> wstream_ok bs \<and> wbits bs = B \<and> rb_size (bs_ring bs) = 4096 \<and> read_pos (bs_ring bs) = 0"

lemma length_wbits: "wstream_ok bs \<Longrightarrow> length (wbits bs) = 8 * length (contents (bs_ring bs)) + unat (bs_pos bs)"
  by (simp add: wbits_def wstream_ok_def)

lemma wout_room: "wout bs B \<Longrightarrow> wroom bs = 32760 - length B"
  using length_wbits [of bs] by (auto simp: wout_def wroom_def room_def)

lemma wout_pos: "wout bs B \<Longrightarrow> unat (bs_pos bs) = length B mod 8"
  using length_wbits [of bs] by (auto simp: wout_def wstream_ok_def)

lemma wout_bound: "wout bs B \<Longrightarrow> length B \<le> 32760"
proof -
  assume w: "wout bs B"
  then have wf: "ringbuf_wf (bs_ring bs)" by (simp add: wout_def wstream_ok_def zring_ok_def)
  show ?thesis using w length_wbits [of bs] contents_bound [OF wf]
    by (auto simp: wout_def wstream_ok_def room_def)
qed

lemma wout_has:
  assumes "wout bs B" "n < 2 ^ 64"
  shows "bitstream_has_write bs (of_nat n) \<longleftrightarrow> length B + n \<le> 32760"
  using bitstream_has_write_iff [of bs n] assms wout_room [OF assms(1)] wout_bound [OF assms(1)] by (auto simp: wout_def)

lemma putbit_read_pos: "read_pos (bs_ring (bitstream_putbit bs p b)) = read_pos (bs_ring bs)"
  by (simp add: bitstream_putbit_def ring_put_def Let_def)

lemma bitstream_write_read_pos: "read_pos (bs_ring (bitstream_write bs v n)) = read_pos (bs_ring bs)"
proof -
  have "read_pos (bs_ring (foldl (\<lambda>bs i. bitstream_putbit bs (of_nat i) (ucast (drop_bit i v))) bs xs)) = read_pos (bs_ring bs)" for xs
    by (induction xs arbitrary: bs) (simp_all add: putbit_read_pos)
  then show ?thesis by (simp add: bitstream_write_def z_ringbuf_advance_write_def Let_def)
qed

lemma wout_write:
  assumes "wout bs B" "length B + n \<le> 32760" "n \<le> 32"
  shows "wout (bitstream_write bs v (of_nat n)) (B @ map (bit v) [0..<n])"
  using bitstream_write_wbits [of bs n _ v, OF _ _ assms(3) refl] assms wout_room [OF assms(1)]
  by (simp add: wout_def bitstream_write_read_pos)

lemmas wout_writes = wout_write [where n = 1, simplified] wout_write [where n = 2, simplified]
  wout_write [where n = 16, simplified] wout_write [where n = 32, simplified]

text \<open>Bytes determine their bits.\<close>

lemma byte_bits_inj: "byte_bits a = byte_bits b \<Longrightarrow> a = b"
proof -
  assume "byte_bits a = byte_bits b"
  then have "\<forall>n < 8. bit a n = bit b n" by (simp add: byte_bits_def)
  then show "a = b" unfolding bits8 by simp
qed

lemma bits_of_inj: "bits_of xs = bits_of ys \<Longrightarrow> xs = ys"
proof (induction xs arbitrary: ys)
  case Nil
  then have "length (bits_of ys) = 0" by simp
  then show ?case by simp
next
  case (Cons x xs)
  then have "length (bits_of ys) = 8 + 8 * length xs" by (metis bits_of_simps(2,4) length_append length_bits_of)
  then obtain y ys' where y: "ys = y # ys'" by (cases ys) simp_all
  from Cons.prems have "byte_bits x = byte_bits y" "bits_of xs = bits_of ys'" unfolding y by simp_all
  with Cons.IH y show ?case by (auto dest: byte_bits_inj)
qed

lemma wout_contents: "wout bs (bits_of xs) \<Longrightarrow> contents (bs_ring bs) = xs \<and> bs_pos bs = 0"
  using write_pos_0 [of bs] by (auto simp: wout_def unat_eq_0 dest: bits_of_inj)

lemma map_bit_16: "map (bit v) [0..<16] = bits_of [ucast v, ucast (drop_bit 8 v)]" for v :: u32
  by (rule nth_equalityI) (auto simp: bits_of_nth bit_simps nth_append byte_bits_def)

lemma map_bit_32: "map (bit v) [0..<32] = bits_of [ucast v, ucast (drop_bit 8 v), ucast (drop_bit 16 v), ucast (drop_bit 24 v)]" for v :: u32
  by (rule nth_equalityI) (auto simp: bits_of_nth bit_simps nth_append byte_bits_def)

lemma ntohl_bytes:
  "ucast (ntohl v) = (ucast (drop_bit 24 v) :: u8)" "ucast (drop_bit 8 (ntohl v)) = (ucast (drop_bit 16 v) :: u8)"
  "ucast (drop_bit 16 (ntohl v)) = (ucast (drop_bit 8 v) :: u8)" "ucast (drop_bit 24 (ntohl v)) = (ucast v :: u8)"
  unfolding bits8 by (simp_all add: ntohl_def bit_simps)

section \<open>A stored stream\<close>

text \<open>
  What RFC 1950 and RFC 1951 prescribe for data in one stored block: the header, the block header with the final
  flag, the length and its complement, the data, and the checksum with its most significant byte first.
\<close>

definition stored_head :: "u8 list \<Rightarrow> u8 list" where
  "stored_head xs = [0x78, 0x9C, 1, ucast (len32 xs), ucast (drop_bit 8 (len32 xs)),
     ucast (NOT (len32 xs)), ucast (drop_bit 8 (NOT (len32 xs)))]"

definition adler_tail :: "u8 list \<Rightarrow> u8 list" where
  "adler_tail xs =
     (let a = adler32 1 (Some xs) (len32 xs)
      in [ucast (drop_bit 24 a), ucast (drop_bit 16 a), ucast (drop_bit 8 a), ucast a])"

definition zlib_stored :: "u8 list \<Rightarrow> u8 list" where
  "zlib_stored xs = stored_head xs @ xs @ adler_tail xs"

section \<open>What the handlers write\<close>

lemma head_bits:
  "map (bit (0x9C78 :: u32)) [0..<16] @ map (bit (1 :: u32)) [0..<1] @ map (bit (0 :: u32)) [0..<2] @ map (bit (0 :: u32)) [0..<5]
     = bits_of [0x78, 0x9C, 1]"
  by (simp add: byte_bits_def upt_rec)

lemma stored_head_bits:
  "bits_of (stored_head xs) = map (bit (0x9C78 :: u32)) [0..<16] @ map (bit (1 :: u32)) [0..<1] @ map (bit (0 :: u32)) [0..<2] @
     map (bit (0 :: u32)) [0..<5] @ map (bit (len32 xs)) [0..<16] @ map (bit (NOT (len32 xs))) [0..<16]"
  unfolding map_bit_16 [of "len32 xs"] map_bit_16 [of "NOT (len32 xs)"] stored_head_def using head_bits by simp

lemma adler_tail_bits: "bits_of (adler_tail xs) = map (bit (ntohl (adler32 1 (Some xs) (len32 xs)))) [0..<32]"
  unfolding map_bit_32 ntohl_bytes by (simp add: adler_tail_def Let_def)

lemma d_zlhead_out:
  assumes "wout (d_bs c) B" "length B + 16 \<le> 32760"
  shows "\<exists>bs. d_handle_zlhead c = (Z_OK, c\<lparr>d_bs := bs, d_state := DEF_BLKHDR\<rparr>) \<and> wout bs (B @ map (bit (0x9C78 :: u32)) [0..<16])"
  using wout_has [OF assms(1), of 16] wout_writes(3) [OF assms(1), of "0x9C78"] assms(2)
  by (intro exI [of _ "bitstream_write (d_bs c) 0x9C78 16"]) (simp add: d_handle_zlhead_def)

lemma d_blkhdr_out:
  assumes "wout (d_bs c) B" "length B + 3 \<le> 32760" "\<not> d_last_blk c"
  shows "\<exists>bs. d_handle_blkhdr Z_FINISH c =
      (Z_OK, c\<lparr>d_blk_len := ucast (z_ringbuf_read_size (d_input c)), d_blk_pos := 0, d_last_blk := True, d_bs := bs, d_state := DEF_RAWHDR\<rparr>) \<and>
    wout bs (B @ map (bit (1 :: u32)) [0..<1] @ map (bit (0 :: u32)) [0..<2])"
proof -
  have w: "wout (bitstream_write (d_bs c) 1 1) (B @ map (bit (1 :: u32)) [0..<1])"
    using wout_write [OF assms(1), of 1 1] assms(2) by simp
  then have "wout (bitstream_write (bitstream_write (d_bs c) 1 1) 0 2) ((B @ map (bit (1 :: u32)) [0..<1]) @ map (bit (0 :: u32)) [0..<2])"
    using wout_write [OF w, of 2 0] assms(2) by simp
  then show ?thesis using wout_has [OF assms(1), of 3] assms(2,3)
    by (intro exI [of _ "bitstream_write (bitstream_write (d_bs c) 1 1) 0 2"])
      (simp add: d_handle_blkhdr_def Z_FINISH_def Z_NO_FLUSH_def)
qed

lemma d_rawhdr_out:
  assumes "wout (d_bs c) B" "length B mod 8 = 3" "length B + 37 \<le> 32760"
  shows "\<exists>bs. d_handle_rawhdr c = (Z_OK, c\<lparr>d_bs := bs, d_state := DEF_RAWBLK\<rparr>) \<and>
    wout bs (B @ map (bit (0 :: u32)) [0..<5] @ map (bit (d_blk_len c)) [0..<16] @ map (bit (NOT (d_blk_len c))) [0..<16])"
proof -
  let ?b0 = "bitstream_write (d_bs c) 0 5"
  let ?b1 = "bitstream_write ?b0 (d_blk_len c) 16"
  have pos: "bs_pos (d_bs c) = 3" using wout_pos [OF assms(1)] assms(2) by (simp add: word_unat_eq_iff)
  have w0: "wout ?b0 (B @ map (bit (0 :: u32)) [0..<5])" using wout_write [OF assms(1), of 5 0] assms(3) by simp
  have w1: "wout ?b1 ((B @ map (bit (0 :: u32)) [0..<5]) @ map (bit (d_blk_len c)) [0..<16])"
    using wout_writes(3) [OF w0] assms(3) by simp
  have "wout (bitstream_write ?b1 (NOT (d_blk_len c)) 16)
      (((B @ map (bit (0 :: u32)) [0..<5]) @ map (bit (d_blk_len c)) [0..<16]) @ map (bit (NOT (d_blk_len c))) [0..<16])"
    using wout_writes(3) [OF w1] assms(3) by simp
  moreover have "bitstream_has_write (d_bs c) 37" using wout_has [OF assms(1), of 37] assms(3) by simp
  ultimately show ?thesis
    by (intro exI [of _ "bitstream_write ?b1 (NOT (d_blk_len c)) 16"]) (simp add: d_handle_rawhdr_def pos Let_def)
qed

lemma d_rawblk_round:
  assumes "d_blk_len c \<noteq> 0" "cpy_len (d_blk_len c) (d_input c) (bs_ring (d_bs c)) = n" "n \<noteq> 0"
  shows "d_rawblk_loop first c =
    d_rawblk_loop False (c\<lparr>d_input := z_ringbuf_advance_read (d_input c) (ucast n),
      d_bs := (d_bs c)\<lparr>bs_ring := z_ringbuf_advance_write (ring_put (bs_ring (d_bs c)) (write_pos (bs_ring (d_bs c)))
        (block_read (the (data (d_input c))) (unat (read_pos (d_input c))) (unat n))) (ucast n)\<rparr>,
      d_blk_len := d_blk_len c - n\<rparr>)"
  using assms by (subst d_rawblk_loop.simps) (simp add: Let_def)

lemma d_rawblk_done: "d_blk_len c = 0 \<Longrightarrow> d_rawblk_loop first c = (Z_OK, c\<lparr>d_state := DEF_BLKHDR\<rparr>)"
  by (subst d_rawblk_loop.simps) simp

lemma z_advance_read_all:
  assumes "zring_ok rb" "n = length (contents rb)"
  shows "contents (z_ringbuf_advance_read rb (of_nat n)) = []" "zring_ok (z_ringbuf_advance_read rb (of_nat n))"
  using advance_read_contents [OF assms(1), of n] assms(2) by simp_all

text \<open>A block that fits the output goes there in one piece.\<close>

lemma d_rawblk_out:
  assumes "wout (d_bs c) B" "8 dvd length B" "zring_ok (d_input c)" "read_pos (d_input c) = 0" "contents (d_input c) = xs"
    and "d_blk_len c = len32 xs" "xs \<noteq> []" "length B + 8 * length xs \<le> 32760"
  shows "\<exists>bs rb. d_handle_rawblk c = (Z_OK, c\<lparr>d_input := rb, d_bs := bs, d_blk_len := 0, d_state := DEF_BLKHDR\<rparr>) \<and>
    wout bs (B @ bits_of xs) \<and> zring_ok rb \<and> contents rb = []"
proof -
  let ?in = "d_input c" and ?out = "bs_ring (d_bs c)" and ?n = "length xs"
  have wf: "ringbuf_wf ?in" "ringbuf_wf ?out" "zring_ok ?out" "pow2_size ?in" "pow2_size ?out"
    using assms(1,3) by (simp_all add: wout_def wstream_ok_def zring_ok_def)
  have n: "?n \<le> 4095" "?n < 2 ^ 32" using assms(8) by simp_all
  have un: "unat (len32 xs) = ?n" "unat (of_nat ?n :: size_t) = ?n" using n by (simp_all add: unat_len32 unat_of_nat64)
  have z: "unat (bs_pos (d_bs c)) = 0" "wbits (d_bs c) = bits_of (contents ?out)"
    using write_pos_0 [of "d_bs c"] assms(1,2) by (simp_all add: wout_def)
  have rd: "unat (z_ringbuf_contiguous_read_size ?in) = ?n"
    using contiguous_read_cases [OF wf(1)] length_contents [OF wf(1)] assms(4,5) by (simp add: z_sizes_kernel)
  have room: "unat (z_ringbuf_contiguous_write_size ?out) = 4095 - length (contents ?out)"
    using contiguous_write_cases [OF wf(2)] length_contents [OF wf(2)] assms(1) by (simp add: z_sizes_kernel wout_def)
  have "length B = 8 * length (contents ?out)" using arg_cong [OF z(2), of length] assms(1) by (simp add: wout_def)
  then have fit: "?n \<le> 4095 - length (contents ?out)" using assms(8) by simp
  have len: "cpy_len (d_blk_len c) ?in ?out = len32 xs"
  proof -
    have "unat (ucast (z_ringbuf_contiguous_read_size ?in) :: u32) = ?n"
      "unat (ucast (z_ringbuf_contiguous_write_size ?out) :: u32) = 4095 - length (contents ?out)"
      using rd room n by (simp_all add: unsigned_ucast_eq take_bit_nat_eq_self)
    then show ?thesis using un(1) fit by (simp add: cpy_len_def assms(6) word_less_nat_alt Let_def)
  qed
  have nz: "len32 xs \<noteq> 0" using un(1) assms(7) by (metis length_0_conv unat_0)
  have uc: "ucast (len32 xs) = (of_nat ?n :: size_t)"
    using un n by (simp add: word_unat_eq_iff unsigned_ucast_eq take_bit_nat_eq_self)
  obtain d where d: "data ?in = Some d" using wf(1) by (rule ringbuf_wfE)
  have blk: "block_read (the (data ?in)) (unat (read_pos ?in)) ?n = xs"
    using ringbuf_read_round [OF wf(1), of "of_nat ?n"] rd un(2) assms(5) d
    by (simp add: z_sizes_kernel ringbuf_pull_def)
  let ?out2 = "ringbuf_poke ?out xs"
  have "ring_put ?out (write_pos ?out) xs = ?out2" by (simp add: ring_put_def ringbuf_poke_def)
  moreover have p2: "pow2_size ?out2" using wf(5) by (simp add: ringbuf_poke_def)
  moreover note wr = ringbuf_write_round [OF wf(2), of "of_nat ?n" xs]
  ultimately have out: "zring_ok (z_ringbuf_advance_write ?out2 (of_nat ?n))"
    "contents (z_ringbuf_advance_write ?out2 (of_nat ?n)) = contents ?out @ xs"
    "rb_size (z_ringbuf_advance_write ?out2 (of_nat ?n)) = 4096" "read_pos (z_ringbuf_advance_write ?out2 (of_nat ?n)) = 0"
    using room fit un(2) z_advance_kernel(1) [OF p2, of "of_nat ?n"] assms(1)
    by (simp_all add: z_sizes_kernel zring_ok_def wout_def ringbuf_advance_write_def ringbuf_poke_def pow2_size_def)
  let ?bs = "(d_bs c)\<lparr>bs_ring := z_ringbuf_advance_write ?out2 (of_nat ?n)\<rparr>"
  have "wout ?bs (B @ bits_of xs)"
    using out z assms(1) by (simp add: wout_def wstream_ok_def wbits_def)
  moreover note z_advance_read_all [OF assms(3), of ?n]
  moreover have "d_handle_rawblk c = (Z_OK, c\<lparr>d_input := z_ringbuf_advance_read ?in (of_nat ?n), d_bs := ?bs, d_blk_len := 0, d_state := DEF_BLKHDR\<rparr>)"
    unfolding d_handle_rawblk_def using nz len d_rawblk_round [of c "len32 xs" True]
    by (simp add: assms(6) uc un(1) blk ring_put_def ringbuf_poke_def d_rawblk_done)
  ultimately show ?thesis using assms(5)
    by (intro exI [of _ ?bs] exI [of _ "z_ringbuf_advance_read ?in (of_nat ?n)"]) simp
qed

lemma d_zadler_out:
  assumes "wout (d_bs c) B" "8 dvd length B" "length B + 32 \<le> 32760" "\<not> d_is_gzip c"
  shows "\<exists>bs. d_handle_zadler c = (Z_OK, c\<lparr>d_bs := bs, d_state := DEF_STREND\<rparr>) \<and>
    wout bs (B @ map (bit (ntohl (d_zlib_adler c))) [0..<32])"
proof -
  have "bs_pos (d_bs c) = 0" using wout_pos [OF assms(1)] assms(2) by (simp add: unat_eq_0 [symmetric])
  then show ?thesis using wout_has [OF assms(1), of 32] wout_writes(4) [OF assms(1)] assms(3,4)
    by (intro exI [of _ "bitstream_write (d_bs c) (ntohl (d_zlib_adler c)) 32"]) (simp add: d_handle_zadler_def Let_def)
qed

lemma d_zadler_full:
  assumes "wout (d_bs c) B" "8 dvd length B" "32760 < length B + 32"
  shows "d_handle_zadler c = (Z_NEED_MORE, c)"
proof -
  have "bs_pos (d_bs c) = 0" using wout_pos [OF assms(1)] assms(2) by (simp add: unat_eq_0 [symmetric])
  then show ?thesis using wout_has [OF assms(1), of 32] assms(3) by (simp add: d_handle_zadler_def Let_def)
qed

section \<open>One call\<close>

lemma d_run_step: "d_handle flush c = (Z_OK, c') \<Longrightarrow> d_run flush c = d_run flush c'"
  by (subst d_run.simps) simp

lemma d_run_stop: "d_handle flush c = (ret, c') \<Longrightarrow> ret \<noteq> Z_OK \<Longrightarrow> d_run flush c = Some (ret, c')"
  by (subst d_run.simps) simp

text \<open>The handlers up to the checksum.\<close>

lemma d_run_stored:
  assumes "d_state c = DEF_ZLHEAD" "wout (d_bs c) []" "\<not> d_last_blk c" "zring_ok (d_input c)" "read_pos (d_input c) = 0"
    and "contents (d_input c) = xs" "xs \<noteq> []" "length xs \<le> 4088"
  obtains c' where "d_run Z_FINISH c = d_run Z_FINISH c'" "d_state c' = DEF_ZADLER" "wout (d_bs c') (bits_of (stored_head xs @ xs))"
    "zring_ok (d_input c')" "contents (d_input c') = []" "d_is_gzip c' = d_is_gzip c" "d_zlib_adler c' = d_zlib_adler c"
    "d_inf_def c' = d_inf_def c"
proof -
  have wf: "ringbuf_wf (d_input c)" using assms(4) by (simp add: zring_ok_def)
  have sz: "(ucast (z_ringbuf_read_size (d_input c)) :: u32) = len32 xs"
    using unat_ringbuf_read_size [OF wf] assms(6,8) unat_len32 [of xs]
    by (simp add: word_unat_eq_iff unsigned_ucast_eq z_sizes_kernel take_bit_nat_eq_self)
  obtain b1 where 1: "d_handle_zlhead c = (Z_OK, c\<lparr>d_bs := b1, d_state := DEF_BLKHDR\<rparr>)" "wout b1 (map (bit (0x9C78 :: u32)) [0..<16])"
    using d_zlhead_out [OF assms(2)] by auto
  let ?c1 = "c\<lparr>d_bs := b1, d_state := DEF_BLKHDR\<rparr>"
  have w1: "wout (d_bs ?c1) (map (bit (0x9C78 :: u32)) [0..<16])" using 1(2) by simp
  obtain b2 where 2: "d_handle_blkhdr Z_FINISH ?c1 = (Z_OK, ?c1\<lparr>d_blk_len := len32 xs, d_blk_pos := 0, d_last_blk := True, d_bs := b2, d_state := DEF_RAWHDR\<rparr>)"
      "wout b2 (map (bit (0x9C78 :: u32)) [0..<16] @ map (bit (1 :: u32)) [0..<1] @ map (bit (0 :: u32)) [0..<2])"
    using d_blkhdr_out [OF w1] assms(3) sz by auto
  let ?c2 = "?c1\<lparr>d_blk_len := len32 xs, d_blk_pos := 0, d_last_blk := True, d_bs := b2, d_state := DEF_RAWHDR\<rparr>"
  have w2: "wout (d_bs ?c2) (map (bit (0x9C78 :: u32)) [0..<16] @ map (bit (1 :: u32)) [0..<1] @ map (bit (0 :: u32)) [0..<2])"
    using 2(2) by simp
  obtain b3 where 3: "d_handle_rawhdr ?c2 = (Z_OK, ?c2\<lparr>d_bs := b3, d_state := DEF_RAWBLK\<rparr>)"
      "wout b3 ((map (bit (0x9C78 :: u32)) [0..<16] @ map (bit (1 :: u32)) [0..<1] @ map (bit (0 :: u32)) [0..<2]) @
         map (bit (0 :: u32)) [0..<5] @ map (bit (len32 xs)) [0..<16] @ map (bit (NOT (len32 xs))) [0..<16])"
    using d_rawhdr_out [OF w2] by auto
  let ?c3 = "?c2\<lparr>d_bs := b3, d_state := DEF_RAWBLK\<rparr>"
  have w3: "wout (d_bs ?c3) (bits_of (stored_head xs))" using 3(2) by (simp add: stored_head_bits)
  obtain b4 rb where 4: "d_handle_rawblk ?c3 = (Z_OK, ?c3\<lparr>d_input := rb, d_bs := b4, d_blk_len := 0, d_state := DEF_BLKHDR\<rparr>)"
      "wout b4 (bits_of (stored_head xs) @ bits_of xs)" "zring_ok rb" "contents rb = []"
    using d_rawblk_out [OF w3, of xs] assms(4-8) by (auto simp: stored_head_def)
  let ?c4 = "?c3\<lparr>d_input := rb, d_bs := b4, d_blk_len := 0, d_state := DEF_BLKHDR\<rparr>"
  have "d_run Z_FINISH c = d_run Z_FINISH ?c1" by (rule d_run_step) (simp add: d_handle_def assms(1) 1(1))
  also have "\<dots> = d_run Z_FINISH ?c2" by (rule d_run_step) (use 2(1) in \<open>simp add: d_handle_def\<close>)
  also have "\<dots> = d_run Z_FINISH ?c3" by (rule d_run_step) (use 3(1) in \<open>simp add: d_handle_def\<close>)
  also have "\<dots> = d_run Z_FINISH ?c4" by (rule d_run_step) (use 4(1) in \<open>simp add: d_handle_def\<close>)
  also have "\<dots> = d_run Z_FINISH (?c4\<lparr>d_state := DEF_ZADLER\<rparr>)"
    by (rule d_run_step) (simp add: d_handle_def d_handle_blkhdr_def)
  finally show ?thesis using 4(2-4) by (intro that [of "?c4\<lparr>d_state := DEF_ZADLER\<rparr>"]) simp_all
qed

text \<open>\<^verbatim>\<open>copy_in\<close> into the empty input ring, and \<^verbatim>\<open>copy_out\<close> of everything the output holds.\<close>

lemma z_write_read_pos: "read_pos (snd (z_ringbuf_write rb src n)) = read_pos rb"
proof -
  have "read_pos (snd (z_ringbuf_write_loop rb src n wr)) = read_pos rb" for wr
  proof (induction rb src n wr rule: z_ringbuf_write_loop.induct)
    case (1 rb src n wr)
    then show ?case
      by (subst z_ringbuf_write_loop.simps) (auto simp: Let_def z_ringbuf_advance_write_def ring_put_def)
  qed
  then show ?thesis by (simp add: z_ringbuf_write_def)
qed

lemma d_copy_in_all:
  assumes "zring_ok (d_input (internal_state s))" "contents (d_input (internal_state s)) = []"
    and "rb_size (d_input (internal_state s)) = 32768" "next_in s = xs" "unat (avail_in s) = length xs" "xs \<noteq> []" "length xs < 32768"
  obtains rb where "d_copy_in s = (avail_in s, s\<lparr>internal_state := (internal_state s)\<lparr>d_input := rb,
        d_gz_len := d_gz_len (internal_state s) + len32 xs,
        d_gz_crc := crc32 (d_gz_crc (internal_state s)) (Some xs) (len32 xs),
        d_zlib_adler := adler32 (d_zlib_adler (internal_state s)) (Some xs) (len32 xs)\<rparr>,
      avail_in := 0, next_in := []\<rparr>)"
    "zring_ok rb" "contents rb = xs" "read_pos rb = read_pos (d_input (internal_state s))"
proof -
  let ?c = "internal_state s" and ?n = "avail_in s"
  have wf: "ringbuf_wf (d_input ?c)" using assms(1) by (simp add: zring_ok_def)
  obtain k rb where w: "z_ringbuf_write (d_input ?c) (Some xs) ?n = (k, rb)" by fastforce
  from z_ring.put_law [OF assms(1) _ w] assms have ring: "zring_ok rb" "contents rb = xs"
    by (simp_all add: ring_capacity_def)
  have sz: "unat (z_ringbuf_write_size (d_input ?c)) = 32767"
    using unat_ringbuf_write_size [OF wf] assms(2,3) by (simp add: z_sizes_kernel room_def)
  have nz: "z_ringbuf_write_size (d_input ?c) \<noteq> 0" "?n \<noteq> 0" "\<not> z_ringbuf_write_size (d_input ?c) < ?n"
    using sz assms(5,6,7) by (auto simp: word_less_nat_alt)
  have uc: "(ucast ?n :: u32) = len32 xs"
    using assms(5,7) unat_len32 [of xs] by (simp add: word_unat_eq_iff unsigned_ucast_eq take_bit_nat_eq_self)
  have n: "(if ?n < z_ringbuf_write_size (d_input ?c) then ?n else z_ringbuf_write_size (d_input ?c)) = ?n"
    using nz(3) by (auto simp: not_less_iff_gr_or_eq)
  have "drop (unat ?n) xs = []" using assms(5) by simp
  with w nz uc n ring z_write_read_pos [of "d_input ?c" "Some xs" ?n] show ?thesis
    by (intro that [of rb]) (simp_all add: d_copy_in_def Let_def assms(4))
qed

lemma d_copy_out_all:
  assumes "wout (d_bs (internal_state s)) (bits_of ys)" "ys \<noteq> []" "length ys \<le> unat (avail_out s)"
  obtains rb where "d_copy_out s = (of_nat (length ys), s\<lparr>internal_state := (internal_state s)\<lparr>d_bs := (d_bs (internal_state s))\<lparr>bs_ring := rb\<rparr>\<rparr>,
      avail_out := avail_out s - of_nat (length ys), z_out := z_out s @ ys\<rparr>)"
    "zring_ok rb" "contents rb = []" "rb_size rb = 4096"
proof -
  let ?c = "internal_state s" let ?rb = "bs_ring (d_bs ?c)"
  have ct: "contents ?rb = ys" and ok: "zring_ok ?rb" "ringbuf_wf ?rb"
    using wout_contents [OF assms(1)] assms(1) by (simp_all add: wout_def wstream_ok_def zring_ok_def)
  have sz: "z_ringbuf_read_size ?rb = of_nat (length ys)" "unat (z_ringbuf_read_size ?rb) = length ys"
    using unat_ringbuf_read_size [OF ok(2)] ct by (simp_all add: z_sizes_kernel word_unat_eq_iff unat_of_nat64 contents_bound)
      (metis unat_of_nat64 unat_lt64)
  obtain k bs rb where r: "z_ringbuf_read ?rb (of_nat (length ys)) = (k, bs, rb)" by (metis prod_cases3)
  from z_ring.get_law [OF ok(1) r] ct sz have rb: "zring_ok rb" "bs = ys" "contents rb = []" by simp_all
  have "rb_size rb = 4096" using ringbuf_read_ok [OF ok(2), of "of_nat (length ys)"] r assms(1)
    by (auto simp: z_read_eq [OF ok(1)] wout_def)
  moreover have "z_ringbuf_read_size ?rb \<noteq> 0" "\<not> avail_out s < z_ringbuf_read_size ?rb"
    using sz(2) assms(2,3) by (auto simp: word_less_nat_alt)
  ultimately show ?thesis using r rb sz(1) by (intro that [of rb]) (simp_all add: d_copy_out_def Let_def)
qed

text \<open>The state after \<^verbatim>\<open>deflateInit\<close>.\<close>

definition def_new :: "def_ctx \<Rightarrow> bool" where
  "def_new c \<longleftrightarrow> (\<exists>(s :: def_ctx z_stream) level. deflateInit True s level = (Z_OK, Some c))"

lemma z_init_ok:
  assumes "k < 60"
  shows "zring_ok (z_ringbuf_init (replicate (2 ^ k) 0) (2 ^ k))" "contents (z_ringbuf_init (replicate (2 ^ k) 0) (2 ^ k)) = []"
proof -
  have "(2 :: nat) ^ k < 2 ^ 64" using assms by (intro power_strict_increasing) simp_all
  then have "unat (2 ^ k :: size_t) = 2 ^ k" using unat_of_nat64 [of "2 ^ k"] by simp
  then show "zring_ok (z_ringbuf_init (replicate (2 ^ k) 0) (2 ^ k))"
    using assms by (auto simp: zring_ok_def ringbuf_wf_def pow2_size_def z_ringbuf_init_def word_less_nat_alt)
  show "contents (z_ringbuf_init (replicate (2 ^ k) 0) (2 ^ k)) = []"
    by (simp add: contents_def z_ringbuf_init_def)
qed

lemma def_new_fields:
  assumes "def_new c"
  shows "d_state c = DEF_ZLHEAD" "wout (d_bs c) []" "\<not> d_last_blk c" "\<not> d_is_gzip c" "d_zlib_adler c = 1" "d_inf_def c = 1"
    "zring_ok (d_input c)" "contents (d_input c) = []" "rb_size (d_input c) = 32768" "read_pos (d_input c) = 0"
proof -
  have c: "d_state c = DEF_ZLHEAD \<and> \<not> d_last_blk c \<and> \<not> d_is_gzip c \<and> d_zlib_adler c = 1 \<and> d_inf_def c = 1 \<and>
      d_input c = z_ringbuf_init (replicate (2 ^ 15) 0) (2 ^ 15) \<and>
      d_bs c = \<lparr>bs_ring = z_ringbuf_init (replicate (2 ^ 12) 0) (2 ^ 12), bs_pos = 0\<rparr>"
    using assms by (auto simp: def_new_def deflateInit_def Z_OK_def Z_STREAM_ERROR_def Let_def adler32_def MAX_WINDOW_SIZE_def
        split: if_splits)
  then show "d_state c = DEF_ZLHEAD" "\<not> d_last_blk c" "\<not> d_is_gzip c" "d_zlib_adler c = 1" "d_inf_def c = 1" by simp_all
  show "wout (d_bs c) []" using c z_init_ok [of 12]
    by (simp add: wout_def wstream_ok_def wbits_def) (simp add: z_ringbuf_init_def)
  show "zring_ok (d_input c)" "contents (d_input c) = []" using c z_init_ok [of 15] by simp_all
  show "rb_size (d_input c) = 32768" "read_pos (d_input c) = 0" using c by (simp_all add: z_ringbuf_init_def)
qed

lemma z_sizes_zero:
  assumes "zring_ok rb"
  shows "z_ringbuf_read_size rb = 0 \<longleftrightarrow> contents rb = []" "z_ringbuf_write_size rb = 0 \<longleftrightarrow> room rb = 0"
  using unat_ringbuf_read_size [of rb] unat_ringbuf_write_size [of rb] assms
  by (simp_all add: zring_ok_def z_sizes_kernel unat_eq_0 [symmetric])

text \<open>A call up to the checksum, when the data and the stream around it fit the output ring.\<close>

lemma deflate_to_adler:
  assumes "def_new c" "xs \<noteq> []" "length xs \<le> 4088" "room_out \<noteq> 0"
  obtains c' where
    "deflate_loop Z_FINISH Z_OK \<lparr>next_in = xs, avail_in = of_nat (length xs), z_out = [], avail_out = room_out, internal_state = c\<rparr> =
       (case d_run Z_FINISH c' of
          None \<Rightarrow> None
        | Some (ret, c2) \<Rightarrow>
            (case d_after ret \<lparr>next_in = [], avail_in = 0, z_out = [], avail_out = room_out, internal_state = c2\<rparr> of
               (ret, s) \<Rightarrow> deflate_loop Z_FINISH ret s))"
    "d_state c' = DEF_ZADLER" "wout (d_bs c') (bits_of (stored_head xs @ xs))" "zring_ok (d_input c')" "contents (d_input c') = []"
    "\<not> d_is_gzip c'" "d_zlib_adler c' = adler32 1 (Some xs) (len32 xs)" "d_inf_def c' = 1"
proof -
  let ?s = "\<lparr>next_in = xs, avail_in = of_nat (length xs), z_out = [], avail_out = room_out, internal_state = c\<rparr>"
  note new = def_new_fields [OF assms(1)]
  have n: "unat (of_nat (length xs) :: size_t) = length xs" using assms(3) by (intro unat_of_nat64) simp
  obtain rb where ci: "d_copy_in ?s = (of_nat (length xs), ?s\<lparr>internal_state := c\<lparr>d_input := rb, d_gz_len := d_gz_len c + len32 xs,
        d_gz_crc := crc32 (d_gz_crc c) (Some xs) (len32 xs), d_zlib_adler := adler32 1 (Some xs) (len32 xs)\<rparr>,
      avail_in := 0, next_in := []\<rparr>)" "zring_ok rb" "contents rb = xs" "read_pos rb = 0"
    using d_copy_in_all [of ?s xs] new n assms(2,3) by auto
  let ?c1 = "c\<lparr>d_input := rb, d_gz_len := d_gz_len c + len32 xs, d_gz_crc := crc32 (d_gz_crc c) (Some xs) (len32 xs),
      d_zlib_adler := adler32 1 (Some xs) (len32 xs)\<rparr>"
  obtain c2 where c2: "d_run Z_FINISH ?c1 = d_run Z_FINISH c2" "d_state c2 = DEF_ZADLER" "wout (d_bs c2) (bits_of (stored_head xs @ xs))"
      "zring_ok (d_input c2)" "contents (d_input c2) = []" "\<not> d_is_gzip c2" "d_zlib_adler c2 = adler32 1 (Some xs) (len32 xs)" "d_inf_def c2 = 1"
    using d_run_stored [of ?c1 xs] new ci assms(2,3) by auto
  have nz: "(of_nat (length xs) :: size_t) \<noteq> 0" using n assms(2) by (metis length_0_conv unat_0)
  have "deflate_loop Z_FINISH Z_OK ?s = (case d_run Z_FINISH c2 of
          None \<Rightarrow> None
        | Some (ret, c2) \<Rightarrow>
            (case d_after ret \<lparr>next_in = [], avail_in = 0, z_out = [], avail_out = room_out, internal_state = c2\<rparr> of
               (ret, s) \<Rightarrow> deflate_loop Z_FINISH ret s))"
    using nz c2(1) ci(1) assms(4) by (subst deflate_loop.simps) (simp add: Let_def split: option.split)
  with c2 show ?thesis by (intro that [of c2])
qed

lemma d_after_copies_out:
  assumes "wout (d_bs c) (bits_of ys)" "ys \<noteq> []" "length ys \<le> unat room_out"
  obtains rb where
    "d_after ret \<lparr>next_in = [], avail_in = 0, z_out = [], avail_out = room_out, internal_state = c\<rparr> =
       (if ret = Z_NEED_MORE then Z_OK else ret,
        \<lparr>next_in = [], avail_in = 0, z_out = ys, avail_out = room_out - of_nat (length ys), internal_state = c\<lparr>d_bs := (d_bs c)\<lparr>bs_ring := rb\<rparr>\<rparr>\<rparr>)"
    "zring_ok rb" "contents rb = []" "rb_size rb = 4096"
proof -
  let ?s = "\<lparr>next_in = [], avail_in = 0, z_out = [], avail_out = room_out, internal_state = c\<rparr>"
  obtain rb where co: "d_copy_out ?s = (of_nat (length ys), ?s\<lparr>internal_state := c\<lparr>d_bs := (d_bs c)\<lparr>bs_ring := rb\<rparr>\<rparr>,
      avail_out := room_out - of_nat (length ys), z_out := ys\<rparr>)" "zring_ok rb" "contents rb = []" "rb_size rb = 4096"
    using d_copy_out_all [of ?s ys] assms by auto
  have "length ys < 2 ^ 64" using assms(3) unat_lt64 [of room_out] by simp
  then have "(of_nat (length ys) :: size_t) \<noteq> 0" using unat_of_nat64 [of "length ys"] assms(2) by (metis length_0_conv unat_0)
  moreover have "room_out \<noteq> 0" using assms(2,3) by auto
  ultimately show ?thesis using co by (intro that [of rb]) (simp_all add: d_after_def)
qed

lemma deflate_stored_out:
  assumes "def_new c" "xs \<noteq> []" "length xs \<le> 4084" "length xs + 11 \<le> unat room_out"
  shows "\<exists>s. deflate \<lparr>next_in = xs, avail_in = of_nat (length xs), z_out = [], avail_out = room_out, internal_state = c\<rparr> Z_FINISH =
      Some (Z_STREAM_END, s) \<and> z_out s = zlib_stored xs \<and> avail_in s = 0"
proof -
  let ?s = "\<lparr>next_in = xs, avail_in = of_nat (length xs), z_out = [], avail_out = room_out, internal_state = c\<rparr>"
  have nz: "room_out \<noteq> 0" using assms(4) by auto
  obtain c2 where c2: "deflate_loop Z_FINISH Z_OK ?s =
       (case d_run Z_FINISH c2 of
          None \<Rightarrow> None
        | Some (ret, c2) \<Rightarrow>
            (case d_after ret \<lparr>next_in = [], avail_in = 0, z_out = [], avail_out = room_out, internal_state = c2\<rparr> of
               (ret, s) \<Rightarrow> deflate_loop Z_FINISH ret s))"
    "d_state c2 = DEF_ZADLER" "wout (d_bs c2) (bits_of (stored_head xs @ xs))" "\<not> d_is_gzip c2"
    "d_zlib_adler c2 = adler32 1 (Some xs) (len32 xs)"
    using deflate_to_adler [OF assms(1,2) _ nz] assms(3) by auto
  obtain bs where ad: "d_handle_zadler c2 = (Z_OK, c2\<lparr>d_bs := bs, d_state := DEF_STREND\<rparr>)"
      "wout bs (bits_of (stored_head xs @ xs) @ map (bit (ntohl (adler32 1 (Some xs) (len32 xs)))) [0..<32])"
    using d_zadler_out [OF c2(3)] c2(4,5) assms(3) by (auto simp: stored_head_def)
  let ?c3 = "c2\<lparr>d_bs := bs, d_state := DEF_STREND\<rparr>"
  have out: "wout (d_bs ?c3) (bits_of (zlib_stored xs))"
    using ad(2) by (simp add: zlib_stored_def adler_tail_bits)
  have "d_run Z_FINISH c2 = d_run Z_FINISH ?c3" by (rule d_run_step) (simp add: d_handle_def c2(2) ad(1))
  also have "\<dots> = Some (Z_STREAM_END, ?c3)"
    by (rule d_run_stop) (simp_all add: d_handle_def d_handle_strend_def Z_STREAM_END_def Z_OK_def)
  finally have run: "d_run Z_FINISH c2 = Some (Z_STREAM_END, ?c3)" .
  have zs: "zlib_stored xs \<noteq> []" "length (zlib_stored xs) \<le> unat room_out"
    using assms(4) by (simp_all add: zlib_stored_def stored_head_def adler_tail_def Let_def)
  from d_after_copies_out [OF out zs, of Z_STREAM_END] obtain rb where af:
    "d_after Z_STREAM_END \<lparr>next_in = [], avail_in = 0, z_out = [], avail_out = room_out, internal_state = ?c3\<rparr> =
       (Z_STREAM_END, \<lparr>next_in = [], avail_in = 0, z_out = zlib_stored xs, avail_out = room_out - of_nat (length (zlib_stored xs)),
          internal_state = ?c3\<lparr>d_bs := (d_bs ?c3)\<lparr>bs_ring := rb\<rparr>\<rparr>\<rparr>)" "zring_ok rb" "contents rb = []"
    by (auto simp: Z_STREAM_END_def Z_NEED_MORE_def)
  let ?s2 = "\<lparr>next_in = [], avail_in = 0, z_out = zlib_stored xs, avail_out = room_out - of_nat (length (zlib_stored xs)),
          internal_state = ?c3\<lparr>d_bs := (d_bs ?c3)\<lparr>bs_ring := rb\<rparr>\<rparr>\<rparr>"
  have "deflate_loop Z_FINISH Z_OK ?s = deflate_loop Z_FINISH Z_STREAM_END ?s2" using c2(1) run af(1) by simp
  also have "\<dots> = Some (Z_STREAM_END, ?s2)" by (subst deflate_loop.simps) (simp add: Z_STREAM_END_def Z_OK_def)
  finally have "deflate ?s Z_FINISH = Some (Z_STREAM_END, ?s2)"
    using def_new_fields(6) [OF assms(1)] z_sizes_zero(1) [OF af(2)] af(3) by (simp add: deflate_def Z_STREAM_END_def Z_NEED_MORE_def)
  then show ?thesis by (intro exI [of _ ?s2]) simp
qed

section \<open>Properties\<close>

text \<open>
  C36. A call on a new context that is given all of its data, of 1 to 4084 bytes, with \<^verbatim>\<open>Z_FINISH\<close> and room for the result ends
  with \<^verbatim>\<open>Z_STREAM_END\<close> and has written a complete stream: the header, one final stored block with the length, its
  complement and the data, and the checksum of the data.
\<close>

theorem deflate_stored:
  assumes "def_new c" "xs \<noteq> []" "length xs \<le> 4084" "length xs + 11 \<le> unat room_out"
  shows "\<exists>s. deflate \<lparr>next_in = xs, avail_in = of_nat (length xs), z_out = [], avail_out = room_out, internal_state = c\<rparr> Z_FINISH =
      Some (Z_STREAM_END, s) \<and> z_out s = zlib_stored xs \<and> avail_in s = 0"
  using assms by (rule deflate_stored_out)

text \<open>A context that was just initialised.\<close>

definition demo_ctx :: def_ctx where
  "demo_ctx = the (snd (deflateInit True (undefined :: def_ctx z_stream) 6))"

lemma demo_ctx_new: "def_new demo_ctx"
  unfolding def_new_def demo_ctx_def
  by (intro exI [of _ undefined] exI [of _ 6])
    (simp add: deflateInit_def Z_DEFAULT_COMPRESSION_def Z_BEST_COMPRESSION_def Z_OK_def Let_def)

theorem deflate_stored_witness:
  "\<exists>s. deflate \<lparr>next_in = [72, 105], avail_in = 2, z_out = [], avail_out = 100, internal_state = demo_ctx\<rparr> Z_FINISH =
     Some (Z_STREAM_END, s) \<and> z_out s = zlib_stored [72, 105] \<and> avail_in s = 0"
  using deflate_stored [OF demo_ctx_new, of "[72, 105]" 100] by simp

text \<open>
  C37. The checksum is lost when it does not fit: with 4085 to 4088 bytes of data the output ring is full before
  the checksum is written, and although the caller has room for the whole stream, the call returns \<^verbatim>\<open>Z_OK\<close> after the
  data, and no later call without new input ever writes the rest, whatever flush mode and room it is given.
\<close>

theorem deflate_loses_checksum:
  assumes "def_new c" "4085 \<le> length xs" "length xs \<le> 4088" "length xs + 11 \<le> unat room_out"
  shows "\<exists>s. deflate \<lparr>next_in = xs, avail_in = of_nat (length xs), z_out = [], avail_out = room_out, internal_state = c\<rparr> Z_FINISH =
      Some (Z_OK, s) \<and> z_out s = stored_head xs @ xs \<and>
    (\<forall>flush room'. deflate (s\<lparr>avail_out := room'\<rparr>) flush = Some (Z_OK, s\<lparr>avail_out := room'\<rparr>))"
proof -
  let ?s = "\<lparr>next_in = xs, avail_in = of_nat (length xs), z_out = [], avail_out = room_out, internal_state = c\<rparr>"
  have nz: "room_out \<noteq> 0" "xs \<noteq> []" using assms(2,4) by auto
  obtain c2 where c2: "deflate_loop Z_FINISH Z_OK ?s =
       (case d_run Z_FINISH c2 of
          None \<Rightarrow> None
        | Some (ret, c2) \<Rightarrow>
            (case d_after ret \<lparr>next_in = [], avail_in = 0, z_out = [], avail_out = room_out, internal_state = c2\<rparr> of
               (ret, s) \<Rightarrow> deflate_loop Z_FINISH ret s))"
    "d_state c2 = DEF_ZADLER" "wout (d_bs c2) (bits_of (stored_head xs @ xs))" "zring_ok (d_input c2)" "contents (d_input c2) = []" "d_inf_def c2 = 1"
    using deflate_to_adler [OF assms(1) nz(2) assms(3) nz(1)] by auto
  have "d_handle_zadler c2 = (Z_NEED_MORE, c2)"
    using d_zadler_full [OF c2(3)] assms(2) by (simp add: stored_head_def)
  then have run: "d_run Z_FINISH c2 = Some (Z_NEED_MORE, c2)"
    by (intro d_run_stop) (simp_all add: d_handle_def c2(2) Z_NEED_MORE_def Z_OK_def)
  have zs: "stored_head xs @ xs \<noteq> []" "length (stored_head xs @ xs) \<le> unat room_out"
    using assms(4) by (simp_all add: stored_head_def)
  from d_after_copies_out [OF c2(3) zs, of Z_NEED_MORE] obtain rb where af:
    "d_after Z_NEED_MORE \<lparr>next_in = [], avail_in = 0, z_out = [], avail_out = room_out, internal_state = c2\<rparr> =
       (Z_OK, \<lparr>next_in = [], avail_in = 0, z_out = stored_head xs @ xs, avail_out = room_out - of_nat (length (stored_head xs @ xs)),
          internal_state = c2\<lparr>d_bs := (d_bs c2)\<lparr>bs_ring := rb\<rparr>\<rparr>\<rparr>)"
    by auto
  let ?s2 = "\<lparr>next_in = [], avail_in = 0, z_out = stored_head xs @ xs, avail_out = room_out - of_nat (length (stored_head xs @ xs)),
          internal_state = c2\<lparr>d_bs := (d_bs c2)\<lparr>bs_ring := rb\<rparr>\<rparr>\<rparr>"
  have idle: "deflate_loop flush Z_OK (?s2\<lparr>avail_out := r\<rparr>) = Some (Z_OK, ?s2\<lparr>avail_out := r\<rparr>)" for flush r
    using z_sizes_zero(1) [OF c2(4)] c2(5) by (subst deflate_loop.simps) simp
  have "deflate_loop Z_FINISH Z_OK ?s = deflate_loop Z_FINISH Z_OK ?s2" using c2(1) run af by simp
  also have "\<dots> = Some (Z_OK, ?s2)" using idle [of Z_FINISH "avail_out ?s2"] by simp
  finally have "deflate ?s Z_FINISH = Some (Z_OK, ?s2)"
    using def_new_fields(6) [OF assms(1)] by (simp add: deflate_def Z_STREAM_END_def Z_NEED_MORE_def Z_OK_def)
  moreover have "deflate (?s2\<lparr>avail_out := r\<rparr>) flush = Some (Z_OK, ?s2\<lparr>avail_out := r\<rparr>)" for flush r
    using idle [of flush r] c2(6) by (simp add: deflate_def Z_STREAM_END_def Z_NEED_MORE_def Z_OK_def)
  ultimately show ?thesis by (intro exI [of _ ?s2]) simp
qed

theorem deflate_loses_checksum_witness:
  "\<exists>s. deflate \<lparr>next_in = replicate 4086 7, avail_in = 4086, z_out = [], avail_out = 8192, internal_state = demo_ctx\<rparr> Z_FINISH =
     Some (Z_OK, s) \<and> z_out s = stored_head (replicate 4086 7) @ replicate 4086 7 \<and>
     deflate (s\<lparr>avail_out := 8192\<rparr>) Z_FINISH = Some (Z_OK, s\<lparr>avail_out := 8192\<rparr>)"
  using deflate_loses_checksum [OF demo_ctx_new, of "replicate 4086 7" 8192] by auto

end
