(* ===== verification/Zinflate.thy ===== *)
theory Zinflate
  imports Zdeflate
begin

text \<open>
  The decompressor of the compression library (lib/libz/src/inflate.c): a state machine that reads its input ring as a bit stream,
  block by block, and writes the window, its output ring. The context's \<^verbatim>\<open>input\<close> ring is the one its bit stream
  reads. A handler answers a code and the context, or a fault where the code indexes outside an array. Whether the
  \<open>n\<close>-th allocation for a context succeeds is the argument \<open>alloc\<close>; a block it got is the list of the bytes stored
  in it so far. The two loops of \<^verbatim>\<open>inflate\<close> are partial functions: \<open>None\<close> is a call that does not return.
\<close>

section \<open>Model\<close>

datatype inf_state =
    INF_ZLHEAD | INF_ZLDICT | INF_GZHEAD | INF_GZXTRA | INF_GZNAME | INF_GZCOMM | INF_GZHCRC | INF_BLKHDR | INF_RAWHDR | INF_RAWBLK
  | INF_DYNHDR | INF_DYNLEN | INF_DYNLIT | INF_HUFCOD | INF_EXTLEN | INF_HUFDST | INF_EXTDST | INF_REFCPY | INF_ZADLER | INF_GZECRC
  | INF_GZELEN | INF_STREND

datatype z_fault = Z_OUT_OF_BOUNDS

record zlib_header =
  zl_cmf :: u8
  zl_flg :: u8
  zl_dict :: u32

record gzip_header =
  gz_id1 :: u8
  gz_id2 :: u8
  gz_cm :: u8
  gz_flg :: u8
  gz_mtime :: u32
  gz_xfl :: u8
  gz_os :: u8
  gz_xlen :: u16
  gz_extra :: "u8 list option"
  gz_extra_len :: u16
  gz_name :: "u8 list"
  gz_comment :: "u8 list"
  gz_crc16 :: u16

record inf_ctx =
  i_inf_def :: int
  i_state :: inf_state
  i_bs :: bitstream
  i_output :: ringbuf
  i_last :: u32
  i_is_gzip :: bool
  i_gz_crc :: u32
  i_gz_len :: u32
  i_zlib_adler :: u32
  i_huff_lit :: huffman
  i_huff_dist :: huffman
  i_raw_len :: u32
  i_raw_nlen :: u32
  i_dyn_hlit :: u32
  i_dyn_hdist :: u32
  i_dyn_hclen :: u32
  i_dyn_lengths :: "u8 list"
  i_dyn_code_huff :: huffman
  i_dyn_hlit_pos :: size_t
  i_dyn_hlit_hufcode :: int
  i_hufcode_char :: int
  i_back_size :: u16
  i_extra_length_bits :: u8
  i_hufcode_dist :: int
  i_back_dist :: u16
  i_extra_dist_bits :: u8
  i_zlib :: zlib_header
  i_gzip :: gzip_header
  i_allocs :: nat

type_synonym handled = "z_fault + int \<times> inf_ctx"

definition write_byte :: "inf_ctx \<Rightarrow> u8 \<Rightarrow> inf_ctx" where
  "write_byte c b =
     c\<lparr>i_output := z_ringbuf_write_byte (i_output c) b,
       i_gz_len := i_gz_len c + 1,
       i_gz_crc := crc32 (i_gz_crc c) (Some [b]) 1,
       i_zlib_adler := adler32 (i_zlib_adler c) (Some [b]) 1\<rparr>"

definition static_lengths :: "u8 list" where
  "static_lengths = replicate 144 8 @ replicate 112 9 @ replicate 24 7 @ replicate 8 8 @ replicate 32 5"

definition generate_static_huffman :: "inf_ctx \<Rightarrow> inf_ctx" where
  "generate_static_huffman c =
     c\<lparr>i_huff_lit := huffman_generate (i_huff_lit c) static_lengths 288,
       i_huff_dist := huffman_generate (i_huff_dist c) (drop 288 static_lengths) 32\<rparr>"

text \<open>\<^verbatim>\<open>dst[(*i)++] = v\<close>, repeated: \<^verbatim>\<open>dst\<close> is \<^verbatim>\<open>dyn_lit_lengths_distances\<close>, of 318 bytes.\<close>

definition DYN_LENGTHS :: nat where
  "DYN_LENGTHS = 318"

fun fill_loop :: "nat \<Rightarrow> u8 \<Rightarrow> u8 list \<Rightarrow> size_t \<Rightarrow> z_fault + u8 list \<times> size_t" where
  "fill_loop 0 v dst i = Inr (dst, i)"
| "fill_loop (Suc n) v dst i =
     (if unat i < DYN_LENGTHS then fill_loop n v (dst[unat i := v]) (i + 1) else Inl Z_OUT_OF_BOUNDS)"

definition fill_code :: "bitstream \<Rightarrow> u32 \<Rightarrow> u8 \<Rightarrow> u8 list \<Rightarrow> size_t \<Rightarrow> z_fault + int \<times> bitstream \<times> u8 list \<times> size_t" where
  "fill_code bs rp v dst i =
     (case fill_loop (unat rp) v dst i of
        Inl f \<Rightarrow> Inl f
      | Inr (dst, i) \<Rightarrow> Inr (Z_OK, bs, dst, i))"

definition decode_code :: "bitstream \<Rightarrow> u8 list \<Rightarrow> size_t \<Rightarrow> int \<Rightarrow> z_fault + int \<times> bitstream \<times> u8 list \<times> size_t" where
  "decode_code bs dst i v =
     (if v = 16 then
        if i = 0 then Inr (Z_DATA_ERROR, bs, dst, i)
        else if \<not> bitstream_has_read bs 2 then Inr (Z_NEED_MORE, bs, dst, i)
        else let (rp, bs) = bitstream_read bs 2
             in if unat (i - 1) < DYN_LENGTHS then fill_code bs (rp + 3) (dst ! unat (i - 1)) dst i
                else Inl Z_OUT_OF_BOUNDS
      else if v = 17 then
        if \<not> bitstream_has_read bs 3 then Inr (Z_NEED_MORE, bs, dst, i)
        else let (rp, bs) = bitstream_read bs 3 in fill_code bs (rp + 3) 0 dst i
      else if v = 18 then
        if \<not> bitstream_has_read bs 7 then Inr (Z_NEED_MORE, bs, dst, i)
        else let (rp, bs) = bitstream_read bs 7 in fill_code bs (rp + 11) 0 dst i
      else if v > int MAX_BITS then Inr (Z_DATA_ERROR, bs, dst, i)
      else fill_code bs 1 (of_int v) dst i)"

text \<open>The window's memory is zero until the header was read: the context comes from \<^verbatim>\<open>calloc\<close>.\<close>

definition output_ring :: "size_t \<Rightarrow> ringbuf" where
  "output_ring sz = z_ringbuf_init (replicate 32768 0) sz"

definition i_handle_zlhead :: "inf_ctx \<Rightarrow> handled" where
  "i_handle_zlhead c =
     (if \<not> bitstream_has_read (i_bs c) 16 then Inr (Z_NEED_MORE, c)
      else let magic = bitstream_peek (i_bs c) 16
           in if magic AND 0x0F = 0x08
              then let ringbuf_size = push_bit (unat (8 + (drop_bit 4 magic AND 0xF))) 1 :: u32
                   in if ringbuf_size > ucast MAX_WINDOW_SIZE then Inr (Z_DATA_ERROR, c)
                      else let c = c\<lparr>i_output := output_ring (ucast ringbuf_size), i_bs := bitstream_skip (i_bs c) 16,
                                 i_zlib := (i_zlib c)\<lparr>zl_cmf := ucast (magic AND 0xFF), zl_flg := ucast (drop_bit 8 magic AND 0xFF)\<rparr>\<rparr>
                           in if magic AND push_bit 13 1 \<noteq> 0 then Inr (Z_OK, c\<lparr>i_state := INF_ZLDICT\<rparr>)
                              else Inr (Z_OK, c\<lparr>i_state := INF_GZHEAD\<rparr>)
              else Inr (Z_OK, c\<lparr>i_output := output_ring MAX_WINDOW_SIZE, i_state := INF_GZHEAD\<rparr>))"

definition i_handle_zldict :: "inf_ctx \<Rightarrow> handled" where
  "i_handle_zldict c =
     (if \<not> bitstream_has_read (i_bs c) 32 then Inr (Z_NEED_MORE, c)
      else Inr (Z_OK, c\<lparr>i_zlib := (i_zlib c)\<lparr>zl_dict := bitstream_peek (i_bs c) 32\<rparr>, i_state := INF_GZHEAD\<rparr>))"

definition FEXTRA :: u8 where "FEXTRA = push_bit 2 1"
definition FNAME :: u8 where "FNAME = push_bit 3 1"
definition FCOMMENT :: u8 where "FCOMMENT = push_bit 4 1"
definition FHCRC :: u8 where "FHCRC = push_bit 1 1"

definition after_comment :: "u8 \<Rightarrow> inf_state" where
  "after_comment flg = (if flg AND FHCRC \<noteq> 0 then INF_GZHCRC else INF_BLKHDR)"

definition after_name :: "u8 \<Rightarrow> inf_state" where
  "after_name flg = (if flg AND FCOMMENT \<noteq> 0 then INF_GZCOMM else after_comment flg)"

definition after_extra :: "u8 \<Rightarrow> inf_state" where
  "after_extra flg = (if flg AND FNAME \<noteq> 0 then INF_GZNAME else after_name flg)"

definition i_gzhead_fields :: "inf_ctx \<Rightarrow> handled" where
  "i_gzhead_fields c =
     (if \<not> bitstream_has_read (i_bs c) 64 then Inr (Z_NEED_MORE, c)
      else let (cm, bs) = bitstream_read (i_bs c) 8;
               (flg, bs) = bitstream_read bs 8;
               (mtime, bs) = bitstream_read bs 32;
               (xfl, bs) = bitstream_read bs 8;
               (os, bs) = bitstream_read bs 8;
               c = c\<lparr>i_bs := bs, i_gzip := (i_gzip c)\<lparr>gz_cm := ucast cm, gz_flg := ucast flg, gz_mtime := mtime,
                     gz_xfl := ucast xfl, gz_os := ucast os\<rparr>\<rparr>
           in Inr (Z_OK, c\<lparr>i_state := (if ucast flg AND FEXTRA \<noteq> 0 then INF_GZXTRA else after_extra (ucast flg))\<rparr>))"

definition i_handle_gzhead :: "inf_ctx \<Rightarrow> handled" where
  "i_handle_gzhead c =
     (if gz_id1 (i_gzip c) = 0 then
        if \<not> bitstream_has_read (i_bs c) 16 then Inr (Z_NEED_MORE, c)
        else let magic = bitstream_peek (i_bs c) 16
             in if magic \<noteq> 0x8B1F then Inr (Z_OK, c\<lparr>i_state := INF_BLKHDR\<rparr>)
                else i_gzhead_fields (c\<lparr>i_is_gzip := True, i_bs := bitstream_skip (i_bs c) 16,
                       i_gzip := (i_gzip c)\<lparr>gz_id1 := ucast (magic AND 0xFF), gz_id2 := ucast (drop_bit 8 magic AND 0xFF)\<rparr>\<rparr>)
      else i_gzhead_fields c)"

text \<open>The loop over the extra field; \<open>None\<close> behind \<^verbatim>\<open>extra\<close> is the null pointer.\<close>

fun gzxtra_loop :: "nat \<Rightarrow> nat \<Rightarrow> inf_ctx \<Rightarrow> handled" where
  "gzxtra_loop i 0 c = Inr (Z_OK, c)"
| "gzxtra_loop i (Suc n) c =
     (let (tmp, bs) = bitstream_read (i_bs c) 8; c = c\<lparr>i_bs := bs\<rparr>; g = i_gzip c
      in case gz_extra g of
           None \<Rightarrow> Inl Z_OUT_OF_BOUNDS
         | Some bytes \<Rightarrow>
             gzxtra_loop (Suc i) n
               (c\<lparr>i_gzip := g\<lparr>gz_extra := Some (bytes @ [of_nat i]), gz_extra_len := gz_extra_len g + 1\<rparr>\<rparr>))"

definition gzxtra_end :: "inf_ctx \<Rightarrow> handled" where
  "gzxtra_end c = Inr (Z_OK, c\<lparr>i_state := after_extra (gz_flg (i_gzip c))\<rparr>)"

definition gzxtra_body :: "inf_ctx \<Rightarrow> handled" where
  "gzxtra_body c =
     (let avail = bitstream_avail_read (i_bs c) div 8
      in if avail = 0 then Inr (Z_NEED_MORE, c)
         else let rem = ucast (gz_xlen (i_gzip c)) - ucast (gz_extra_len (i_gzip c));
                  avail = (if avail > rem then rem else avail)
              in case gzxtra_loop 0 (unat avail) c of
                   Inl f \<Rightarrow> Inl f
                 | Inr (_, c) \<Rightarrow>
                     if gz_extra_len (i_gzip c) \<noteq> gz_xlen (i_gzip c) then Inr (Z_OK, c) else gzxtra_end c)"

definition i_handle_gzxtra :: "(nat \<Rightarrow> bool) \<Rightarrow> inf_ctx \<Rightarrow> handled" where
  "i_handle_gzxtra alloc c =
     (if gz_xlen (i_gzip c) = 0 then
        if \<not> bitstream_has_read (i_bs c) 16 then Inr (Z_NEED_MORE, c)
        else let (xlen, bs) = bitstream_read (i_bs c) 16;
                 c = c\<lparr>i_bs := bs, i_gzip := (i_gzip c)\<lparr>gz_xlen := ucast xlen\<rparr>\<rparr>
             in if xlen = 0 then gzxtra_end c
                else let ok = alloc (i_allocs c);
                         c = c\<lparr>i_allocs := Suc (i_allocs c),
                               i_gzip := (i_gzip c)\<lparr>gz_extra := (if ok then Some [] else None)\<rparr>\<rparr>
                     in if \<not> ok then Inr (Z_MEM_ERROR, c) else gzxtra_body c
      else gzxtra_body c)"

fun gzname_loop :: "(nat \<Rightarrow> bool) \<Rightarrow> nat \<Rightarrow> inf_ctx \<Rightarrow> handled" where
  "gzname_loop alloc 0 c = Inr (Z_NEED_MORE, c)"
| "gzname_loop alloc (Suc n) c =
     (let ok = alloc (i_allocs c); c = c\<lparr>i_allocs := Suc (i_allocs c)\<rparr>
      in if \<not> ok then Inr (Z_MEM_ERROR, c)
         else let (tmp, bs) = bitstream_read (i_bs c) 8;
                  c = c\<lparr>i_bs := bs, i_gzip := (i_gzip c)\<lparr>gz_name := gz_name (i_gzip c) @ [ucast tmp]\<rparr>\<rparr>
              in if tmp = 0 then Inr (Z_OK, c\<lparr>i_state := after_name (gz_flg (i_gzip c))\<rparr>)
                 else gzname_loop alloc n c)"

definition i_handle_gzname :: "(nat \<Rightarrow> bool) \<Rightarrow> inf_ctx \<Rightarrow> handled" where
  "i_handle_gzname alloc c =
     (let avail = bitstream_avail_read (i_bs c) div 8
      in if avail = 0 then Inr (Z_NEED_MORE, c) else gzname_loop alloc (unat avail) c)"

fun gzcomm_loop :: "(nat \<Rightarrow> bool) \<Rightarrow> nat \<Rightarrow> inf_ctx \<Rightarrow> handled" where
  "gzcomm_loop alloc 0 c = Inr (Z_NEED_MORE, c)"
| "gzcomm_loop alloc (Suc n) c =
     (let ok = alloc (i_allocs c); c = c\<lparr>i_allocs := Suc (i_allocs c)\<rparr>
      in if \<not> ok then Inr (Z_MEM_ERROR, c)
         else let (tmp, bs) = bitstream_read (i_bs c) 8;
                  c = c\<lparr>i_bs := bs, i_gzip := (i_gzip c)\<lparr>gz_comment := gz_comment (i_gzip c) @ [ucast tmp]\<rparr>\<rparr>
              in if tmp = 0 then Inr (Z_OK, c\<lparr>i_state := after_comment (gz_flg (i_gzip c))\<rparr>)
                 else gzcomm_loop alloc n c)"

definition i_handle_gzcomm :: "(nat \<Rightarrow> bool) \<Rightarrow> inf_ctx \<Rightarrow> handled" where
  "i_handle_gzcomm alloc c =
     (let avail = bitstream_avail_read (i_bs c) div 8
      in if avail = 0 then Inr (Z_NEED_MORE, c) else gzcomm_loop alloc (unat avail) c)"

definition i_handle_gzhcrc :: "inf_ctx \<Rightarrow> handled" where
  "i_handle_gzhcrc c =
     (if \<not> bitstream_has_read (i_bs c) 16 then Inr (Z_NEED_MORE, c)
      else let (tmp, bs) = bitstream_read (i_bs c) 16
           in Inr (Z_OK, c\<lparr>i_bs := bs, i_gzip := (i_gzip c)\<lparr>gz_crc16 := ucast tmp\<rparr>\<rparr>))"

definition i_handle_blkhdr :: "inf_ctx \<Rightarrow> handled" where
  "i_handle_blkhdr c =
     (if i_last c \<noteq> 0 then Inr (Z_OK, c\<lparr>i_state := INF_ZADLER\<rparr>)
      else if \<not> bitstream_has_read (i_bs c) 3 then Inr (Z_NEED_MORE, c)
      else let (last, bs) = bitstream_read (i_bs c) 1;
               (block_type, bs) = bitstream_read bs 2;
               c = c\<lparr>i_bs := bs, i_last := last\<rparr>
           in if block_type = 0 then Inr (Z_OK, c\<lparr>i_state := INF_RAWHDR\<rparr>)
              else if block_type = 1
                   then Inr (Z_OK, (generate_static_huffman c)\<lparr>i_state := INF_HUFCOD, i_hufcode_char := - 1\<rparr>)
              else if block_type = 2 then Inr (Z_OK, c\<lparr>i_state := INF_DYNHDR\<rparr>)
              else Inr (Z_STREAM_ERROR, c))"

text \<open>\<^verbatim>\<open>bitstream_skip\<close> to the next byte.\<close>

definition byte_align :: "bitstream \<Rightarrow> bitstream" where
  "byte_align bs = (if bs_pos bs mod 8 \<noteq> 0 then bitstream_skip bs (8 - bs_pos bs mod 8) else bs)"

definition i_handle_rawhdr :: "inf_ctx \<Rightarrow> handled" where
  "i_handle_rawhdr c =
     (let c = c\<lparr>i_bs := byte_align (i_bs c)\<rparr>
      in if \<not> bitstream_has_read (i_bs c) 32 then Inr (Z_NEED_MORE, c)
         else let (raw_len, bs) = bitstream_read (i_bs c) 16;
                  (raw_nlen, bs) = bitstream_read bs 16;
                  c = c\<lparr>i_bs := bs, i_raw_len := raw_len, i_raw_nlen := raw_nlen\<rparr>
              in if (raw_len + raw_nlen) AND 0xFFFF \<noteq> 0xFFFF then Inr (Z_STREAM_ERROR, c)
                 else Inr (Z_OK, c\<lparr>i_state := INF_RAWBLK\<rparr>))"

function i_rawblk_loop :: "bool \<Rightarrow> inf_ctx \<Rightarrow> int \<times> inf_ctx" where
  "i_rawblk_loop first c =
     (if i_raw_len c \<noteq> 0
      then let input = bs_ring (i_bs c); output = i_output c; n = cpy_len (i_raw_len c) input output
           in if n = 0 then (if first then Z_NEED_MORE else Z_OK, c)
              else let bytes = block_read (the (data input)) (unat (read_pos input)) (unat n)
                   in i_rawblk_loop False
                        (c\<lparr>i_output := z_ringbuf_advance_write (ring_put output (write_pos output) bytes) (ucast n),
                           i_gz_len := i_gz_len c + n,
                           i_gz_crc := crc32 (i_gz_crc c) (Some bytes) n,
                           i_zlib_adler := adler32 (i_zlib_adler c) (Some bytes) n,
                           i_bs := (i_bs c)\<lparr>bs_ring := z_ringbuf_advance_read input (ucast n)\<rparr>,
                           i_raw_len := i_raw_len c - n\<rparr>)
      else (Z_OK, c\<lparr>i_state := INF_BLKHDR\<rparr>))"
  by pat_completeness auto
termination
  by (relation "measure (\<lambda>(first, c). unat (i_raw_len c))") (auto intro: cpy_len_progress)

declare i_rawblk_loop.simps [simp del]

definition i_handle_rawblk :: "inf_ctx \<Rightarrow> handled" where
  "i_handle_rawblk c = Inr (i_rawblk_loop True c)"

definition i_handle_dynhdr :: "inf_ctx \<Rightarrow> handled" where
  "i_handle_dynhdr c =
     (if \<not> bitstream_has_read (i_bs c) 14 then Inr (Z_NEED_MORE, c)
      else let (hlit, bs) = bitstream_read (i_bs c) 5;
               (hdist, bs) = bitstream_read bs 5;
               (hclen, bs) = bitstream_read bs 4
           in Inr (Z_OK, c\<lparr>i_bs := bs, i_dyn_hlit := hlit + 257, i_dyn_hdist := hdist + 1, i_dyn_hclen := hclen + 4,
                           i_state := INF_DYNLEN\<rparr>))"

definition code_lengths_idx :: "nat list" where
  "code_lengths_idx = [16, 17, 18, 0, 8, 7, 9, 6, 10, 5, 11, 4, 12, 3, 13, 2, 14, 1, 15]"

fun dynlen_loop :: "nat list \<Rightarrow> bitstream \<Rightarrow> u8 list \<Rightarrow> bitstream \<times> u8 list" where
  "dynlen_loop [] bs lengths = (bs, lengths)"
| "dynlen_loop (k # ks) bs lengths =
     (let (v, bs) = bitstream_read bs 3 in dynlen_loop ks bs (lengths[k := ucast v]))"

text \<open>
  \<^verbatim>\<open>code_lengths\<close>, of 19 bytes, and \<^verbatim>\<open>code_lengths_idx\<close> are indexed up to \<^verbatim>\<open>dyn_hclen\<close>; the entries behind it are
  set to zero.
\<close>

definition i_handle_dynlen :: "inf_ctx \<Rightarrow> handled" where
  "i_handle_dynlen c =
     (if \<not> bitstream_has_read (i_bs c) (ucast (i_dyn_hclen c * 3)) then Inr (Z_NEED_MORE, c)
      else if unat (i_dyn_hclen c) > 19 then Inl Z_OUT_OF_BOUNDS
      else let (bs, lengths) = dynlen_loop (take (unat (i_dyn_hclen c)) code_lengths_idx) (i_bs c) (replicate 19 0)
           in Inr (Z_OK, c\<lparr>i_bs := bs, i_dyn_code_huff := huffman_generate (i_dyn_code_huff c) lengths 19,
                           i_dyn_hlit_pos := 0, i_state := INF_DYNLIT, i_dyn_hlit_hufcode := - 1\<rparr>))"

definition dynlit_end :: "inf_ctx \<Rightarrow> handled" where
  "dynlit_end c =
     Inr (Z_OK, c\<lparr>i_huff_lit := huffman_generate (i_huff_lit c) (i_dyn_lengths c) (i_dyn_hlit c),
                   i_huff_dist := huffman_generate (i_huff_dist c) (drop (unat (i_dyn_hlit c)) (i_dyn_lengths c)) (i_dyn_hdist c),
                   i_state := INF_HUFCOD, i_hufcode_char := - 1\<rparr>)"

lemma fill_loop_pos: "fill_loop n v dst i = Inr (dst', i') \<Longrightarrow> unat i' = unat i + n \<and> length dst' = length dst"
proof (induction n v dst i rule: fill_loop.induct)
  case (2 n v dst i)
  then have lt: "unat i < DYN_LENGTHS" by (simp split: if_splits)
  then have "unat (i + 1) = Suc (unat i)" by (subst unat_add64) (simp_all add: DYN_LENGTHS_def)
  with 2 lt show ?case by simp
qed simp

text \<open>What \<^verbatim>\<open>bitstream_peek\<close> answers has the bits that were asked for and no others.\<close>

lemma bitstream_getbit_01: "bitstream_getbit bs p = of_bool (odd (bitstream_getbit bs p))"
proof -
  have "x AND 1 = of_bool (odd (x AND 1))" for x :: u8 by (simp add: and_one_eq mod_2_eq_odd)
  then show ?thesis by (simp only: bitstream_getbit_def Let_def)
qed

lemma bitstream_peek_less:
  assumes "n \<le> 31"
  shows "unat (bitstream_peek bs (of_nat n)) < 2 ^ n"
proof -
  let ?g = "\<lambda>i. bitstream_getbit bs (of_nat i)"
  let ?f = "\<lambda>v i. v OR push_bit i (ucast (?g i) :: u32)"
  have "\<not> bit (foldl ?f 0 [0..<k]) i" if "k \<le> i" for k i
    using that
  proof (induction k)
    case (Suc k)
    have "(ucast (?g k) :: u32) = of_bool (odd (?g k))"
      by (subst bitstream_getbit_01) simp
    then have "\<not> bit (push_bit k (ucast (?g k)) :: u32) i" using Suc.prems by (simp add: bit_push_bit_iff bit_1_iff)
    then show ?case using Suc by (simp add: bit_or_iff)
  qed simp
  moreover have "unat (of_nat n :: size_t) = n" using assms by (intro unat_of_nat64) simp
  ultimately have hi: "\<not> bit (bitstream_peek bs (of_nat n)) i" if "n \<le> i" for i
    using that by (simp add: bitstream_peek_def)
  have "i < n" if "bit (bitstream_peek bs (of_nat n)) i" for i
    using hi [of i] that by (cases "n \<le> i") simp_all
  then have "take_bit n (bitstream_peek bs (of_nat n)) = bitstream_peek bs (of_nat n)"
    by (intro bit_eqI) (auto simp: bit_take_bit_iff)
  then have "take_bit n (unat (bitstream_peek bs (of_nat n))) = unat (bitstream_peek bs (of_nat n))"
    by (metis unsigned_take_bit_eq)
  then show ?thesis by (simp only: take_bit_nat_eq_self_iff)
qed

lemma decode_code_pos:
  assumes "decode_code bs dst i v = Inr (Z_OK, bs', dst', i')"
  shows "unat i < unat i' \<and> length dst' = length dst"
proof -
  have fill: "unat i' = unat i + unat rp \<and> length dst' = length dst" if "fill_code b rp v dst i = Inr (Z_OK, bs', dst', i')" for b rp v
    using that fill_loop_pos by (auto simp: fill_code_def split: sum.splits)
  have pos: "0 < unat (bitstream_peek bs 2 + 3)" "0 < unat (bitstream_peek bs 3 + 3)" "0 < unat (bitstream_peek bs 7 + 11)"
    using bitstream_peek_less [of 2 bs] bitstream_peek_less [of 3 bs] bitstream_peek_less [of 7 bs]
    by (simp_all add: unat_word_ariths)
  show ?thesis using assms fill pos
    by (auto simp: decode_code_def bitstream_read_def Let_def Z_OK_def Z_DATA_ERROR_def Z_NEED_MORE_def split: if_splits dest!: fill)
qed

function dynlit_loop :: "inf_ctx \<Rightarrow> handled" where
  "dynlit_loop c =
     (if i_dyn_hlit_pos c < ucast (i_dyn_hlit c + i_dyn_hdist c)
      then let (code, bs) = (if i_dyn_hlit_hufcode c < 0 then huffman_decode (i_bs c) (i_dyn_code_huff c)
                             else (i_dyn_hlit_hufcode c, i_bs c));
               c = c\<lparr>i_bs := bs, i_dyn_hlit_hufcode := code\<rparr>
           in if code < 0 then Inr (code, c)
              else (case decode_code (i_bs c) (i_dyn_lengths c) (i_dyn_hlit_pos c) code of
                      Inl f \<Rightarrow> Inl f
                    | Inr (ret, bs, dst, i) \<Rightarrow>
                        let c = c\<lparr>i_bs := bs, i_dyn_lengths := dst, i_dyn_hlit_pos := i\<rparr>
                        in if ret \<noteq> Z_OK then Inr (ret, c) else dynlit_loop (c\<lparr>i_dyn_hlit_hufcode := - 1\<rparr>))
      else dynlit_end c)"
  by pat_completeness auto
termination
proof (relation "measure (\<lambda>c. unat (ucast (i_dyn_hlit c + i_dyn_hdist c) :: size_t) - unat (i_dyn_hlit_pos c))", goal_cases)
  case (2 c p code bs c1 r ret q bs' q' dst i c2)
  then have "unat (i_dyn_hlit_pos c) < unat i" using decode_code_pos [of bs "i_dyn_lengths c" "i_dyn_hlit_pos c" code bs' dst i] by auto
  with 2 show ?case by (auto simp: word_less_nat_alt)
qed simp

declare dynlit_loop.simps [simp del]

definition i_handle_dynlit :: "inf_ctx \<Rightarrow> handled" where
  "i_handle_dynlit c = dynlit_loop c"

definition extra_lengths :: "u8 list" where
  "extra_lengths =
     [3, 4, 5, 6, 7, 8, 9, 10, 11, 13, 15, 17, 19, 23, 27, 31, 35, 43, 51, 59, 67, 83, 99, 115, 131, 163, 195, 227]"

definition extra_length_bits :: "u8 list" where
  "extra_length_bits = [0, 0, 0, 0, 0, 0, 0, 0, 1, 1, 1, 1, 2, 2, 2, 2, 3, 3, 3, 3, 4, 4, 4, 4, 5, 5, 5, 5]"

definition hufcod_decode :: "inf_ctx \<Rightarrow> handled" where
  "hufcod_decode c =
     (let (code, bs) = huffman_decode (i_bs c) (i_huff_lit c); c = c\<lparr>i_bs := bs, i_hufcode_char := code\<rparr>
      in if code < 0 then Inr (code, c)
         else if code \<le> 255 then
           if z_ringbuf_write_size (i_output c) = 0 then Inr (Z_NEED_MORE, c)
           else Inr (Z_OK, (write_byte c (of_int code))\<lparr>i_hufcode_char := - 1\<rparr>)
         else if code = 256 then Inr (Z_OK, c\<lparr>i_state := INF_BLKHDR\<rparr>)
         else if code = 285 then Inr (Z_OK, c\<lparr>i_back_size := 258, i_state := INF_HUFDST\<rparr>)
         else let k = nat (code - 257)
              in if k < length extra_lengths
                 then Inr (Z_OK, c\<lparr>i_back_size := ucast (extra_lengths ! k), i_extra_length_bits := extra_length_bits ! k,
                        i_state := (if extra_length_bits ! k \<noteq> 0 then INF_EXTLEN else INF_HUFDST)\<rparr>)
                 else Inl Z_OUT_OF_BOUNDS)"

definition i_handle_hufcod :: "inf_ctx \<Rightarrow> handled" where
  "i_handle_hufcod c =
     (if i_hufcode_char c \<ge> 0 then
        if z_ringbuf_write_size (i_output c) = 0 then Inr (Z_NEED_MORE, c)
        else hufcod_decode (write_byte c (of_int (i_hufcode_char c)))
      else hufcod_decode c)"

definition i_handle_extlen :: "inf_ctx \<Rightarrow> handled" where
  "i_handle_extlen c =
     (if \<not> bitstream_has_read (i_bs c) (ucast (i_extra_length_bits c)) then Inr (Z_NEED_MORE, c)
      else let (add, bs) = bitstream_read (i_bs c) (ucast (i_extra_length_bits c))
           in Inr (Z_OK, c\<lparr>i_bs := bs, i_back_size := i_back_size c + ucast add, i_state := INF_HUFDST\<rparr>))"

definition extra_dist_bits :: "u8 list" where
  "extra_dist_bits = [0, 0, 0, 0, 1, 1, 2, 2, 3, 3, 4, 4, 5, 5, 6, 6, 7, 7, 8, 8, 9, 9, 10, 10, 11, 11, 12, 12, 13, 13]"

definition extra_dists :: "u16 list" where
  "extra_dists = [1, 2, 3, 4, 5, 7, 9, 13, 17, 25, 33, 49, 65, 97, 129, 193, 257, 385, 513, 769, 1025, 1537, 2049, 3073,
     4097, 6145, 8193, 12289, 16385, 24577]"

definition i_handle_hufdst :: "inf_ctx \<Rightarrow> handled" where
  "i_handle_hufdst c =
     (let (code, bs) = huffman_decode (i_bs c) (i_huff_dist c); c = c\<lparr>i_bs := bs, i_hufcode_dist := code\<rparr>
      in if code < 0 then Inr (code, c)
         else let k = nat code
              in if k < length extra_dists
                 then Inr (Z_OK, c\<lparr>i_back_dist := extra_dists ! k, i_extra_dist_bits := extra_dist_bits ! k,
                        i_state := (if extra_dist_bits ! k \<noteq> 0 then INF_EXTDST else INF_REFCPY)\<rparr>)
                 else Inl Z_OUT_OF_BOUNDS)"

definition i_handle_extdst :: "inf_ctx \<Rightarrow> handled" where
  "i_handle_extdst c =
     (if \<not> bitstream_has_read (i_bs c) (ucast (i_extra_dist_bits c)) then Inr (Z_NEED_MORE, c)
      else let (add, bs) = bitstream_read (i_bs c) (ucast (i_extra_dist_bits c))
           in Inr (Z_OK, c\<lparr>i_bs := bs, i_back_dist := i_back_dist c + ucast add, i_state := INF_REFCPY\<rparr>))"

function refcpy_loop :: "inf_ctx \<Rightarrow> int \<times> inf_ctx" where
  "refcpy_loop c =
     (if i_back_size c \<noteq> 0 then
        if z_ringbuf_write_size (i_output c) = 0 then (Z_NEED_MORE, c)
        else let output = i_output c;
                 b = ring_at output (z_ringbuf_next_write_pos output (rb_size output - ucast (i_back_dist c)))
             in refcpy_loop ((write_byte c b)\<lparr>i_back_size := i_back_size c - 1\<rparr>)
      else (Z_OK, c\<lparr>i_state := INF_HUFCOD, i_hufcode_char := - 1\<rparr>))"
  by pat_completeness auto
termination
  by (relation "measure (\<lambda>c. unat (i_back_size c))") (simp_all add: unat_minus_one unat_gt_0)

declare refcpy_loop.simps [simp del]

definition i_handle_refcpy :: "inf_ctx \<Rightarrow> handled" where
  "i_handle_refcpy c = Inr (refcpy_loop c)"

definition i_handle_zadler :: "inf_ctx \<Rightarrow> handled" where
  "i_handle_zadler c =
     (let c = c\<lparr>i_bs := byte_align (i_bs c)\<rparr>
      in if \<not> bitstream_has_read (i_bs c) 32 then Inr (Z_NEED_MORE, c)
         else let (adler, bs) = bitstream_read (i_bs c) 32; c = c\<lparr>i_bs := bs\<rparr>
              in if adler \<noteq> ntohl (i_zlib_adler c) then Inr (Z_DATA_ERROR, c)
                 else if i_is_gzip c then Inr (Z_OK, c\<lparr>i_state := INF_GZECRC\<rparr>)
                 else Inr (Z_OK, c\<lparr>i_state := INF_STREND\<rparr>))"

definition i_handle_gzecrc :: "inf_ctx \<Rightarrow> handled" where
  "i_handle_gzecrc c =
     (if \<not> bitstream_has_read (i_bs c) 32 then Inr (Z_NEED_MORE, c)
      else let (crc, bs) = bitstream_read (i_bs c) 32; c = c\<lparr>i_bs := bs\<rparr>
           in if crc \<noteq> i_gz_crc c then Inr (Z_DATA_ERROR, c) else Inr (Z_OK, c\<lparr>i_state := INF_GZELEN\<rparr>))"

definition i_handle_gzelen :: "inf_ctx \<Rightarrow> handled" where
  "i_handle_gzelen c =
     (if \<not> bitstream_has_read (i_bs c) 32 then Inr (Z_NEED_MORE, c)
      else let (len, bs) = bitstream_read (i_bs c) 32; c = c\<lparr>i_bs := bs\<rparr>
           in if len \<noteq> i_gz_len c then Inr (Z_DATA_ERROR, c) else Inr (Z_OK, c\<lparr>i_state := INF_STREND\<rparr>))"

definition i_handle_strend :: "inf_ctx \<Rightarrow> handled" where
  "i_handle_strend c = Inr (Z_STREAM_END, c)"

text \<open>The zeroed structures a context starts with.\<close>

definition huffman_zero :: huffman where
  "huffman_zero = \<lparr>hf_counts = replicate (MAX_BITS + 1) 0, hf_codes = replicate (MAX_BITS + 1) 0, hf_values = replicate 288 0, hf_count = 0\<rparr>"

definition inflateInit :: "bool \<Rightarrow> int \<times> inf_ctx option" where
  "inflateInit calloc_ok =
     (if \<not> calloc_ok then (Z_MEM_ERROR, None)
      else (Z_OK, Some \<lparr>i_inf_def = 0, i_state = INF_ZLHEAD,
             i_bs = \<lparr>bs_ring = z_ringbuf_init (replicate 4096 0) 4096, bs_pos = 0\<rparr>,
             i_output = \<lparr>data = None, rb_size = 0, read_pos = 0, write_pos = 0\<rparr>,
             i_last = 0, i_is_gzip = False, i_gz_crc = crc32 0 None 0, i_gz_len = 0, i_zlib_adler = adler32 0 None 0,
             i_huff_lit = huffman_zero, i_huff_dist = huffman_zero, i_raw_len = 0, i_raw_nlen = 0,
             i_dyn_hlit = 0, i_dyn_hdist = 0, i_dyn_hclen = 0, i_dyn_lengths = replicate DYN_LENGTHS 0,
             i_dyn_code_huff = huffman_zero, i_dyn_hlit_pos = 0, i_dyn_hlit_hufcode = 0, i_hufcode_char = 0,
             i_back_size = 0, i_extra_length_bits = 0, i_hufcode_dist = 0, i_back_dist = 0, i_extra_dist_bits = 0,
             i_zlib = \<lparr>zl_cmf = 0, zl_flg = 0, zl_dict = 0\<rparr>,
             i_gzip = \<lparr>gz_id1 = 0, gz_id2 = 0, gz_cm = 0, gz_flg = 0, gz_mtime = 0, gz_xfl = 0, gz_os = 0, gz_xlen = 0,
               gz_extra = None, gz_extra_len = 0, gz_name = [], gz_comment = [], gz_crc16 = 0\<rparr>,
             i_allocs = 0\<rparr>))"

definition i_copy_in :: "inf_ctx z_stream \<Rightarrow> size_t \<times> inf_ctx z_stream" where
  "i_copy_in s =
     (let c = internal_state s; input = bs_ring (i_bs c); n = z_ringbuf_write_size input
      in if n = 0 then (0, s)
         else let n = (if n > avail_in s then avail_in s else n)
              in if n = 0 then (0, s)
                 else (n, s\<lparr>internal_state := c\<lparr>i_bs := (i_bs c)\<lparr>bs_ring := snd (z_ringbuf_write input (Some (next_in s)) n)\<rparr>\<rparr>,
                        avail_in := avail_in s - n, next_in := drop (unat n) (next_in s)\<rparr>))"

definition i_copy_out :: "inf_ctx z_stream \<Rightarrow> size_t \<times> inf_ctx z_stream" where
  "i_copy_out s =
     (let c = internal_state s; n = z_ringbuf_read_size (i_output c)
      in if n = 0 then (0, s)
         else let n = (if n > avail_out s then avail_out s else n)
              in if n = 0 then (0, s)
                 else let (k, bs, output) = z_ringbuf_read (i_output c) n
                      in (n, s\<lparr>internal_state := c\<lparr>i_output := output\<rparr>,
                               avail_out := avail_out s - n, z_out := z_out s @ bs\<rparr>))"

definition i_handle :: "(nat \<Rightarrow> bool) \<Rightarrow> inf_ctx \<Rightarrow> handled" where
  "i_handle alloc c =
     (case i_state c of
        INF_ZLHEAD \<Rightarrow> i_handle_zlhead c
      | INF_ZLDICT \<Rightarrow> i_handle_zldict c
      | INF_GZHEAD \<Rightarrow> i_handle_gzhead c
      | INF_GZXTRA \<Rightarrow> i_handle_gzxtra alloc c
      | INF_GZNAME \<Rightarrow> i_handle_gzname alloc c
      | INF_GZCOMM \<Rightarrow> i_handle_gzcomm alloc c
      | INF_GZHCRC \<Rightarrow> i_handle_gzhcrc c
      | INF_BLKHDR \<Rightarrow> i_handle_blkhdr c
      | INF_RAWHDR \<Rightarrow> i_handle_rawhdr c
      | INF_RAWBLK \<Rightarrow> i_handle_rawblk c
      | INF_DYNHDR \<Rightarrow> i_handle_dynhdr c
      | INF_DYNLEN \<Rightarrow> i_handle_dynlen c
      | INF_DYNLIT \<Rightarrow> i_handle_dynlit c
      | INF_HUFCOD \<Rightarrow> i_handle_hufcod c
      | INF_EXTLEN \<Rightarrow> i_handle_extlen c
      | INF_HUFDST \<Rightarrow> i_handle_hufdst c
      | INF_EXTDST \<Rightarrow> i_handle_extdst c
      | INF_REFCPY \<Rightarrow> i_handle_refcpy c
      | INF_GZECRC \<Rightarrow> i_handle_gzecrc c
      | INF_ZADLER \<Rightarrow> i_handle_zadler c
      | INF_GZELEN \<Rightarrow> i_handle_gzelen c
      | INF_STREND \<Rightarrow> i_handle_strend c)"

text \<open>The inner loop runs handlers while they answer \<^verbatim>\<open>Z_OK\<close>.\<close>

partial_function (option) i_run :: "(nat \<Rightarrow> bool) \<Rightarrow> inf_ctx \<Rightarrow> handled option" where
  "i_run alloc c =
     (case i_handle alloc c of
        Inl f \<Rightarrow> Some (Inl f)
      | Inr (ret, c') \<Rightarrow> if ret = Z_OK then i_run alloc c' else Some (Inr (ret, c')))"

definition i_after :: "int \<Rightarrow> inf_ctx z_stream \<Rightarrow> int \<times> inf_ctx z_stream" where
  "i_after ret s =
     (let (ret, s) = (if avail_out s \<noteq> 0
                      then let (k, s) = i_copy_out s in (if k \<noteq> 0 \<and> ret = Z_NEED_MORE then Z_OK else ret, s)
                      else (ret, s))
      in if avail_in s \<noteq> 0
         then let (k, s) = i_copy_in s in (if k \<noteq> 0 \<and> ret = Z_NEED_MORE then Z_OK else ret, s)
         else (ret, s))"

partial_function (option) inflate_loop ::
  "(nat \<Rightarrow> bool) \<Rightarrow> int \<Rightarrow> inf_ctx z_stream \<Rightarrow> (z_fault + int \<times> inf_ctx z_stream) option" where
  "inflate_loop alloc ret s =
     (if ret = Z_OK
         \<and> (avail_in s \<noteq> 0 \<or> z_ringbuf_read_size (bs_ring (i_bs (internal_state s))) \<noteq> 0)
         \<and> (avail_out s \<noteq> 0 \<or> z_ringbuf_write_size (i_output (internal_state s)) \<noteq> 0)
      then let s = (if avail_in s \<noteq> 0 then snd (i_copy_in s) else s)
           in case i_run alloc (internal_state s) of
                None \<Rightarrow> None
              | Some (Inl f) \<Rightarrow> Some (Inl f)
              | Some (Inr (ret, c)) \<Rightarrow>
                  (case i_after ret (s\<lparr>internal_state := c\<rparr>) of (ret, s) \<Rightarrow> inflate_loop alloc ret s)
      else Some (Inr (ret, s)))"

definition inflate_ret :: "int \<Rightarrow> inf_ctx z_stream \<Rightarrow> int" where
  "inflate_ret ret s =
     (let ret = (if ret = Z_STREAM_END \<and> z_ringbuf_read_size (i_output (internal_state s)) \<noteq> 0 then Z_OK else ret)
      in if ret = Z_NEED_MORE then Z_OK else ret)"

definition inflate :: "(nat \<Rightarrow> bool) \<Rightarrow> inf_ctx z_stream \<Rightarrow> int \<Rightarrow> (z_fault + int \<times> inf_ctx z_stream) option" where
  "inflate alloc s flush =
     (case inflate_loop alloc Z_OK s of
        None \<Rightarrow> None
      | Some (Inl f) \<Rightarrow> Some (Inl f)
      | Some (Inr (ret, s)) \<Rightarrow> Some (Inr (inflate_ret ret s, s)))"

text \<open>\<^verbatim>\<open>inflateEnd\<close> of a stream, whose context is \<open>None\<close> once it was ended.\<close>

definition inflateEnd :: "inf_ctx option z_stream option \<Rightarrow> int \<times> inf_ctx option z_stream option" where
  "inflateEnd stream =
     (case stream of
        None \<Rightarrow> (Z_STREAM_ERROR, stream)
      | Some s \<Rightarrow>
          (case internal_state s of
             None \<Rightarrow> (Z_STREAM_ERROR, stream)
           | Some c \<Rightarrow> if i_inf_def c \<noteq> 0 then (Z_STREAM_ERROR, stream)
                       else (Z_OK, Some (s\<lparr>internal_state := None\<rparr>))))"

end
