(* ===== verification/Zinv.thy ===== *)
theory Zinv
  imports Zinflate
begin

text \<open>
  The invariant of the decompressor's context, that every handler keeps it, and that a call comes to an end: a handler that
  answers \<^verbatim>\<open>Z_OK\<close> has taken bits from its input or has moved on to a state from which it will.
\<close>

section \<open>Streams and rings\<close>

lemma has_read_w: "rstream_ok bs \<Longrightarrow> bitstream_has_read bs w \<longleftrightarrow> unat w \<le> length (rbits bs)"
  by (simp add: bitstream_has_read_def word_le_nat_alt unat_bitstream_avail_read)

lemma skip_w:
  assumes "rstream_ok bs" "unat w \<le> length (rbits bs)"
  shows "rstream_ok (bitstream_skip bs w)" "rbits (bitstream_skip bs w) = drop (unat w) (rbits bs)"
  using bitstream_skip_rbits [of bs "unat w"] assms by simp_all

lemma skip_pos: "rstream_ok bs \<Longrightarrow> unat w \<le> 64 \<Longrightarrow> unat (bs_pos (bitstream_skip bs w)) = (unat (bs_pos bs) + unat w) mod 8"
  using bit_offset(2) [of "bs_pos bs" "unat w"] by (simp add: bitstream_skip_def rstream_ok_def Let_def)

lemma byte_align_ok:
  assumes "rstream_ok bs"
  shows "rstream_ok (byte_align bs)" "length (rbits (byte_align bs)) \<le> length (rbits bs)" "bs_pos (byte_align bs) = 0"
proof -
  have p: "unat (bs_pos bs) < 8" using assms by (simp add: rstream_ok_def)
  then have m: "bs_pos bs mod 8 = bs_pos bs" by (simp add: word_unat_eq_iff unat_mod)
  have "rstream_ok (byte_align bs) \<and> length (rbits (byte_align bs)) \<le> length (rbits bs) \<and> bs_pos (byte_align bs) = 0"
  proof (cases "bs_pos bs = 0")
    case True
    then show ?thesis using assms by (simp add: byte_align_def)
  next
    case False
    then have n: "unat (8 - bs_pos bs) = 8 - unat (bs_pos bs)" "contents (bs_ring bs) \<noteq> []"
      using p assms by (simp_all add: unat_sub word_le_nat_alt rstream_ok_def unat_eq_0)
    then have "unat (8 - bs_pos bs) \<le> length (rbits bs)" by (cases "contents (bs_ring bs)") (simp_all add: rbits_def)
    note sk = skip_w [OF assms this]
    have "unat (bs_pos (bitstream_skip bs (8 - bs_pos bs))) = 0"
      using skip_pos [OF assms, of "8 - bs_pos bs"] n(1) p by simp
    then show ?thesis using sk False m by (simp add: byte_align_def unat_eq_0)
  qed
  then show "rstream_ok (byte_align bs)" "length (rbits (byte_align bs)) \<le> length (rbits bs)" "bs_pos (byte_align bs) = 0"
    by simp_all
qed

lemma z_advance_write_ok:
  assumes "zring_ok rb"
  shows "zring_ok (z_ringbuf_advance_write rb n)"
proof -
  have p: "pow2_size rb" "ringbuf_wf rb" using assms by (simp_all add: zring_ok_def)
  then have "0 < unat (rb_size rb)" by (auto elim: ringbuf_wfE)
  then have "unat (write_pos (z_ringbuf_advance_write rb n)) < unat (rb_size rb)"
    using unat_ring_pos [OF p(1), of "write_pos rb" n] by (simp add: z_ringbuf_advance_write_def z_ringbuf_next_write_pos_def)
  then show ?thesis using p by (auto simp: zring_ok_def ringbuf_wf_def z_ringbuf_advance_write_def word_less_nat_alt)
qed

lemma ring_put_ok: "zring_ok rb \<Longrightarrow> zring_ok (ring_put rb i bs)" if "unat i + length bs \<le> unat (rb_size rb)"
  using that by (auto simp: zring_ok_def ringbuf_wf_def ring_put_def block_write_def)

lemma z_write_byte_ok: "zring_ok rb \<Longrightarrow> zring_ok (z_ringbuf_write_byte rb v)"
proof -
  assume ok: "zring_ok rb"
  then have "unat (write_pos rb) < unat (rb_size rb)" by (auto simp: zring_ok_def elim: ringbuf_wfE)
  then show ?thesis using ring_put_ok [of "write_pos rb" "[v]" "z_ringbuf_advance_write rb 1"] z_advance_write_ok [OF ok, of 1]
    by (simp add: z_ringbuf_write_byte_def Let_def z_ringbuf_advance_write_def)
qed

lemma decode_loop_skips:
  assumes "decode_loop bs huff i v pos = (r, bs')"
  shows "(r \<in> {Z_NEED_MORE, Z_DATA_ERROR} \<and> bs' = bs) \<or>
    (0 \<le> r \<and> (\<exists>k. i \<le> k \<and> k \<le> MAX_BITS \<and> bitstream_has_read bs (of_nat k) \<and> bs' = bitstream_skip bs (of_nat k)))"
  using assms
proof (induction bs huff i v pos rule: decode_loop.induct)
  case (1 bs huff i v pos)
  let ?v = "push_bit 1 v OR ucast (bitstream_getbit bs (of_nat i - 1))"
  let ?n = "ucast (hf_counts huff ! i) :: u32" and ?b = "ucast (hf_codes huff ! i) :: u32"
  consider "\<not> i \<le> MAX_BITS" | "i \<le> MAX_BITS" "\<not> bitstream_has_read bs (of_nat i)"
    | "i \<le> MAX_BITS" "bitstream_has_read bs (of_nat i)" "?b \<le> ucast ?v \<and> ucast ?v < ?b + ?n"
    | "i \<le> MAX_BITS" "bitstream_has_read bs (of_nat i)" "\<not> (?b \<le> ucast ?v \<and> ucast ?v < ?b + ?n)" by blast
  then show ?case
  proof cases
    case 1
    with "1.prems" show ?thesis by (simp add: decode_loop.simps [of bs huff i])
  next
    case 2
    with "1.prems" show ?thesis by (simp add: decode_loop.simps [of bs huff i])
  next
    case 3
    with "1.prems" show ?thesis by (auto simp: decode_loop.simps [of bs huff i] Let_def)
  next
    case 4
    with "1.prems" have "decode_loop bs huff (Suc i) ?v (pos + ?n) = (r, bs')"
      unfolding decode_loop.simps [of bs huff i] Let_def by (simp only: if_True if_not_P [OF 4(3)] simp_thms if_False)
    from "1.IH" [OF 4(1) _ refl refl refl _ this] 4(2,3) show ?thesis by (auto dest: Suc_leD)
  qed
qed

lemma huffman_decode_skips:
  assumes "huffman_decode bs huff = (r, bs')" "rstream_ok bs"
  obtains "r \<in> {Z_NEED_MORE, Z_DATA_ERROR}" "bs' = bs"
    | k where "0 \<le> r" "0 < k" "k \<le> 15" "k \<le> length (rbits bs)" "rstream_ok bs'" "rbits bs' = drop k (rbits bs)"
proof -
  consider "r \<in> {Z_NEED_MORE, Z_DATA_ERROR}" "bs' = bs" | k where "0 \<le> r" "1 \<le> k" "k \<le> 15" "bitstream_has_read bs (of_nat k)" "bs' = bitstream_skip bs (of_nat k)"
    using decode_loop_skips [of bs huff 1 0 0 r bs'] assms(1) by (auto simp: huffman_decode_def MAX_BITS_def)
  then show ?thesis
  proof cases
    case 1
    then show ?thesis by (rule that(1))
  next
    case (2 k)
    then have "unat (of_nat k :: size_t) = k" by (intro unat_of_nat64) simp
    with 2 has_read_w [OF assms(2), of "of_nat k"] skip_w [OF assms(2), of "of_nat k"] show ?thesis
      by (intro that(2) [of k]) simp_all
  qed
qed

lemma length_place_loop [simp]: "length (place_loop i ss offs vs) = length vs"
  by (induction i ss offs vs rule: place_loop.induct) simp_all

lemma length_huffman_generate [simp]: "length (hf_values (huffman_generate huff sizes n)) = length (hf_values huff)"
  by (simp add: huffman_generate_def Let_def)

section \<open>The invariant\<close>

text \<open>
  The input is a stream fit to read from, the window a ring once the header was read. Stored data is read from a byte
  boundary. The arrays have the lengths of their declarations.
\<close>

definition inf_ok :: "inf_ctx \<Rightarrow> bool" where
  "inf_ok c \<longleftrightarrow> rstream_ok (i_bs c) \<and>
     (if i_state c = INF_ZLHEAD then i_output c = \<lparr>data = None, rb_size = 0, read_pos = 0, write_pos = 0\<rparr> else zring_ok (i_output c)) \<and>
     (i_state c = INF_RAWBLK \<longrightarrow> bs_pos (i_bs c) = 0) \<and>
     (i_state c = INF_DYNLEN \<longrightarrow> 4 \<le> unat (i_dyn_hclen c) \<and> unat (i_dyn_hclen c) \<le> 19) \<and>
     length (i_dyn_lengths c) = DYN_LENGTHS \<and>
     length (hf_values (i_huff_lit c)) = 288 \<and> length (hf_values (i_huff_dist c)) = 288 \<and> length (hf_values (i_dyn_code_huff c)) = 288"

definition z_codes :: "int set" where
  "z_codes = {Z_OK, Z_STREAM_END, Z_STREAM_ERROR, Z_DATA_ERROR, Z_MEM_ERROR, Z_NEED_MORE}"

lemma z_codes_in [simp]: "Z_OK \<in> z_codes" "Z_STREAM_END \<in> z_codes" "Z_STREAM_ERROR \<in> z_codes" "Z_DATA_ERROR \<in> z_codes"
  "Z_MEM_ERROR \<in> z_codes" "Z_NEED_MORE \<in> z_codes"
  by (simp_all add: z_codes_def)

lemma z_codes_distinct [simp]: "Z_STREAM_END \<noteq> Z_OK" "Z_STREAM_ERROR \<noteq> Z_OK" "Z_DATA_ERROR \<noteq> Z_OK" "Z_MEM_ERROR \<noteq> Z_OK" "Z_NEED_MORE \<noteq> Z_OK"
  "Z_NEED_MORE < 0" "Z_DATA_ERROR < 0"
  by (simp_all add: Z_STREAM_END_def Z_STREAM_ERROR_def Z_DATA_ERROR_def Z_MEM_ERROR_def Z_NEED_MORE_def Z_OK_def)

lemmas z_codes_distinct' [simp] = z_codes_distinct(1-5) [symmetric]

text \<open>How far a context is from asking for input: the bits it has, and a rank of the states between reads.\<close>

fun state_rank :: "inf_state \<Rightarrow> nat" where
  "state_rank INF_ZLHEAD = 7"
| "state_rank INF_ZLDICT = 6"
| "state_rank INF_GZHEAD = 5"
| "state_rank INF_GZXTRA = 4"
| "state_rank INF_RAWBLK = 3"
| "state_rank INF_EXTDST = 3"
| "state_rank INF_BLKHDR = 2"
| "state_rank INF_DYNLIT = 2"
| "state_rank INF_REFCPY = 2"
| "state_rank INF_HUFCOD = 1"
| "state_rank INF_EXTLEN = 1"
| "state_rank INF_ZADLER = 1"
| "state_rank INF_GZECRC = 1"
| "state_rank INF_GZELEN = 1"
| "state_rank _ = 0"

lemma state_rank_less: "state_rank st < 8"
  by (cases st) simp_all

definition work :: "inf_ctx \<Rightarrow> nat" where
  "work c = 8 * length (rbits (i_bs c)) + state_rank (i_state c)"

lemma work_bits:
  assumes "length (rbits (i_bs c')) < length (rbits (i_bs c))"
  shows "work c' < work c"
  using assms state_rank_less [of "i_state c'"] by (simp add: work_def)

lemma work_state:
  assumes "length (rbits (i_bs c')) \<le> length (rbits (i_bs c))" "state_rank (i_state c') < state_rank (i_state c)"
  shows "work c' < work c"
  using assms by (simp add: work_def)

definition moves :: "inf_ctx \<Rightarrow> handled \<Rightarrow> bool" where
  "moves c r \<longleftrightarrow> (case r of
       Inl f \<Rightarrow> i_state c \<in> {INF_GZXTRA, INF_DYNLIT, INF_HUFCOD, INF_HUFDST}
     | Inr (ret, c') \<Rightarrow> inf_ok c' \<and> ret \<in> z_codes \<and> (ret = Z_OK \<longrightarrow> work c' < work c))"

lemma moves_stop: "inf_ok c' \<Longrightarrow> ret \<in> z_codes \<Longrightarrow> ret \<noteq> Z_OK \<Longrightarrow> moves c (Inr (ret, c'))"
  by (simp add: moves_def)

lemma moves_ok: "inf_ok c' \<Longrightarrow> work c' < work c \<Longrightarrow> moves c (Inr (Z_OK, c'))"
  by (simp add: moves_def)

section \<open>The handlers\<close>

lemma output_ring_ok:
  assumes "k \<le> 15"
  shows "zring_ok (output_ring (2 ^ k))"
proof -
  have "(2 :: nat) ^ k \<le> 2 ^ 15" using assms by (intro power_increasing) simp_all
  then have "(2 :: nat) ^ k < 2 ^ 64" "(2 :: nat) ^ k \<le> 32768" by simp_all
  moreover from this have "unat (2 ^ k :: size_t) = 2 ^ k" using unat_of_nat64 [of "2 ^ k"] by simp
  ultimately show ?thesis using assms
    by (auto simp: output_ring_def zring_ok_def ringbuf_wf_def pow2_size_def z_ringbuf_init_def word_less_nat_alt intro!: exI [of _ k])
qed

lemma nibble_less: "unat (x AND 0xF :: u32) < 16"
proof -
  have "x AND 0xF = take_bit 4 x" by (simp add: take_bit_eq_mask mask_numeral)
  then have "unat (x AND 0xF) = take_bit 4 (unat x)" by (simp add: unsigned_take_bit_eq)
  moreover have "take_bit 4 (unat x) < 2 ^ 4" by (rule take_bit_nat_less_exp)
  ultimately show ?thesis by simp
qed

lemma window_size:
  assumes "k \<le> 23" "\<not> ucast MAX_WINDOW_SIZE < (push_bit k 1 :: u32)"
  shows "k \<le> 15 \<and> ucast (push_bit k 1 :: u32) = (2 ^ k :: size_t)"
proof -
  have "(2 :: nat) ^ k \<le> 2 ^ 23" using assms(1) by (intro power_increasing) simp_all
  then have u: "unat (2 ^ k :: u32) = 2 ^ k" "unat (2 ^ k :: size_t) = 2 ^ k" 
    using unat_of_nat32 [of "2 ^ k"] unat_of_nat64 [of "2 ^ k"] by simp_all
  have p: "push_bit k 1 = (2 ^ k :: u32)" by (simp add: push_bit_eq_mult)
  have "\<not> 2 ^ 15 < (2 :: nat) ^ k" using assms(2) u(1) unfolding p by (simp add: word_less_nat_alt MAX_WINDOW_SIZE_def)
  then have "k \<le> 15" by (metis not_less one_less_numeral_iff power_less_imp_less_exp power_strict_increasing semiring_norm(76))
  moreover have "ucast (2 ^ k :: u32) = (2 ^ k :: size_t)" using u assms(1) \<open>2 ^ k \<le> 2 ^ 23\<close>
    by (simp add: word_unat_eq_iff unsigned_ucast_eq take_bit_nat_eq_self)
  ultimately show ?thesis using p by simp
qed

lemma zlhead_moves:
  assumes "inf_ok c" "i_state c = INF_ZLHEAD"
  shows "moves c (i_handle_zlhead c)"
proof -
  let ?magic = "bitstream_peek (i_bs c) 16"
  let ?k = "unat (8 + (drop_bit 4 ?magic AND 0xF))"
  have bs: "rstream_ok (i_bs c)" using assms by (simp add: inf_ok_def)
  have k: "?k \<le> 23" using nibble_less [of "drop_bit 4 ?magic"] by (simp add: unat_word_ariths(1))
  have out: "zring_ok (output_ring MAX_WINDOW_SIZE)" using output_ring_ok [of 15] by (simp add: MAX_WINDOW_SIZE_def)
  show ?thesis
  proof (cases "bitstream_has_read (i_bs c) 16")
    case False
    then show ?thesis using assms by (simp add: i_handle_zlhead_def moves_stop)
  next
    case True
    then have 16: "16 \<le> length (rbits (i_bs c))" using has_read_w [OF bs, of 16] by simp
    note sk = skip_w [OF bs, of 16]
    show ?thesis
    proof (cases "ucast MAX_WINDOW_SIZE < (push_bit ?k 1 :: u32)")
      case big: True
      have "work (c\<lparr>i_output := output_ring MAX_WINDOW_SIZE, i_state := INF_GZHEAD\<rparr>) < work c"
        by (rule work_state) (simp_all add: assms)
      with True big assms out show ?thesis
        by (simp add: i_handle_zlhead_def moves_stop Let_def) (simp add: inf_ok_def moves_def)
    next
      case False
      note w = window_size [OF k False]
      have "work (c\<lparr>i_output := output_ring MAX_WINDOW_SIZE, i_state := INF_GZHEAD\<rparr>) < work c"
        by (rule work_state) (simp_all add: assms)
      moreover have "work (c\<lparr>i_output := r, i_bs := bitstream_skip (i_bs c) 16, i_zlib := z, i_state := st\<rparr>) < work c" for r z st
        by (rule work_bits) (use 16 sk in simp)
      ultimately show ?thesis using True False w assms out sk 16 output_ring_ok [of ?k]
        by (simp add: i_handle_zlhead_def Let_def moves_def) (simp add: inf_ok_def)
    qed
  qed
qed

lemmas handler_simps = bitstream_read_def Let_def has_read_w skip_w moves_def inf_ok_def work_def

lemma zldict_moves: "inf_ok c \<Longrightarrow> i_state c = INF_ZLDICT \<Longrightarrow> moves c (i_handle_zldict c)"
  by (auto simp: i_handle_zldict_def handler_simps)

lemma state_rank_after [simp]: "state_rank (after_extra f) \<le> 2" "state_rank (after_name f) \<le> 2" "state_rank (after_comment f) \<le> 2"
  by (simp_all add: after_extra_def after_name_def after_comment_def)

lemma after_extra_ne [simp]: "after_extra f \<noteq> INF_ZLHEAD" "after_extra f \<noteq> INF_RAWBLK" "after_extra f \<noteq> INF_DYNLEN"
  "after_name f \<noteq> INF_ZLHEAD" "after_name f \<noteq> INF_RAWBLK" "after_name f \<noteq> INF_DYNLEN"
  "after_comment f \<noteq> INF_ZLHEAD" "after_comment f \<noteq> INF_RAWBLK" "after_comment f \<noteq> INF_DYNLEN"
  by (simp_all add: after_extra_def after_name_def after_comment_def)

lemma gzhead_fields_moves:
  assumes "inf_ok c" "i_state c = INF_GZHEAD"
  shows "moves c (i_gzhead_fields c)"
proof (cases "bitstream_has_read (i_bs c) 64")
  case False
  then show ?thesis using assms by (simp add: i_gzhead_fields_def moves_stop)
next
  case True
  let ?b = "bitstream_skip (bitstream_skip (bitstream_skip (bitstream_skip (bitstream_skip (i_bs c) 8) 8) 32) 8) 8"
  have bs: "rstream_ok (i_bs c)" using assms(1) by (simp add: inf_ok_def)
  have 64: "64 \<le> length (rbits (i_bs c))" using True has_read_w [OF bs, of 64] by simp
  then have b: "rstream_ok ?b" "rbits ?b = drop 64 (rbits (i_bs c))" using bs by (simp_all add: skip_w)
  have "inf_ok (c\<lparr>i_bs := ?b, i_gzip := g, i_state := (if P then INF_GZXTRA else after_extra f)\<rparr>)" for g f P
    using assms b by (simp add: inf_ok_def)
  moreover have "work (c\<lparr>i_bs := ?b, i_gzip := g, i_state := st\<rparr>) < work c" for g st
    by (rule work_bits) (use b 64 in simp)
  ultimately show ?thesis using True by (simp add: i_gzhead_fields_def bitstream_read_def Let_def moves_ok)
qed

lemma moves_from:
  assumes "moves c1 r" "work c1 \<le> work c" "i_state c1 = i_state c"
  shows "moves c r"
  using assms by (auto simp: moves_def split: sum.splits)

lemma gzhead_moves:
  assumes "inf_ok c" "i_state c = INF_GZHEAD"
  shows "moves c (i_handle_gzhead c)"
proof -
  have bs: "rstream_ok (i_bs c)" using assms(1) by (simp add: inf_ok_def)
  have "moves c (i_gzhead_fields (c\<lparr>i_is_gzip := True, i_bs := bitstream_skip (i_bs c) 16, i_gzip := g\<rparr>))"
    if "16 \<le> length (rbits (i_bs c))" for g
  proof (rule moves_from [OF gzhead_fields_moves])
    show "inf_ok (c\<lparr>i_is_gzip := True, i_bs := bitstream_skip (i_bs c) 16, i_gzip := g\<rparr>)"
      using assms bs that by (simp add: inf_ok_def skip_w)
    show "work (c\<lparr>i_is_gzip := True, i_bs := bitstream_skip (i_bs c) 16, i_gzip := g\<rparr>) \<le> work c"
      using bs that by (simp add: work_def skip_w)
  qed (simp_all add: assms)
  moreover have "moves c (Inr (Z_OK, c\<lparr>i_state := INF_BLKHDR\<rparr>))"
    using assms by (simp add: moves_def inf_ok_def work_def)
  ultimately show ?thesis using assms gzhead_fields_moves [OF assms] bs
    by (simp add: i_handle_gzhead_def Let_def has_read_w moves_stop)
qed

lemma gzxtra_loop_keeps:
  assumes "inf_ok c" "8 * n \<le> length (rbits (i_bs c))" "gzxtra_loop i n c = Inr (ret, c')" "i_state c = INF_GZXTRA"
  shows "inf_ok c' \<and> i_state c' = INF_GZXTRA \<and> rbits (i_bs c') = drop (8 * n) (rbits (i_bs c))"
  using assms
proof (induction n arbitrary: i c)
  case (Suc n)
  then have bs: "rstream_ok (i_bs c)" "8 \<le> length (rbits (i_bs c))" by (simp_all add: inf_ok_def)
  then have sk: "rstream_ok (bitstream_skip (i_bs c) 8)" "rbits (bitstream_skip (i_bs c) 8) = drop 8 (rbits (i_bs c))"
    by (simp_all add: skip_w)
  obtain bytes where x: "gz_extra (i_gzip c) = Some bytes"
    using Suc.prems(3) by (auto simp: bitstream_read_def Let_def split: option.splits)
  let ?c = "c\<lparr>i_bs := bitstream_skip (i_bs c) 8,
      i_gzip := (i_gzip c)\<lparr>gz_extra := Some (bytes @ [of_nat i]), gz_extra_len := gz_extra_len (i_gzip c) + 1\<rparr>\<rparr>"
  have "gzxtra_loop (Suc i) n ?c = Inr (ret, c')" using Suc.prems(3) x by (simp add: bitstream_read_def Let_def)
  moreover have "inf_ok ?c" using Suc.prems(1,4) sk by (simp add: inf_ok_def)
  moreover have "8 * n \<le> length (rbits (i_bs ?c))" using Suc.prems(2) sk by simp
  ultimately show ?case using Suc.IH [of ?c "Suc i"] Suc.prems(4) sk by (simp add: add.commute)
qed simp

lemma unat_avail_bytes: "rstream_ok bs \<Longrightarrow> unat (bitstream_avail_read bs div 8) = length (rbits bs) div 8"
  by (simp add: unat_div unat_bitstream_avail_read)

lemma gzxtra_end_moves:
  assumes "inf_ok c" "i_state c = INF_GZXTRA" "work (c\<lparr>i_state := after_extra (gz_flg (i_gzip c))\<rparr>) < work c0"
  shows "moves c0 (gzxtra_end c)"
  unfolding gzxtra_end_def using assms(1,2)
  by (intro moves_ok assms(3)) (auto simp: inf_ok_def split: if_splits)


lemma unat_ucast16: "unat (ucast x :: size_t) = unat x" for x :: u16
proof -
  have "unat x < 2 ^ 16" using unsigned_less [where ?'a = nat, of x] by simp
  then show ?thesis by (simp add: unsigned_ucast_eq take_bit_nat_eq_self)
qed

lemma gzxtra_body_moves:
  assumes "inf_ok c" "i_state c = INF_GZXTRA"
  shows "moves c (gzxtra_body c)"
proof -
  let ?avail = "bitstream_avail_read (i_bs c) div 8"
  let ?rem = "ucast (gz_xlen (i_gzip c)) - ucast (gz_extra_len (i_gzip c)) :: size_t"
  let ?n = "if ?avail > ?rem then ?rem else ?avail"
  have bs: "rstream_ok (i_bs c)" using assms(1) by (simp add: inf_ok_def)
  show ?thesis
  proof (cases "?avail = 0")
    case True
    then show ?thesis using assms by (simp add: gzxtra_body_def Let_def moves_stop)
  next
    case False
    have n: "8 * unat ?n \<le> length (rbits (i_bs c))"
      using unat_avail_bytes [OF bs] by (auto simp: word_less_nat_alt)
    show ?thesis
    proof (cases "gzxtra_loop 0 (unat ?n) c")
      case (Inl f)
      then show ?thesis using False assms by (simp add: gzxtra_body_def Let_def moves_def)
    next
      case (Inr r)
      obtain ret c' where r: "r = (ret, c')" by fastforce
      note k = gzxtra_loop_keeps [OF assms(1) n Inr [unfolded r] assms(2)]
      have "moves c (gzxtra_end c')"
        using k by (intro gzxtra_end_moves work_state) (simp_all add: assms(2) le_less_trans [OF state_rank_after(1)])
      moreover have "work c' < work c" if "gz_extra_len (i_gzip c') \<noteq> gz_xlen (i_gzip c')"
      proof (rule work_bits)
        have "unat ?n \<noteq> 0"
        proof
          assume z: "unat ?n = 0"
          then have "c' = c" using Inr r by simp
          moreover from z False have "?rem = 0" by (auto simp: unat_eq_0 split: if_splits)
          then have "(ucast (gz_xlen (i_gzip c)) :: size_t) = ucast (gz_extra_len (i_gzip c))" by (simp only: right_minus_eq)
          then have "gz_xlen (i_gzip c) = gz_extra_len (i_gzip c)" by (metis unat_ucast16 word_unat_eq_iff)
          ultimately show False using that by simp
        qed
        then show "length (rbits (i_bs c')) < length (rbits (i_bs c))" using k n by simp
      qed
      ultimately show ?thesis using False Inr r k by (simp add: gzxtra_body_def Let_def moves_ok)
    qed
  qed
qed

lemma gzxtra_moves:
  assumes "inf_ok c" "i_state c = INF_GZXTRA"
  shows "moves c (i_handle_gzxtra alloc c)"
proof -
  have bs: "rstream_ok (i_bs c)" using assms(1) by (simp add: inf_ok_def)
  show ?thesis
  proof (cases "gz_xlen (i_gzip c) = 0 \<and> 16 \<le> length (rbits (i_bs c))")
    case False
    then show ?thesis using assms gzxtra_body_moves [OF assms] bs
      by (auto simp: i_handle_gzxtra_def Let_def has_read_w intro: moves_stop)
  next
    case True
    then have 16: "16 \<le> length (rbits (i_bs c))" by simp
    let ?c = "\<lambda>g n. c\<lparr>i_bs := bitstream_skip (i_bs c) 16, i_allocs := n, i_gzip := g\<rparr>"
    have ok: "inf_ok (?c g n)" "work (?c g n) < work c" for g n
      using assms 16 bs by (simp_all add: inf_ok_def work_def skip_w)
    have "moves c (gzxtra_body (?c g n))" for g n
      by (rule moves_from [OF gzxtra_body_moves [OF ok(1)] less_imp_le [OF ok(2)]]) (simp_all add: assms(2))
    moreover have "moves c (gzxtra_end (c\<lparr>i_bs := bitstream_skip (i_bs c) 16, i_gzip := g\<rparr>))" for g
      using ok(1) [where g = g and n = "i_allocs c"] assms(2) 16 bs
      by (intro gzxtra_end_moves work_bits) (simp_all add: skip_w)
    ultimately show ?thesis using True bs ok assms
      by (auto simp: i_handle_gzxtra_def bitstream_read_def Let_def has_read_w intro!: moves_stop)
  qed
qed

lemma gzname_loop_moves:
  assumes "inf_ok c" "8 * n \<le> length (rbits (i_bs c))" "i_state c = INF_GZNAME"
  shows "moves c (gzname_loop alloc n c)"
  using assms
proof (induction n arbitrary: c)
  case (Suc n)
  then have bs: "rstream_ok (i_bs c)" "8 \<le> length (rbits (i_bs c))" by (simp_all add: inf_ok_def)
  let ?a = "c\<lparr>i_allocs := Suc (i_allocs c)\<rparr>"
  let ?c = "?a\<lparr>i_bs := bitstream_skip (i_bs c) 8,
      i_gzip := (i_gzip c)\<lparr>gz_name := gz_name (i_gzip c) @ [ucast (bitstream_peek (i_bs c) 8)]\<rparr>\<rparr>"
  have ok: "inf_ok ?a" "inf_ok ?c" "work ?c \<le> work c" "8 * n \<le> length (rbits (i_bs ?c))"
    using Suc.prems bs by (simp_all add: inf_ok_def work_def skip_w)
  have "moves c (Inr (Z_OK, ?c\<lparr>i_state := after_name (gz_flg (i_gzip ?c))\<rparr>))"
    using Suc.prems bs by (intro moves_ok work_bits) (simp_all add: skip_w inf_ok_def)
  moreover have "moves c (gzname_loop alloc n ?c)"
    by (rule moves_from [OF Suc.IH [OF ok(2,4)] ok(3)]) (simp_all add: Suc.prems(3))
  ultimately show ?case using ok(1)
    by (cases "alloc (i_allocs c)"; cases "bitstream_peek (i_bs c) 8 = 0") (simp_all add: bitstream_read_def Let_def moves_stop)
qed (simp add: moves_stop)

lemma gzname_moves: "inf_ok c \<Longrightarrow> i_state c = INF_GZNAME \<Longrightarrow> moves c (i_handle_gzname alloc c)"
  using gzname_loop_moves [of c "unat (bitstream_avail_read (i_bs c) div 8)" alloc] unat_avail_bytes [of "i_bs c"]
  by (auto simp: i_handle_gzname_def Let_def inf_ok_def intro!: moves_stop)

lemma gzcomm_loop_moves:
  assumes "inf_ok c" "8 * n \<le> length (rbits (i_bs c))" "i_state c = INF_GZCOMM"
  shows "moves c (gzcomm_loop alloc n c)"
  using assms
proof (induction n arbitrary: c)
  case (Suc n)
  then have bs: "rstream_ok (i_bs c)" "8 \<le> length (rbits (i_bs c))" by (simp_all add: inf_ok_def)
  let ?a = "c\<lparr>i_allocs := Suc (i_allocs c)\<rparr>"
  let ?c = "?a\<lparr>i_bs := bitstream_skip (i_bs c) 8,
      i_gzip := (i_gzip c)\<lparr>gz_comment := gz_comment (i_gzip c) @ [ucast (bitstream_peek (i_bs c) 8)]\<rparr>\<rparr>"
  have ok: "inf_ok ?a" "inf_ok ?c" "work ?c \<le> work c" "8 * n \<le> length (rbits (i_bs ?c))"
    using Suc.prems bs by (simp_all add: inf_ok_def work_def skip_w)
  have "moves c (Inr (Z_OK, ?c\<lparr>i_state := after_comment (gz_flg (i_gzip ?c))\<rparr>))"
    using Suc.prems bs by (intro moves_ok work_bits) (simp_all add: skip_w inf_ok_def)
  moreover have "moves c (gzcomm_loop alloc n ?c)"
    by (rule moves_from [OF Suc.IH [OF ok(2,4)] ok(3)]) (simp_all add: Suc.prems(3))
  ultimately show ?case using ok(1)
    by (cases "alloc (i_allocs c)"; cases "bitstream_peek (i_bs c) 8 = 0") (simp_all add: bitstream_read_def Let_def moves_stop)
qed (simp add: moves_stop)

lemma gzcomm_moves: "inf_ok c \<Longrightarrow> i_state c = INF_GZCOMM \<Longrightarrow> moves c (i_handle_gzcomm alloc c)"
  using gzcomm_loop_moves [of c "unat (bitstream_avail_read (i_bs c) div 8)" alloc] unat_avail_bytes [of "i_bs c"]
  by (auto simp: i_handle_gzcomm_def Let_def inf_ok_def intro!: moves_stop)


lemma gzhcrc_moves: "inf_ok c \<Longrightarrow> i_state c = INF_GZHCRC \<Longrightarrow> moves c (i_handle_gzhcrc c)"
  by (auto simp: i_handle_gzhcrc_def handler_simps)

lemma blkhdr_moves:
  assumes "inf_ok c" "i_state c = INF_BLKHDR"
  shows "moves c (i_handle_blkhdr c)"
proof -
  have bs: "rstream_ok (i_bs c)" using assms(1) by (simp add: inf_ok_def)
  show ?thesis
  proof (cases "i_last c = 0 \<and> 3 \<le> length (rbits (i_bs c))")
    case False
    then show ?thesis using assms bs by (auto simp: i_handle_blkhdr_def handler_simps)
  next
    case True
    let ?b = "bitstream_skip (bitstream_skip (i_bs c) 1) 2"
    have three: "3 \<le> length (rbits (i_bs c))" using True by simp
    then have b: "rstream_ok ?b" "rbits ?b = drop 3 (rbits (i_bs c))" using bs by (simp_all add: skip_w)
    have ok: "inf_ok (c\<lparr>i_bs := ?b, i_last := l, i_state := st\<rparr>)" if "st \<in> {INF_RAWHDR, INF_HUFCOD, INF_DYNHDR, INF_BLKHDR}" for l st
      using assms b that by (auto simp: inf_ok_def)
    then have "moves c (Inr (Z_OK, c\<lparr>i_bs := ?b, i_last := l, i_state := st\<rparr>))" if "st \<in> {INF_RAWHDR, INF_DYNHDR}" for l st
      using that b three by (intro moves_ok work_bits) auto
    moreover have "moves c (Inr (Z_OK, (generate_static_huffman (c\<lparr>i_bs := ?b, i_last := l\<rparr>))\<lparr>i_state := INF_HUFCOD, i_hufcode_char := - 1\<rparr>))" for l
      using ok [of INF_HUFCOD l] b three
      by (intro moves_ok work_bits) (auto simp: inf_ok_def generate_static_huffman_def)
    moreover have "inf_ok (c\<lparr>i_bs := ?b, i_last := l\<rparr>)" for l using assms b by (simp add: inf_ok_def)
    ultimately show ?thesis using True bs
      by (simp add: i_handle_blkhdr_def bitstream_read_def Let_def has_read_w moves_stop)
  qed
qed

lemma rawhdr_moves:
  assumes "inf_ok c" "i_state c = INF_RAWHDR"
  shows "moves c (i_handle_rawhdr c)"
proof -
  let ?a = "byte_align (i_bs c)"
  have bs: "rstream_ok (i_bs c)" using assms(1) by (simp add: inf_ok_def)
  note al = byte_align_ok [OF bs]
  show ?thesis
  proof (cases "32 \<le> length (rbits ?a)")
    case False
    then show ?thesis using assms al has_read_w [OF al(1), of 32]
      by (auto simp: i_handle_rawhdr_def Let_def inf_ok_def intro!: moves_stop)
  next
    case True
    let ?b = "bitstream_skip (bitstream_skip ?a 16) 16"
    have b: "rstream_ok ?b" "rbits ?b = drop 32 (rbits ?a)" using True al by (simp_all add: skip_w)
    have "unat (bs_pos (bitstream_skip ?a 16)) = 0" using skip_pos [OF al(1), of 16] al(3) by simp
    moreover have "rstream_ok (bitstream_skip ?a 16)" using True al by (simp add: skip_w)
    ultimately have pos: "bs_pos ?b = 0" using skip_pos [of "bitstream_skip ?a 16" 16] by (simp add: unat_eq_0)
    have "inf_ok (c\<lparr>i_bs := ?b, i_raw_len := l, i_raw_nlen := m\<rparr>)" for l m using assms b by (simp add: inf_ok_def)
    moreover have "moves c (Inr (Z_OK, c\<lparr>i_bs := ?b, i_raw_len := l, i_raw_nlen := m, i_state := INF_RAWBLK\<rparr>))" for l m
      using assms b pos True al(2) by (intro moves_ok work_bits) (simp_all add: inf_ok_def)
    ultimately show ?thesis using True has_read_w [OF al(1), of 32]
      by (simp add: i_handle_rawhdr_def bitstream_read_def Let_def moves_stop)
  qed
qed

lemma dynhdr_moves:
  assumes "inf_ok c" "i_state c = INF_DYNHDR"
  shows "moves c (i_handle_dynhdr c)"
proof (cases "14 \<le> length (rbits (i_bs c))")
  case False
  then show ?thesis using assms by (auto simp: i_handle_dynhdr_def handler_simps)
next
  case True
  let ?b1 = "bitstream_skip (i_bs c) 5" let ?b2 = "bitstream_skip ?b1 5" let ?b = "bitstream_skip ?b2 4"
  have bs: "rstream_ok (i_bs c)" using assms(1) by (simp add: inf_ok_def)
  have b: "rstream_ok ?b" "rbits ?b = drop 14 (rbits (i_bs c))" using True bs by (simp_all add: skip_w)
  have "4 \<le> unat (bitstream_peek ?b2 4 + 4) \<and> unat (bitstream_peek ?b2 4 + 4) \<le> 19" using bitstream_peek_less [of 4 ?b2] by (simp add: unat_word_ariths(1))
  then have "inf_ok (c\<lparr>i_bs := ?b, i_dyn_hlit := l, i_dyn_hdist := m, i_dyn_hclen := bitstream_peek ?b2 4 + 4, i_state := INF_DYNLEN\<rparr>)" for l m
    using assms b by (simp add: inf_ok_def)
  then show ?thesis using True bs b by (auto simp: i_handle_dynhdr_def bitstream_read_def Let_def has_read_w intro!: moves_ok work_bits)
qed

lemma dynlen_loop_reads:
  assumes "rstream_ok bs" "3 * length ks \<le> length (rbits bs)" "dynlen_loop ks bs lengths = (bs', lengths')"
  shows "rstream_ok bs' \<and> rbits bs' = drop (3 * length ks) (rbits bs)"
  using assms
proof (induction ks arbitrary: bs lengths)
  case (Cons k ks)
  then have "dynlen_loop ks (bitstream_skip bs 3) (lengths[k := ucast (bitstream_peek bs 3)]) = (bs', lengths')"
    by (simp add: bitstream_read_def)
  moreover have "rstream_ok (bitstream_skip bs 3)" "rbits (bitstream_skip bs 3) = drop 3 (rbits bs)"
    using Cons.prems(1,2) by (simp_all add: skip_w)
  ultimately show ?case using Cons.IH [of "bitstream_skip bs 3"] Cons.prems(2) by (simp add: add.commute)
qed simp

lemma dynlen_moves:
  assumes "inf_ok c" "i_state c = INF_DYNLEN"
  shows "moves c (i_handle_dynlen c)"
proof -
  let ?n = "unat (i_dyn_hclen c)"
  have bs: "rstream_ok (i_bs c)" "?n \<le> 19" "4 \<le> ?n" using assms by (simp_all add: inf_ok_def)
  have un: "unat (ucast (i_dyn_hclen c * 3) :: size_t) = 3 * ?n"
    using bs(2) by (simp add: unsigned_ucast_eq unat_word_ariths(2) take_bit_nat_eq_self)
  show ?thesis
  proof (cases "3 * ?n \<le> length (rbits (i_bs c))")
    case False
    then show ?thesis using assms un bs by (simp add: i_handle_dynlen_def has_read_w moves_stop)
  next
    case True
    obtain b l where d: "dynlen_loop (take ?n code_lengths_idx) (i_bs c) (replicate 19 0) = (b, l)" by fastforce
    have "length (take ?n code_lengths_idx) = ?n" using bs(2) by (simp add: code_lengths_idx_def)
    with dynlen_loop_reads [OF bs(1) _ d] True have b: "rstream_ok b" "rbits b = drop (3 * ?n) (rbits (i_bs c))" by simp_all
    have "inf_ok (c\<lparr>i_bs := b, i_dyn_code_huff := huffman_generate (i_dyn_code_huff c) l 19, i_dyn_hlit_pos := 0, i_state := INF_DYNLIT, i_dyn_hlit_hufcode := - 1\<rparr>)"
      using assms b by (simp add: inf_ok_def)
    then have "moves c (Inr (Z_OK, c\<lparr>i_bs := b, i_dyn_code_huff := huffman_generate (i_dyn_code_huff c) l 19, i_dyn_hlit_pos := 0, i_state := INF_DYNLIT, i_dyn_hlit_hufcode := - 1\<rparr>))"
      using b bs True by (intro moves_ok work_bits) simp_all
    then show ?thesis using un bs True d by (simp add: i_handle_dynlen_def has_read_w)
  qed
qed

lemma cpy_len_bounds:
  "unat (cpy_len len input output) \<le> unat (z_ringbuf_contiguous_read_size input)"
  "unat (cpy_len len input output) \<le> unat (z_ringbuf_contiguous_write_size output)"
proof -
  have u: "unat (ucast x :: u32) \<le> unat x" for x :: size_t by (simp add: unsigned_ucast_eq take_bit_eq_mod)
  show "unat (cpy_len len input output) \<le> unat (z_ringbuf_contiguous_read_size input)"
    "unat (cpy_len len input output) \<le> unat (z_ringbuf_contiguous_write_size output)"
    using u [of "z_ringbuf_contiguous_read_size input"] u [of "z_ringbuf_contiguous_write_size output"]
    by (auto simp: cpy_len_def Let_def word_less_nat_alt)
qed

text \<open>One round of a stored block.\<close>

lemma rawblk_round:
  assumes "inf_ok c" "i_state c = INF_RAWBLK" "cpy_len (i_raw_len c) (bs_ring (i_bs c)) (i_output c) = n"
    and c'_def: "c' = c\<lparr>i_output := z_ringbuf_advance_write (ring_put (i_output c) (write_pos (i_output c))
          (block_read d p (unat n))) (ucast n), i_gz_len := g, i_gz_crc := e, i_zlib_adler := a,
        i_bs := (i_bs c)\<lparr>bs_ring := z_ringbuf_advance_read (bs_ring (i_bs c)) (ucast n)\<rparr>, i_raw_len := l\<rparr>"
  shows "inf_ok c' \<and> i_state c' = INF_RAWBLK \<and> length (rbits (i_bs c')) = length (rbits (i_bs c)) - 8 * unat n \<and> 8 * unat n \<le> length (rbits (i_bs c))"
proof -
  let ?in = "bs_ring (i_bs c)" and ?out = "i_output c"
  have ok: "zring_ok ?in" "zring_ok ?out" "ringbuf_wf ?in" "ringbuf_wf ?out" "bs_pos (i_bs c) = 0"
    using assms(1,2) by (auto simp: inf_ok_def rstream_ok_def zring_ok_def)
  have "unat (z_ringbuf_contiguous_read_size ?in) \<le> length (contents ?in)"
    using contiguous_read_cases [OF ok(3)] length_contents [OF ok(3)] by (auto simp: z_sizes_kernel split: if_splits)
  then have n: "unat n \<le> length (contents ?in)" using cpy_len_bounds(1) [of "i_raw_len c" ?in ?out] assms(3) by simp
  have uc: "ucast n = (of_nat (unat n) :: size_t)" by simp
  note adv = advance_read_contents [OF ok(1) n, folded uc]
  have "unat (write_pos ?out) + unat (z_ringbuf_contiguous_write_size ?out) \<le> unat (rb_size ?out)"
    using contiguous_write_cases [OF ok(4)] ok(4) by (auto simp: z_sizes_kernel elim!: ringbuf_wfE split: if_splits)
  then have "unat (write_pos ?out) + length (block_read d p (unat n)) \<le> unat (rb_size ?out)"
    using cpy_len_bounds(2) [of "i_raw_len c" ?in ?out] assms(3) by (simp add: block_read_def)
  then have "zring_ok (z_ringbuf_advance_write (ring_put ?out (write_pos ?out) (block_read d p (unat n))) (ucast n))"
    using ok(2) by (intro z_advance_write_ok ring_put_ok) simp_all
  then show ?thesis using adv n ok(5) assms(1,2)
    by (auto simp: c'_def inf_ok_def rstream_ok_def rbits_def)
qed

lemma rawblk_loop_moves:
  assumes "inf_ok c" "i_state c = INF_RAWBLK" "i_rawblk_loop first c = (ret, c')"
  shows "inf_ok c' \<and> ret \<in> {Z_OK, Z_NEED_MORE} \<and> length (rbits (i_bs c')) \<le> length (rbits (i_bs c)) \<and>
    (ret = Z_OK \<longrightarrow> i_state c' = INF_BLKHDR \<or> length (rbits (i_bs c')) < length (rbits (i_bs c)) \<or> \<not> first)"
  using assms
proof (induction first c rule: i_rawblk_loop.induct)
  case (1 first c)
  let ?in = "bs_ring (i_bs c)" and ?n = "cpy_len (i_raw_len c) (bs_ring (i_bs c)) (i_output c)"
  show ?case
  proof (cases "i_raw_len c = 0 \<or> ?n = 0")
    case True
    then show ?thesis using "1.prems" by (subst (asm) i_rawblk_loop.simps) (auto simp: inf_ok_def Let_def split: if_splits)
  next
    case False
    let ?bytes = "block_read (the (data ?in)) (unat (read_pos ?in)) (unat ?n)"
    let ?c = "c\<lparr>i_output := z_ringbuf_advance_write (ring_put (i_output c) (write_pos (i_output c)) ?bytes) (ucast ?n),
        i_gz_len := i_gz_len c + ?n, i_gz_crc := crc32 (i_gz_crc c) (Some ?bytes) ?n,
        i_zlib_adler := adler32 (i_zlib_adler c) (Some ?bytes) ?n,
        i_bs := (i_bs c)\<lparr>bs_ring := z_ringbuf_advance_read ?in (ucast ?n)\<rparr>, i_raw_len := i_raw_len c - ?n\<rparr>"
    have r: "inf_ok ?c \<and> i_state ?c = INF_RAWBLK \<and> length (rbits (i_bs ?c)) = length (rbits (i_bs c)) - 8 * unat ?n \<and>
        8 * unat ?n \<le> length (rbits (i_bs c))"
      by (rule rawblk_round [OF "1.prems"(1,2) refl refl])
    have step: "i_rawblk_loop False ?c = (ret, c')"
      using False "1.prems"(3) by (simp add: i_rawblk_loop.simps [of first c] Let_def)
    have ih: "inf_ok c' \<and> ret \<in> {Z_OK, Z_NEED_MORE} \<and> length (rbits (i_bs c')) \<le> length (rbits (i_bs ?c))"
      using "1.IH" [OF _ refl refl refl _ refl _ _ step] False r by simp
    have "0 < unat ?n" using False by (simp add: unat_gt_0)
    then have "length (rbits (i_bs ?c)) < length (rbits (i_bs c))" using r by linarith
    with ih show ?thesis by linarith
  qed
qed

lemma rawblk_moves:
  assumes "inf_ok c" "i_state c = INF_RAWBLK"
  shows "moves c (i_handle_rawblk c)"
proof -
  obtain ret c' where r: "i_rawblk_loop True c = (ret, c')" by fastforce
  from rawblk_loop_moves [OF assms r] show ?thesis
    using work_bits [of c' c] work_state [of c' c] r assms(2) by (auto simp: i_handle_rawblk_def moves_def)
qed

lemma decode_code_ok:
  assumes "rstream_ok bs" "decode_code bs dst i v = Inr (ret, bs', dst', i')"
  shows "rstream_ok bs' \<and> length (rbits bs') \<le> length (rbits bs) \<and> length dst' = length dst \<and> ret \<in> {Z_OK, Z_NEED_MORE, Z_DATA_ERROR}"
proof -
  have fill: "b = bs' \<and> length dst' = length dst \<and> ret = Z_OK" if "fill_code b rp x dst i = Inr (ret, bs', dst', i')" for b rp x
    using that fill_loop_pos by (auto simp: fill_code_def split: sum.splits)
  have sk: "rstream_ok (bitstream_skip bs w) \<and> length (rbits (bitstream_skip bs w)) \<le> length (rbits bs)" if "bitstream_has_read bs w" for w
    using that has_read_w [OF assms(1)] skip_w [OF assms(1), of w] by simp
  show ?thesis using assms sk
    by (auto simp: decode_code_def bitstream_read_def split: if_splits dest!: fill)
qed

lemma dynlit_loop_moves:
  assumes "inf_ok c" "i_state c = INF_DYNLIT"
  shows "moves c (dynlit_loop c)"
  using assms
proof (induction c rule: dynlit_loop.induct)
  case (1 c)
  obtain code bs where d: "(if i_dyn_hlit_hufcode c < 0 then huffman_decode (i_bs c) (i_dyn_code_huff c) else (i_dyn_hlit_hufcode c, i_bs c)) = (code, bs)"
    by fastforce
  have ok: "rstream_ok (i_bs c)" using "1.prems" by (simp add: inf_ok_def)
  have b: "rstream_ok bs \<and> length (rbits bs) \<le> length (rbits (i_bs c)) \<and> (code < 0 \<longrightarrow> code \<in> {Z_NEED_MORE, Z_DATA_ERROR})"
    using d ok by (auto split: if_splits elim!: huffman_decode_skips)
  show ?case
  proof (cases "i_dyn_hlit_pos c < ucast (i_dyn_hlit c + i_dyn_hdist c)")
    case False
    have "moves c (dynlit_end c)" unfolding dynlit_end_def using "1.prems"
      by (intro moves_ok work_state) (simp_all add: inf_ok_def)
    then show ?thesis using False by (subst dynlit_loop.simps) simp
  next
    case True
    let ?c = "c\<lparr>i_bs := bs, i_dyn_hlit_hufcode := code\<rparr>"
    have c: "inf_ok ?c" "work ?c \<le> work c" using "1.prems" b by (simp_all add: inf_ok_def work_def)
    show ?thesis
    proof (cases "code < 0")
      case neg: True
      have "moves c (Inr (code, ?c))" by (rule moves_stop [OF c(1)]) (use b neg in auto)
      then show ?thesis using True neg d by (subst dynlit_loop.simps) (simp add: Let_def)
    next
      case pos: False
      show ?thesis
      proof (cases "decode_code bs (i_dyn_lengths c) (i_dyn_hlit_pos c) code")
        case (Inl f)
        then show ?thesis using True pos d "1.prems" by (subst dynlit_loop.simps) (simp add: Let_def moves_def)
      next
        case (Inr r)
        obtain ret bs' dst i where r: "r = (ret, bs', dst, i)" by (metis prod_cases4)
        have bsok: "rstream_ok bs" using b by simp
        note dc = decode_code_ok [OF bsok Inr [unfolded r]]
        let ?d = "?c\<lparr>i_bs := bs', i_dyn_lengths := dst, i_dyn_hlit_pos := i\<rparr>"
        have dok: "inf_ok ?d" using "1.prems" dc by (simp add: inf_ok_def)
        have "moves c (dynlit_loop (?d\<lparr>i_dyn_hlit_hufcode := - 1\<rparr>))" if "ret = Z_OK"
        proof (rule moves_from)
          show "moves (?d\<lparr>i_dyn_hlit_hufcode := - 1\<rparr>) (dynlit_loop (?d\<lparr>i_dyn_hlit_hufcode := - 1\<rparr>))"
            using "1.IH" [OF True d [symmetric] refl refl pos] Inr r that dok "1.prems" by (simp add: inf_ok_def)
        qed (use "1.prems" dc b in \<open>simp_all add: work_def\<close>)
        moreover have "moves c (Inr (ret, ?d))" if "ret \<noteq> Z_OK"
          by (rule moves_stop [OF dok]) (use dc that in auto)
        ultimately show ?thesis using True pos d Inr r by (subst dynlit_loop.simps) (simp add: Let_def)
      qed
    qed
  qed
qed

lemma write_byte_ok:
  assumes "inf_ok c" "i_state c \<noteq> INF_ZLHEAD"
  shows "inf_ok (write_byte c b)" "work (write_byte c b) = work c" "i_state (write_byte c b) = i_state c" "i_bs (write_byte c b) = i_bs c"
  using assms z_write_byte_ok [of "i_output c" b] by (simp_all add: write_byte_def inf_ok_def work_def)

lemma hufcod_decode_moves:
  assumes "inf_ok c" "i_state c = INF_HUFCOD"
  shows "moves c (hufcod_decode c)"
proof -
  obtain code bs where d: "huffman_decode (i_bs c) (i_huff_lit c) = (code, bs)" by fastforce
  have ok: "rstream_ok (i_bs c)" using assms by (simp add: inf_ok_def)
  let ?c = "c\<lparr>i_bs := bs, i_hufcode_char := code\<rparr>"
  show ?thesis using d ok
  proof (cases rule: huffman_decode_skips)
    case 1
    then have "moves c (Inr (code, ?c))" using assms by (intro moves_stop) (auto simp: inf_ok_def)
    then show ?thesis using d 1 by (auto simp: hufcod_decode_def)
  next
    case (2 k)
    then have less: "length (rbits bs) < length (rbits (i_bs c))" by simp
    have c: "inf_ok ?c" using assms 2 by (simp add: inf_ok_def)
    have "moves c (Inr (Z_OK, (write_byte ?c (of_int code))\<lparr>i_hufcode_char := - 1\<rparr>))"
      using write_byte_ok [OF c, of "of_int code"] assms(2) less
      by (intro moves_ok work_bits) (simp_all add: inf_ok_def)
    moreover have "moves c (Inr (Z_OK, ?c\<lparr>i_state := INF_BLKHDR\<rparr>))"
      "moves c (Inr (Z_OK, ?c\<lparr>i_back_size := 258, i_state := INF_HUFDST\<rparr>))"
      "moves c (Inr (Z_OK, ?c\<lparr>i_back_size := x, i_extra_length_bits := y, i_state := (if P then INF_EXTLEN else INF_HUFDST)\<rparr>))" for x y P
      using c assms(2) less by (auto simp: inf_ok_def intro!: moves_ok work_bits)
    moreover have "moves c (Inr (Z_NEED_MORE, ?c))" using c by (simp add: moves_stop)
    moreover have "moves c (Inl f)" for f using assms(2) by (simp add: moves_def)
    ultimately show ?thesis using d 2(1) by (auto simp: hufcod_decode_def Let_def)
  qed
qed

lemma hufcod_moves:
  assumes "inf_ok c" "i_state c = INF_HUFCOD"
  shows "moves c (i_handle_hufcod c)"
proof -
  have "moves c (hufcod_decode (write_byte c b))" for b
    by (rule moves_from [OF hufcod_decode_moves]) (use write_byte_ok [OF assms(1), of b] assms(2) in simp_all)
  then show ?thesis using hufcod_decode_moves [OF assms] assms by (simp add: i_handle_hufcod_def moves_stop)
qed

lemma extlen_moves: "inf_ok c \<Longrightarrow> i_state c = INF_EXTLEN \<Longrightarrow> moves c (i_handle_extlen c)"
  by (auto simp: i_handle_extlen_def handler_simps)

lemma extdst_moves: "inf_ok c \<Longrightarrow> i_state c = INF_EXTDST \<Longrightarrow> moves c (i_handle_extdst c)"
  by (auto simp: i_handle_extdst_def handler_simps)

lemma hufdst_moves:
  assumes "inf_ok c" "i_state c = INF_HUFDST"
  shows "moves c (i_handle_hufdst c)"
proof -
  obtain code bs where d: "huffman_decode (i_bs c) (i_huff_dist c) = (code, bs)" by fastforce
  have ok: "rstream_ok (i_bs c)" using assms by (simp add: inf_ok_def)
  let ?c = "c\<lparr>i_bs := bs, i_hufcode_dist := code\<rparr>"
  show ?thesis using d ok
  proof (cases rule: huffman_decode_skips)
    case 1
    then have "moves c (Inr (code, ?c))" using assms by (intro moves_stop) (auto simp: inf_ok_def)
    then show ?thesis using d 1 by (auto simp: i_handle_hufdst_def)
  next
    case (2 k)
    then have "moves c (Inr (Z_OK, ?c\<lparr>i_back_dist := x, i_extra_dist_bits := y, i_state := (if P then INF_EXTDST else INF_REFCPY)\<rparr>))" for x y P
      using assms by (auto simp: inf_ok_def intro!: moves_ok work_bits)
    moreover have "moves c (Inl f)" for f using assms(2) by (simp add: moves_def)
    ultimately show ?thesis using d 2(1) by (simp add: i_handle_hufdst_def Let_def)
  qed
qed

lemma refcpy_loop_moves:
  assumes "inf_ok c" "i_state c = INF_REFCPY"
  shows "moves c (Inr (refcpy_loop c))"
  using assms
proof (induction c rule: refcpy_loop.induct)
  case (1 c)
  show ?case
  proof (cases "i_back_size c = 0 \<or> z_ringbuf_write_size (i_output c) = 0")
    case True
    have "moves c (Inr (Z_OK, c\<lparr>i_state := INF_HUFCOD, i_hufcode_char := - 1\<rparr>))"
      using "1.prems" by (intro moves_ok work_state) (simp_all add: inf_ok_def)
    then show ?thesis using True "1.prems" by (subst refcpy_loop.simps) (auto intro!: moves_stop)
  next
    case False
    let ?b = "ring_at (i_output c) (z_ringbuf_next_write_pos (i_output c) (rb_size (i_output c) - ucast (i_back_dist c)))"
    let ?c = "(write_byte c ?b)\<lparr>i_back_size := i_back_size c - 1\<rparr>"
    have "i_state c \<noteq> INF_ZLHEAD" using "1.prems" by simp
    note w = write_byte_ok [OF "1.prems"(1) this, of ?b]
    have "moves ?c (Inr (refcpy_loop ?c))"
      using False "1.IH" [OF _ _ refl refl] w "1.prems" by (simp add: inf_ok_def)
    then have "moves c (Inr (refcpy_loop ?c))" by (rule moves_from) (use w in \<open>simp_all add: work_def\<close>)
    then show ?thesis using False by (subst refcpy_loop.simps) (simp add: Let_def)
  qed
qed

lemma zadler_moves:
  assumes "inf_ok c" "i_state c = INF_ZADLER"
  shows "moves c (i_handle_zadler c)"
proof -
  let ?a = "byte_align (i_bs c)"
  have bs: "rstream_ok (i_bs c)" using assms(1) by (simp add: inf_ok_def)
  note al = byte_align_ok [OF bs]
  have "inf_ok (c\<lparr>i_bs := ?a\<rparr>)" using assms al by (simp add: inf_ok_def)
  moreover have "inf_ok (c\<lparr>i_bs := bitstream_skip ?a 32\<rparr>)"
    "inf_ok (c\<lparr>i_bs := bitstream_skip ?a 32, i_state := INF_GZECRC\<rparr>)" "inf_ok (c\<lparr>i_bs := bitstream_skip ?a 32, i_state := INF_STREND\<rparr>)"
    "work (c\<lparr>i_bs := bitstream_skip ?a 32, i_state := st\<rparr>) < work c" if "32 \<le> length (rbits ?a)" for st
    using assms al that by (simp_all add: inf_ok_def skip_w) (intro work_bits, simp add: skip_w)
  ultimately show ?thesis using has_read_w [OF al(1), of 32]
    by (auto simp: i_handle_zadler_def bitstream_read_def Let_def intro!: moves_stop moves_ok)
qed

lemma gzecrc_moves: "inf_ok c \<Longrightarrow> i_state c = INF_GZECRC \<Longrightarrow> moves c (i_handle_gzecrc c)"
  by (auto simp: i_handle_gzecrc_def handler_simps)

lemma gzelen_moves: "inf_ok c \<Longrightarrow> i_state c = INF_GZELEN \<Longrightarrow> moves c (i_handle_gzelen c)"
  by (auto simp: i_handle_gzelen_def handler_simps)

lemma i_handle_moves:
  assumes "inf_ok c"
  shows "moves c (i_handle alloc c)"
  using assms by (cases "i_state c") (simp_all add: i_handle_def zlhead_moves zldict_moves gzhead_moves gzxtra_moves gzname_moves
      gzcomm_moves gzhcrc_moves blkhdr_moves rawhdr_moves rawblk_moves dynhdr_moves dynlen_moves i_handle_dynlit_def dynlit_loop_moves
      hufcod_moves extlen_moves hufdst_moves extdst_moves i_handle_refcpy_def refcpy_loop_moves zadler_moves gzecrc_moves gzelen_moves
      i_handle_strend_def moves_stop)

section \<open>A call\<close>

lemma i_run_returns:
  assumes "inf_ok c"
  shows "\<exists>r. i_run alloc c = Some r \<and> (\<forall>ret c'. r = Inr (ret, c') \<longrightarrow> inf_ok c' \<and> ret \<in> z_codes \<and> ret \<noteq> Z_OK)"
  using assms
proof (induction "work c" arbitrary: c rule: less_induct)
  case less
  have m: "moves c (i_handle alloc c)" using less.prems by (rule i_handle_moves)
  show ?case
  proof (cases "i_handle alloc c")
    case (Inl f)
    then show ?thesis by (subst i_run.simps) simp
  next
    case (Inr r)
    obtain ret c' where r: "r = (ret, c')" by fastforce
    with Inr m have h: "inf_ok c'" "ret \<in> z_codes" "ret = Z_OK \<longrightarrow> work c' < work c" by (simp_all add: moves_def)
    show ?thesis
    proof (cases "ret = Z_OK")
      case True
      with less.hyps [of c'] h Inr r show ?thesis by (subst i_run.simps) simp
    next
      case False
      with h Inr r show ?thesis by (subst i_run.simps) simp
    qed
  qed
qed

text \<open>
  The caller's buffer has the bytes it announces. What a call moves: it takes bytes from the front of the input and
  appends to the output no more than there is room for.
\<close>

definition stream_ok :: "inf_ctx z_stream \<Rightarrow> bool" where
  "stream_ok s \<longleftrightarrow> inf_ok (internal_state s) \<and> unat (avail_in s) \<le> length (next_in s)"

definition accounts :: "inf_ctx z_stream \<Rightarrow> inf_ctx z_stream \<Rightarrow> bool" where
  "accounts s s' \<longleftrightarrow> unat (avail_in s') \<le> unat (avail_in s) \<and> next_in s' = drop (unat (avail_in s) - unat (avail_in s')) (next_in s) \<and>
     (\<exists>ys. z_out s' = z_out s @ ys \<and> length ys + unat (avail_out s') = unat (avail_out s))"

lemma accounts_refl: "accounts s (s\<lparr>internal_state := c\<rparr>)" "accounts s s"
  by (simp_all add: accounts_def)

lemma accounts_trans: "accounts s t \<Longrightarrow> accounts t u \<Longrightarrow> accounts s u"
  by (auto simp: accounts_def)

text \<open>A step of the outer loop is quiet, or it has moved bytes.\<close>

definition shifts :: "bool \<Rightarrow> inf_ctx z_stream \<Rightarrow> inf_ctx z_stream \<Rightarrow> bool" where
  "shifts moved s s' \<longleftrightarrow> stream_ok s' \<and> accounts s s' \<and>
     (moved \<longrightarrow> unat (avail_in s') + unat (avail_out s') < unat (avail_in s) + unat (avail_out s))"

lemma copy_in_shifts:
  assumes "stream_ok s" "i_copy_in s = (k, s')"
  shows "shifts (k \<noteq> 0) s s'"
proof -
  let ?c = "internal_state s" let ?in = "bs_ring (i_bs ?c)"
  let ?w = "z_ringbuf_write_size ?in" let ?n = "if ?w > avail_in s then avail_in s else ?w"
  have ok: "inf_ok ?c" "rstream_ok (i_bs ?c)" "zring_ok ?in" "unat (avail_in s) \<le> length (next_in s)"
    using assms(1) by (simp_all add: stream_ok_def inf_ok_def rstream_ok_def)
  show ?thesis
  proof (cases "?w = 0 \<or> ?n = 0")
    case True
    then show ?thesis using assms by (auto simp: i_copy_in_def Let_def shifts_def accounts_refl split: if_splits)
  next
    case False
    obtain j rb where w: "z_ringbuf_write ?in (Some (next_in s)) ?n = (j, rb)" by fastforce
    have n: "unat ?n \<le> unat (avail_in s)" "0 < unat ?n" using False by (auto simp: word_less_nat_alt unat_gt_0)
    have s': "k = ?n" "s' = s\<lparr>internal_state := ?c\<lparr>i_bs := (i_bs ?c)\<lparr>bs_ring := rb\<rparr>\<rparr>, avail_in := avail_in s - ?n, next_in := drop (unat ?n) (next_in s)\<rparr>"
      using assms(2) False w by (auto simp: i_copy_in_def Let_def)
    have av: "unat (avail_in s - ?n) = unat (avail_in s) - unat ?n" using n(1) by (simp add: unat_sub word_le_nat_alt)
    have "unat ?n \<le> length (next_in s)" using n(1) ok(4) by linarith
    note z_ring.put_law [OF ok(3) this w]
    then have "rstream_ok ((i_bs ?c)\<lparr>bs_ring := rb\<rparr>)" using ok(2) by (auto simp: rstream_ok_def)
    then have "inf_ok (?c\<lparr>i_bs := (i_bs ?c)\<lparr>bs_ring := rb\<rparr>\<rparr>)" using ok(1) by (simp add: inf_ok_def)
    then show ?thesis unfolding s' shifts_def stream_ok_def accounts_def using av n ok(4) by simp
  qed
qed

lemma copy_out_shifts:
  assumes "stream_ok s" "i_copy_out s = (k, s')"
  shows "shifts (k \<noteq> 0) s s'"
proof -
  let ?c = "internal_state s" let ?out = "i_output ?c"
  let ?r = "z_ringbuf_read_size ?out" let ?n = "if ?r > avail_out s then avail_out s else ?r"
  show ?thesis
  proof (cases "?r = 0 \<or> ?n = 0")
    case True
    then show ?thesis using assms by (auto simp: i_copy_out_def Let_def shifts_def accounts_refl split: if_splits)
  next
    case False
    then have "i_state ?c \<noteq> INF_ZLHEAD" using assms(1) by (auto simp: stream_ok_def inf_ok_def z_ringbuf_read_size_def)
    then have ok: "inf_ok ?c" "zring_ok ?out" "ringbuf_wf ?out" using assms(1) by (auto simp: stream_ok_def inf_ok_def zring_ok_def)
    obtain j ys rb where r: "z_ringbuf_read ?out ?n = (j, ys, rb)" by (metis prod_cases3)
    have n: "unat ?n \<le> unat (avail_out s)" "0 < unat ?n" "unat ?n \<le> unat ?r" using False by (auto simp: word_less_nat_alt unat_gt_0)
    have s': "k = ?n" "s' = s\<lparr>internal_state := ?c\<lparr>i_output := rb\<rparr>, avail_out := avail_out s - ?n, z_out := z_out s @ ys\<rparr>"
      using assms(2) False r by (auto simp: i_copy_out_def Let_def)
    have av: "unat (avail_out s - ?n) = unat (avail_out s) - unat ?n" using n(1) by (simp add: unat_sub word_le_nat_alt)
    note g = z_ring.get_law [OF ok(2) r]
    have "length ys = unat ?n" using g n(3) unat_ringbuf_read_size [OF ok(3)] by (simp add: z_sizes_kernel)
    moreover have "inf_ok (?c\<lparr>i_output := rb\<rparr>)" using ok(1) g \<open>i_state ?c \<noteq> INF_ZLHEAD\<close> by (simp add: inf_ok_def)
    ultimately show ?thesis using assms(1) unfolding s' shifts_def stream_ok_def accounts_def using av n by simp
  qed
qed

lemma shifts_trans: "shifts a s t \<Longrightarrow> shifts b t u \<Longrightarrow> shifts (a \<or> b) s u"
  unfolding shifts_def using accounts_trans [of s t u] by (auto simp: accounts_def)

lemma shifts_none: "stream_ok s \<Longrightarrow> shifts False s s"
  by (simp add: shifts_def accounts_refl)

lemma after_shifts:
  assumes "stream_ok s" "i_after ret s = (ret', s')" "ret \<noteq> Z_OK"
  shows "shifts (ret' = Z_OK) s s' \<and> (ret' = Z_OK \<or> ret' = ret)"
proof -
  define p where "p = (if avail_out s \<noteq> 0 then let (k, s) = i_copy_out s in (if k \<noteq> 0 \<and> ret = Z_NEED_MORE then Z_OK else ret, s) else (ret, s))"
  obtain r1 s1 where p1: "p = (r1, s1)" by fastforce
  have 1: "shifts (r1 = Z_OK) s s1 \<and> (r1 = Z_OK \<or> r1 = ret)"
    using p1 copy_out_shifts [OF assms(1)] shifts_none [OF assms(1)] assms(3)
    by (auto simp: p_def shifts_def split: if_splits prod.splits)
  then have ok: "stream_ok s1" by (simp add: shifts_def)
  have "(if avail_in s1 \<noteq> 0 then let (k, s) = i_copy_in s1 in (if k \<noteq> 0 \<and> r1 = Z_NEED_MORE then Z_OK else r1, s) else (r1, s1)) = (ret', s')"
    using assms(2) p1 by (simp add: i_after_def p_def)
  then have "shifts (ret' = Z_OK \<and> r1 \<noteq> Z_OK) s1 s' \<and> (ret' = Z_OK \<or> ret' = r1)"
    using copy_in_shifts [OF ok] shifts_none [OF ok] by (auto simp: shifts_def split: if_splits prod.splits)
  with 1 shifts_trans [of "r1 = Z_OK" s s1 "ret' = Z_OK \<and> r1 \<noteq> Z_OK" s'] show ?thesis by (auto simp: shifts_def)
qed

lemma inflate_loop_returns:
  assumes "stream_ok s" "ret \<in> z_codes"
  shows "\<exists>r. inflate_loop alloc ret s = Some r \<and> (\<forall>ret' s'. r = Inr (ret', s') \<longrightarrow> stream_ok s' \<and> accounts s s' \<and> ret' \<in> z_codes)"
  using assms
proof (induction "unat (avail_in s) + unat (avail_out s)" arbitrary: s ret rule: less_induct)
  case less
  show ?case
  proof (cases "ret = Z_OK \<and> (avail_in s \<noteq> 0 \<or> z_ringbuf_read_size (bs_ring (i_bs (internal_state s))) \<noteq> 0)
         \<and> (avail_out s \<noteq> 0 \<or> z_ringbuf_write_size (i_output (internal_state s)) \<noteq> 0)")
    case False
    then have "inflate_loop alloc ret s = Some (Inr (ret, s))" by (subst inflate_loop.simps) auto
    then show ?thesis using less.prems by (simp add: accounts_refl)
  next
    case True
    define s0 where "s0 = (if avail_in s \<noteq> 0 then snd (i_copy_in s) else s)"
    obtain b where b: "shifts b s s0" using copy_in_shifts [OF less.prems(1)] shifts_none [OF less.prems(1)]
      by (metis prod.collapse s0_def)
    then have ok: "inf_ok (internal_state s0)" by (simp add: shifts_def stream_ok_def)
    from i_run_returns [OF this, of alloc] obtain r where r: "i_run alloc (internal_state s0) = Some r"
      "\<And>ret c'. r = Inr (ret, c') \<Longrightarrow> inf_ok c' \<and> ret \<in> z_codes \<and> ret \<noteq> Z_OK" by blast
    show ?thesis
    proof (cases r)
      case (Inl f)
      then have "inflate_loop alloc ret s = Some (Inl f)" using True r(1)
        by (subst inflate_loop.simps) (simp add: Let_def flip: s0_def)
      then show ?thesis by simp
    next
      case (Inr p)
      obtain ret1 c1 where p: "p = (ret1, c1)" by fastforce
      let ?t = "s0\<lparr>internal_state := c1\<rparr>"
      obtain ret2 u where a: "i_after ret1 ?t = (ret2, u)" by fastforce
      have loop: "inflate_loop alloc ret s = inflate_loop alloc ret2 u"
        using True r(1) Inr p a by (subst inflate_loop.simps) (simp add: Let_def flip: s0_def)
      have c1: "inf_ok c1" "ret1 \<in> z_codes" "ret1 \<noteq> Z_OK" using r(2) Inr p by auto
      have "stream_ok ?t" using b c1 by (simp add: shifts_def stream_ok_def)
      with b have "shifts b s ?t" by (simp add: shifts_def accounts_def)
      moreover from this have "stream_ok ?t" by (simp add: shifts_def)
      note af = after_shifts [OF this a c1(3)]
      ultimately have sh: "shifts (b \<or> ret2 = Z_OK) s u" using shifts_trans by blast
      have codes: "ret2 \<in> z_codes" using af c1(2) by auto
      show ?thesis
      proof (cases "ret2 = Z_OK")
        case z: True
        with sh have "unat (avail_in u) + unat (avail_out u) < unat (avail_in s) + unat (avail_out s)" "stream_ok u" "accounts s u"
          by (simp_all add: shifts_def)
        with less.hyps [of u ret2] codes show ?thesis unfolding loop using accounts_trans by meson
      next
        case False
        then have "inflate_loop alloc ret2 u = Some (Inr (ret2, u))" by (subst inflate_loop.simps) auto
        then show ?thesis using loop sh codes by (simp add: shifts_def)
      qed
    qed
  qed
qed

lemma inflateInit_ok: "inflateInit True = (Z_OK, Some c) \<Longrightarrow> inf_ok c"
  using z_init_ok [of 12] by (auto simp: inflateInit_def inf_ok_def rstream_ok_def huffman_zero_def)

section \<open>Properties\<close>

text \<open>
  C5. Neither of the two loops of \<^verbatim>\<open>inflate\<close> runs forever: whatever the input, a call on a context that \<^verbatim>\<open>inflateInit\<close> made or
  that an earlier call left comes to an end. That end may be a fault, the access outside a table or buffer that some inputs
  cause, and of such a call nothing more is said. Unless it faults, the context is again one to call it on, the answer is one of
  the library's codes other than the internal \<^verbatim>\<open>Z_NEED_MORE\<close>, the input was consumed from its front, and the output was appended
  to, by exactly as many bytes as \<^verbatim>\<open>avail_out\<close> went down.
\<close>

theorem inflate_returns:
  assumes "inf_ok (internal_state s) \<or> inflateInit True = (Z_OK, Some (internal_state s))" "unat (avail_in s) \<le> length (next_in s)"
  shows "\<exists>r. inflate alloc s flush = Some r \<and>
    (\<forall>ret s'. r = Inr (ret, s') \<longrightarrow>
       inf_ok (internal_state s') \<and> unat (avail_in s') \<le> length (next_in s') \<and>
       ret \<in> {Z_OK, Z_STREAM_END, Z_STREAM_ERROR, Z_DATA_ERROR, Z_MEM_ERROR} \<and>
       unat (avail_in s') \<le> unat (avail_in s) \<and> next_in s' = drop (unat (avail_in s) - unat (avail_in s')) (next_in s) \<and>
       (\<exists>ys. z_out s' = z_out s @ ys \<and> length ys + unat (avail_out s') = unat (avail_out s)))"
proof -
  have "stream_ok s" using assms inflateInit_ok by (auto simp: stream_ok_def)
  from inflate_loop_returns [OF this, of Z_OK alloc] obtain r where r: "inflate_loop alloc Z_OK s = Some r"
    "\<And>ret' s'. r = Inr (ret', s') \<Longrightarrow> stream_ok s' \<and> accounts s s' \<and> ret' \<in> z_codes" by auto
  show ?thesis
  proof (cases r)
    case (Inl f)
    then show ?thesis using r(1) by (simp add: inflate_def)
  next
    case (Inr p)
    obtain ret' s' where p: "p = (ret', s')" by fastforce
    have "inflate_ret ret' s' \<in> {Z_OK, Z_STREAM_END, Z_STREAM_ERROR, Z_DATA_ERROR, Z_MEM_ERROR}"
      using r(2) [of ret' s'] Inr p by (auto simp: inflate_ret_def z_codes_def Let_def)
    moreover have "stream_ok s'" "accounts s s'" using r(2) Inr p by auto
    ultimately show ?thesis using r(1) Inr p by (simp add: inflate_def stream_ok_def accounts_def)
  qed
qed

definition demo_inf :: inf_ctx where
  "demo_inf = the (snd (inflateInit True))"

lemma demo_inf_init: "inflateInit True = (Z_OK, Some demo_inf)"
  by (simp add: demo_inf_def inflateInit_def)

text \<open>
  C10. Every handler of the decompressor keeps the context well formed: on a context with rings whose positions are inside
  their buffers, tables of their declared sizes and the per-state facts the later states rely on, the handler of whatever
  state it is in answers one of the library's codes with such a context again. Only four of the twenty-two states can
  fault, those that index a table or a buffer with a value taken from the input.
\<close>

theorem inflate_handler_typed:
  assumes "inf_ok c"
  shows "case i_handle alloc c of
      Inl f \<Rightarrow> i_state c \<in> {INF_GZXTRA, INF_DYNLIT, INF_HUFCOD, INF_HUFDST}
    | Inr (ret, c') \<Rightarrow> inf_ok c' \<and> ret \<in> {Z_OK, Z_STREAM_END, Z_STREAM_ERROR, Z_DATA_ERROR, Z_MEM_ERROR, Z_NEED_MORE}"
  using i_handle_moves [OF assms, of alloc] by (auto simp: moves_def z_codes_def split: sum.splits)

theorem inflate_handler_typed_witness:
  "\<exists>ret c'. i_handle (\<lambda>n. n < 3) (demo_inf\<lparr>i_state := INF_BLKHDR, i_output := output_ring 32768\<rparr>) = Inr (ret, c') \<and> inf_ok c'"
proof -
  let ?c = "demo_inf\<lparr>i_state := INF_BLKHDR, i_output := output_ring 32768\<rparr>"
  have "inf_ok demo_inf" by (rule inflateInit_ok [OF demo_inf_init])
  then have "inf_ok ?c" using output_ring_ok [of 15] by (simp add: inf_ok_def)
  from inflate_handler_typed [OF this, of "\<lambda>n. n < 3"] show ?thesis by (auto split: sum.splits)
qed

end
