(* ===== verification/Zblock.thy ===== *)
theory Zblock
  imports Zinv
begin

text \<open>
  What the decompressor makes of stored blocks: how its handlers read bit fields, how the window and the checksums follow
  the bytes a context has written, and that a stored block with any data comes out as that data.
\<close>

section \<open>Reading fields\<close>

lemma bits_val_map: "n \<le> 32 \<Longrightarrow> bits_val (map (bit v) [0..<n]) = take_bit n v"
  by (rule bit_eqI) (auto simp: bit_bits_val bit_take_bit_iff)

lemma read_field:
  assumes "rstream_ok bs" "rbits bs = map (bit v) [0..<unat w] @ rest" "unat w \<le> 32"
  shows "bitstream_has_read bs w" "bitstream_peek bs w = take_bit (unat w) v"
    "rstream_ok (bitstream_skip bs w)" "rbits (bitstream_skip bs w) = rest"
  using has_read_w [OF assms(1), of w] skip_w [OF assms(1), of w] bitstream_peek_rbits [OF assms(1), of "unat w"] assms(2,3)
  by (simp_all add: bits_val_map)

lemma i_run_step: "i_handle alloc c = Inr (Z_OK, c') \<Longrightarrow> i_run alloc c = i_run alloc c'"
  by (subst i_run.simps) simp

lemma i_run_stop: "i_handle alloc c = Inr (ret, c') \<Longrightarrow> ret \<noteq> Z_OK \<Longrightarrow> i_run alloc c = Some (Inr (ret, c'))"
  by (subst i_run.simps) simp

section \<open>The window\<close>

text \<open>The whole array of a ring, the byte written last at the end.\<close>

definition window :: "ringbuf \<Rightarrow> u8 list" where
  "window rb = map (\<lambda>i. the (data rb) ! behind_write rb i) [0..<unat (rb_size rb)]"

lemma length_window [simp]: "length (window rb) = unat (rb_size rb)"
  by (simp add: window_def)

lemma window_put:
  assumes "zring_ok rb" "unat (write_pos rb) + length ys \<le> unat (rb_size rb)"
  shows "window (z_ringbuf_advance_write (ring_put rb (write_pos rb) ys) (of_nat (length ys))) = drop (length ys) (window rb @ ys)"
proof -
  let ?rb = "z_ringbuf_advance_write (ring_put rb (write_pos rb) ys) (of_nat (length ys))"
  let ?s = "unat (rb_size rb)" and ?w = "unat (write_pos rb)" and ?n = "length ys"
  have wf: "ringbuf_wf rb" "pow2_size rb" using assms(1) by (simp_all add: zring_ok_def)
  obtain d where d: "data rb = Some d" "?s \<le> length d" "?w < ?s" using wf(1) by (rule ringbuf_wfE)
  have un: "unat (of_nat ?n :: size_t) = ?n" using assms(2) unat_lt64 [of "rb_size rb"] by (intro unat_of_nat64) simp
  have same: "rb_size ?rb = rb_size rb" "data ?rb = Some (block_write d ?w ys)"
    using d(1) by (simp_all add: z_ringbuf_advance_write_def ring_put_def)
  have w: "unat (write_pos ?rb) = (?w + ?n) mod ?s"
    using unat_ring_pos [OF wf(2), of "write_pos rb" "of_nat ?n"] un
    by (simp add: z_ringbuf_advance_write_def z_ringbuf_next_write_pos_def ring_put_def)
  show ?thesis
  proof (rule nth_equalityI)
    fix i assume "i < length (window ?rb)"
    then have i: "i < ?s" by (simp add: same)
    let ?p = "(?w + ?n + i) mod ?s"
    have p: "behind_write ?rb i = ?p" by (simp add: behind_write_def w same mod_add_left_eq)
    have pl: "?p < ?s" using i by (intro mod_less_divisor) simp
    show "window ?rb ! i = drop ?n (window rb @ ys) ! i"
    proof (cases "i < ?s - ?n")
      case True
      then have "\<not> (?w \<le> ?p \<and> ?p < ?w + ?n)"
        using wrap_mod [of "?w + ?n + i" ?s] d(3) assms(2) i by (auto split: if_splits)
      moreover have "?p = behind_write rb (?n + i)" by (simp add: behind_write_def add.assoc)
      ultimately show ?thesis using True i p pl d assms(2)
        by (auto simp: window_def same nth_block_write nth_append)
    next
      case False
      define j where "j = i - (?s - ?n)"
      have j: "j < ?n" "?n + i = ?s + j" using False i assms(2) by (simp_all add: j_def)
      then have "?p = ?w + j" using d(3) assms(2) by (simp add: add.assoc) (simp add: add.left_commute [of ?w])
      moreover have "drop ?n (window rb @ ys) ! i = ys ! j"
        using j by (subst nth_drop) (simp_all add: nth_append)
      ultimately show ?thesis using j(1) i p d assms(2) by (simp add: window_def same nth_block_write)
    qed
  qed (simp add: same)
qed

section \<open>What a handler emits\<close>

lemma crc32_nil: "crc32 c (Some []) n = c"
  by (simp add: crc32_def xor.assoc)

lemma adler32_nil: "adler32 a (Some []) n = a"
proof -
  have t: "x AND 0xFFFF = take_bit 16 x" for x :: u32 by (simp add: take_bit_eq_mask mask_numeral)
  have "push_bit 16 (take_bit 16 (drop_bit 16 a)) OR take_bit 16 a = a"
    by (rule bit_eqI) (auto simp: bit_or_iff bit_push_bit_iff bit_take_bit_iff bit_drop_bit_eq not_less)
  then show ?thesis by (simp add: adler32_def Let_def t)
qed

text \<open>The bytes go to the window and into the sums.\<close>

definition emitted :: "inf_ctx \<Rightarrow> u8 list \<Rightarrow> inf_ctx \<Rightarrow> bool" where
  "emitted c ys c' \<longleftrightarrow> zring_ok (i_output c') \<and> rb_size (i_output c') = rb_size (i_output c) \<and>
     contents (i_output c') = contents (i_output c) @ ys \<and> window (i_output c') = drop (length ys) (window (i_output c) @ ys) \<and>
     i_gz_len c' = i_gz_len c + len32 ys \<and> i_gz_crc c' = crc32 (i_gz_crc c) (Some ys) (len32 ys) \<and>
     i_zlib_adler c' = adler32 (i_zlib_adler c) (Some ys) (len32 ys) \<and> i_is_gzip c' = i_is_gzip c"

lemma drop_window: "drop (length ys) (drop (length xs) (W @ xs) @ ys) = drop (length (xs @ ys)) (W @ xs @ ys)"
proof -
  have "drop (length xs) (W @ xs) @ ys = drop (length xs) ((W @ xs) @ ys)"
    using drop_append [of "length xs" "W @ xs" ys] by simp
  then show ?thesis unfolding append_assoc by (simp only: drop_drop length_append add.commute)
qed

lemma emitted_trans:
  assumes "emitted c xs c'" "emitted c' ys c''" "length (xs @ ys) < 2 ^ 32"
  shows "emitted c (xs @ ys) c''"
proof -
  have "window (i_output c'') = drop (length (xs @ ys)) (window (i_output c) @ xs @ ys)"
    using assms(1,2) drop_window [of ys xs "window (i_output c)"] unfolding emitted_def by (simp only:)
  then show ?thesis
    using assms(1,2) crc32_append [OF assms(3), of "i_gz_crc c"] adler32_append [OF assms(3), of "i_zlib_adler c"]
    unfolding emitted_def by (simp add: len32_def del: drop_append)
qed

lemma emitted_none: "zring_ok (i_output c) \<Longrightarrow> emitted c [] c"
  by (simp add: emitted_def crc32_nil adler32_nil len32_def)

lemma emitted_room: "emitted c ys c' \<Longrightarrow> room (i_output c') = room (i_output c) - length ys"
  by (simp add: emitted_def room_def)

section \<open>Stored data\<close>

lemma cpy_len_min:
  assumes "unat (z_ringbuf_contiguous_read_size input) < 2 ^ 32" "unat (z_ringbuf_contiguous_write_size output) < 2 ^ 32"
  shows "unat (cpy_len len input output) =
    min (unat len) (min (unat (z_ringbuf_contiguous_read_size input)) (unat (z_ringbuf_contiguous_write_size output)))"
proof -
  have u: "unat (ucast x :: u32) = unat x" if "unat x < 2 ^ 32" for x :: size_t
    using that by (simp add: unsigned_ucast_eq take_bit_nat_eq_self)
  show ?thesis using u [OF assms(1)] u [OF assms(2)] by (auto simp: cpy_len_def Let_def word_less_nat_alt min_def)
qed

lemma rawblk_round_copies:
  assumes "zring_ok (bs_ring (i_bs c))" "zring_ok (i_output c)" "unat (rb_size (bs_ring (i_bs c))) < 2 ^ 32" "unat (rb_size (i_output c)) < 2 ^ 32"
    and "unat (i_raw_len c) \<le> length (contents (bs_ring (i_bs c)))" "unat (i_raw_len c) \<le> room (i_output c)" "i_raw_len c \<noteq> 0"
  obtains n out input where "i_rawblk_loop first c = i_rawblk_loop False (c\<lparr>i_output := out, i_gz_len := i_gz_len c + n,
        i_gz_crc := crc32 (i_gz_crc c) (Some (take (unat n) (contents (bs_ring (i_bs c))))) n,
        i_zlib_adler := adler32 (i_zlib_adler c) (Some (take (unat n) (contents (bs_ring (i_bs c))))) n,
        i_bs := (i_bs c)\<lparr>bs_ring := input\<rparr>, i_raw_len := i_raw_len c - n\<rparr>)"
    "0 < unat n" "unat n \<le> unat (i_raw_len c)"
    "zring_ok out" "contents out = contents (i_output c) @ take (unat n) (contents (bs_ring (i_bs c)))" "rb_size out = rb_size (i_output c)"
    "window out = drop (unat n) (window (i_output c) @ take (unat n) (contents (bs_ring (i_bs c))))"
    "zring_ok input" "contents input = drop (unat n) (contents (bs_ring (i_bs c)))" "rb_size input = rb_size (bs_ring (i_bs c))"
proof -
  let ?in = "bs_ring (i_bs c)" and ?out = "i_output c"
  let ?n = "cpy_len (i_raw_len c) ?in ?out"
  have wf: "ringbuf_wf ?in" "ringbuf_wf ?out" "pow2_size ?in" "pow2_size ?out" using assms(1,2) by (simp_all add: zring_ok_def)
  have rd: "unat (z_ringbuf_contiguous_read_size ?in) \<le> length (contents ?in)" "unat (z_ringbuf_contiguous_read_size ?in) < 2 ^ 32"
    using contiguous_read_cases [OF wf(1)] length_contents [OF wf(1)] wf(1) assms(3) by (auto simp: z_sizes_kernel elim!: ringbuf_wfE)
  have wr: "unat (z_ringbuf_contiguous_write_size ?out) < 2 ^ 32"
    using contiguous_write_room(1) [OF wf(2)] assms(4) by (simp add: z_sizes_kernel room_def)
  note n = cpy_len_min [OF rd(2) wr, of "i_raw_len c"]
  have pos: "0 < unat ?n"
  proof -
    have l: "0 < unat (i_raw_len c)" using assms(7) by (simp add: unat_gt_0)
    then have "0 < length (contents ?in)" using assms(5) by linarith
    then have "0 < unat (z_ringbuf_contiguous_read_size ?in)"
      using contiguous_read_cases [OF wf(1)] length_contents [OF wf(1)] wf(1) by (auto simp: z_sizes_kernel elim!: ringbuf_wfE split: if_splits)
    moreover have "0 < unat (z_ringbuf_contiguous_write_size ?out)"
      using contiguous_write_room(2) [OF wf(2)] assms(6) l by (simp add: z_sizes_kernel unat_gt_0)
    ultimately show ?thesis using n l by simp
  qed
  have uc: "ucast ?n = (of_nat (unat ?n) :: size_t)" by simp
  have un: "unat (ucast ?n :: size_t) = unat ?n" using n rd(2) by (simp add: unsigned_ucast_eq take_bit_nat_eq_self)
  obtain d where d: "data ?in = Some d" using wf(1) by (rule ringbuf_wfE)
  let ?bytes = "block_read (the (data ?in)) (unat (read_pos ?in)) (unat ?n)"
  have blk: "?bytes = take (unat ?n) (contents ?in)"
    using ringbuf_read_round [OF wf(1), of "ucast ?n"] n un d by (simp add: z_sizes_kernel ringbuf_pull_def)
  have nle: "unat ?n \<le> length (contents ?in)" using n rd(1) by simp
  let ?out2 = "ringbuf_poke ?out ?bytes"
  have put: "ring_put ?out (write_pos ?out) ?bytes = ?out2" by (simp add: ring_put_def ringbuf_poke_def)
  have p2: "pow2_size ?out2" using wf(4) by (simp add: ringbuf_poke_def)
  have wrr: "ringbuf_wf (ringbuf_advance_write ?out2 (ucast ?n)) \<and> contents (ringbuf_advance_write ?out2 (ucast ?n)) = contents ?out @ ?bytes \<and>
      rb_size (ringbuf_advance_write ?out2 (ucast ?n)) = rb_size ?out"
    by (rule ringbuf_write_round [OF wf(2)]) (use n un nle blk in \<open>simp_all add: z_sizes_kernel\<close>)
  let ?o = "z_ringbuf_advance_write (ring_put ?out (write_pos ?out) ?bytes) (ucast ?n)"
  have eq: "?o = ringbuf_advance_write ?out2 (ucast ?n)" unfolding put by (rule z_advance_kernel(1) [OF p2])
  have out: "zring_ok ?o" "contents ?o = contents ?out @ take (unat ?n) (contents ?in)" "rb_size ?o = rb_size ?out"
    using wrr wf(4) blk unfolding eq zring_ok_def pow2_size_def by simp_all
  have "unat (write_pos ?out) + unat (z_ringbuf_contiguous_write_size ?out) \<le> unat (rb_size ?out)"
    using contiguous_write_cases [OF wf(2)] wf(2) by (auto simp: z_sizes_kernel elim!: ringbuf_wfE split: if_splits)
  moreover have "length ?bytes = unat ?n" unfolding blk using nle by simp
  ultimately have "unat (write_pos ?out) + length ?bytes \<le> unat (rb_size ?out)" using n by linarith
  from window_put [OF assms(2) this] nle have win: "window ?o = drop (unat ?n) (window ?out @ take (unat ?n) (contents ?in))"
    unfolding blk by simp
  note adv = advance_read_contents [OF assms(1) nle, folded uc]
  have step: "i_rawblk_loop first c = i_rawblk_loop False (c\<lparr>i_output := ?o, i_gz_len := i_gz_len c + ?n,
        i_gz_crc := crc32 (i_gz_crc c) (Some (take (unat ?n) (contents ?in))) ?n,
        i_zlib_adler := adler32 (i_zlib_adler c) (Some (take (unat ?n) (contents ?in))) ?n,
        i_bs := (i_bs c)\<lparr>bs_ring := z_ringbuf_advance_read ?in (ucast ?n)\<rparr>, i_raw_len := i_raw_len c - ?n\<rparr>)"
    using assms(7) pos by (simp add: i_rawblk_loop.simps [of first c] Let_def blk unat_gt_0)
  show ?thesis by (rule that [OF step]) (use pos n out adv win in simp_all)
qed

lemma rawblk_loop_copies:
  assumes "zring_ok (bs_ring (i_bs c))" "zring_ok (i_output c)" "unat (rb_size (bs_ring (i_bs c))) < 2 ^ 32" "unat (rb_size (i_output c)) < 2 ^ 32"
    and "unat (i_raw_len c) \<le> length (contents (bs_ring (i_bs c)))" "unat (i_raw_len c) \<le> room (i_output c)"
  shows "\<exists>c'. i_rawblk_loop first c = (Z_OK, c') \<and> emitted c (take (unat (i_raw_len c)) (contents (bs_ring (i_bs c)))) c' \<and>
    (\<exists>input. zring_ok input \<and> contents input = drop (unat (i_raw_len c)) (contents (bs_ring (i_bs c))) \<and> rb_size input = rb_size (bs_ring (i_bs c)) \<and>
      i_bs c' = (i_bs c)\<lparr>bs_ring := input\<rparr>) \<and> i_state c' = INF_BLKHDR \<and> i_last c' = i_last c \<and> i_raw_len c' = 0 \<and>
      i_huff_lit c' = i_huff_lit c \<and> i_huff_dist c' = i_huff_dist c"
  using assms
proof (induction "unat (i_raw_len c)" arbitrary: c first rule: less_induct)
  case less
  let ?in = "bs_ring (i_bs c)"
  show ?case
  proof (cases "i_raw_len c = 0")
    case True
    have "i_rawblk_loop first c = (Z_OK, c\<lparr>i_state := INF_BLKHDR\<rparr>)" using True by (subst i_rawblk_loop.simps) simp
    moreover have "emitted c [] (c\<lparr>i_state := INF_BLKHDR\<rparr>)"
      using less.prems(2) by (simp add: emitted_def crc32_nil adler32_nil len32_def)
    ultimately show ?thesis using True less.prems(1) by (intro exI [of _ "c\<lparr>i_state := INF_BLKHDR\<rparr>"]) (auto intro!: exI [of _ ?in])
  next
    case False
    obtain n out input where r: "i_rawblk_loop first c = i_rawblk_loop False (c\<lparr>i_output := out, i_gz_len := i_gz_len c + n,
        i_gz_crc := crc32 (i_gz_crc c) (Some (take (unat n) (contents ?in))) n,
        i_zlib_adler := adler32 (i_zlib_adler c) (Some (take (unat n) (contents ?in))) n,
        i_bs := (i_bs c)\<lparr>bs_ring := input\<rparr>, i_raw_len := i_raw_len c - n\<rparr>)"
      "0 < unat n" "unat n \<le> unat (i_raw_len c)"
      "zring_ok out" "contents out = contents (i_output c) @ take (unat n) (contents ?in)" "rb_size out = rb_size (i_output c)"
      "window out = drop (unat n) (window (i_output c) @ take (unat n) (contents ?in))"
      "zring_ok input" "contents input = drop (unat n) (contents ?in)" "rb_size input = rb_size ?in"
      by (rule rawblk_round_copies [OF less.prems False, of first])
    let ?c = "c\<lparr>i_output := out, i_gz_len := i_gz_len c + n,
        i_gz_crc := crc32 (i_gz_crc c) (Some (take (unat n) (contents ?in))) n,
        i_zlib_adler := adler32 (i_zlib_adler c) (Some (take (unat n) (contents ?in))) n,
        i_bs := (i_bs c)\<lparr>bs_ring := input\<rparr>, i_raw_len := i_raw_len c - n\<rparr>"
    have len: "unat (i_raw_len c - n) = unat (i_raw_len c) - unat n" using r(3) by (simp add: unat_sub word_le_nat_alt)
    have nl: "length (take (unat n) (contents ?in)) = unat n" "len32 (take (unat n) (contents ?in)) = n"
      using r(3) less.prems(5) by (simp_all add: len32_def)
    have em: "emitted c (take (unat n) (contents ?in)) ?c" using r(4-7) nl by (simp add: emitted_def)
    have "\<exists>c'. i_rawblk_loop False ?c = (Z_OK, c') \<and> emitted ?c (take (unat (i_raw_len ?c)) (contents (bs_ring (i_bs ?c)))) c' \<and>
      (\<exists>input. zring_ok input \<and> contents input = drop (unat (i_raw_len ?c)) (contents (bs_ring (i_bs ?c))) \<and> rb_size input = rb_size (bs_ring (i_bs ?c)) \<and>
        i_bs c' = (i_bs ?c)\<lparr>bs_ring := input\<rparr>) \<and> i_state c' = INF_BLKHDR \<and> i_last c' = i_last ?c \<and> i_raw_len c' = 0 \<and>
      i_huff_lit c' = i_huff_lit ?c \<and> i_huff_dist c' = i_huff_dist ?c"
      by (rule less.hyps) (use r(2-) len less.prems nl in \<open>simp_all add: room_def\<close>)
    then obtain c' where c': "i_rawblk_loop False ?c = (Z_OK, c')" "emitted ?c (take (unat (i_raw_len c) - unat n) (drop (unat n) (contents ?in))) c'"
      "\<exists>input'. zring_ok input' \<and> contents input' = drop (unat (i_raw_len c)) (contents ?in) \<and> rb_size input' = rb_size ?in \<and>
        i_bs c' = (i_bs c)\<lparr>bs_ring := input'\<rparr>" "i_state c' = INF_BLKHDR" "i_last c' = i_last c" "i_raw_len c' = 0"
      "i_huff_lit c' = i_huff_lit c" "i_huff_dist c' = i_huff_dist c"
      using len r(3,9,10) by auto
    have cat: "take (unat n) (contents ?in) @ take (unat (i_raw_len c) - unat n) (drop (unat n) (contents ?in)) = take (unat (i_raw_len c)) (contents ?in)"
      using r(3) by (metis le_add_diff_inverse take_add)
    have "length (take (unat (i_raw_len c)) (contents ?in)) < 2 ^ 32"
      using unsigned_less [where ?'a = nat, of "i_raw_len c"] by simp
    with emitted_trans [OF em c'(2)] have "emitted c (take (unat (i_raw_len c)) (contents ?in)) c'" unfolding cat by simp
    with r(1) c' show ?thesis by (intro exI [of _ c']) simp
  qed
qed

lemma byte_align_bits:
  assumes "rstream_ok bs"
  shows "rbits (byte_align bs) = drop ((8 - unat (bs_pos bs)) mod 8) (rbits bs)"
proof -
  have p: "unat (bs_pos bs) < 8" using assms by (simp add: rstream_ok_def)
  then have m: "bs_pos bs mod 8 = bs_pos bs" by (simp add: word_unat_eq_iff unat_mod)
  show ?thesis
  proof (cases "bs_pos bs = 0")
    case True
    then show ?thesis by (simp add: byte_align_def)
  next
    case False
    then have n: "unat (8 - bs_pos bs) = 8 - unat (bs_pos bs)" "contents (bs_ring bs) \<noteq> []" "0 < unat (bs_pos bs)"
      using p assms by (simp_all add: unat_sub word_le_nat_alt rstream_ok_def unat_eq_0 unat_gt_0)
    then have "unat (8 - bs_pos bs) \<le> length (rbits bs)" by (cases "contents (bs_ring bs)") (simp_all add: rbits_def)
    with skip_w(2) [OF assms this] n False m show ?thesis by (simp add: byte_align_def)
  qed
qed

lemma bits_of_take: "bits_of (take k xs) = take (8 * k) (bits_of xs)"
proof (induction xs arbitrary: k)
  case (Cons x xs)
  then show ?case by (cases k) simp_all
qed simp

lemma bytes_at_start:
  assumes "bits_of zs = bits_of xs @ rest"
  shows "take (length xs) zs = xs" "bits_of (drop (length xs) zs) = rest"
proof -
  have "bits_of (take (length xs) zs) = bits_of xs" unfolding bits_of_take assms by simp
  then show "take (length xs) zs = xs" by (rule bits_of_inj)
  show "bits_of (drop (length xs) zs) = rest" unfolding bits_of_drop assms by simp
qed

section \<open>Blocks\<close>

text \<open>A context with the given bits ahead of it; its rings are of ordinary sizes.\<close>

definition reading :: "inf_ctx \<Rightarrow> bool list \<Rightarrow> bool" where
  "reading c R \<longleftrightarrow> rstream_ok (i_bs c) \<and> rbits (i_bs c) = R \<and> zring_ok (i_output c) \<and>
     unat (rb_size (bs_ring (i_bs c))) < 2 ^ 32 \<and> unat (rb_size (i_output c)) < 2 ^ 32 \<and>
     length (hf_values (i_huff_lit c)) = 288 \<and> length (hf_values (i_huff_dist c)) = 288"

lemma skip_size: "rb_size (bs_ring (bitstream_skip bs w)) = rb_size (bs_ring bs)"
  by (simp add: bitstream_skip_def z_ringbuf_advance_read_def Let_def)

lemma blkhdr_reads:
  assumes "reading c (fin # b0 # b1 # R)" "i_last c = 0" "i_state c = INF_BLKHDR"
  obtains bs where "i_handle_blkhdr c =
      (let c = c\<lparr>i_bs := bs, i_last := of_bool fin\<rparr>; t = of_bool b0 + 2 * of_bool b1 :: u32
       in if t = 0 then Inr (Z_OK, c\<lparr>i_state := INF_RAWHDR\<rparr>)
          else if t = 1 then Inr (Z_OK, (generate_static_huffman c)\<lparr>i_state := INF_HUFCOD, i_hufcode_char := - 1\<rparr>)
          else if t = 2 then Inr (Z_OK, c\<lparr>i_state := INF_DYNHDR\<rparr>)
          else Inr (Z_STREAM_ERROR, c))"
    "rstream_ok bs" "rbits bs = R" "rb_size (bs_ring bs) = rb_size (bs_ring (i_bs c))" "unat (bs_pos bs) = (unat (bs_pos (i_bs c)) + 3) mod 8"
proof -
  let ?b1 = "bitstream_skip (i_bs c) 1" let ?b = "bitstream_skip ?b1 2"
  have ok: "rstream_ok (i_bs c)" and R: "rbits (i_bs c) = fin # b0 # b1 # R" using assms(1) by (simp_all add: reading_def)
  have 1: "rbits (i_bs c) = map (bit (of_bool fin :: u32)) [0..<unat (1 :: size_t)] @ (b0 # b1 # R)"
    by (simp add: R bit_0)
  note r1 = read_field [OF ok 1]
  have 2: "rbits ?b1 = map (bit (of_bool b0 + 2 * of_bool b1 :: u32)) [0..<unat (2 :: size_t)] @ R"
    using r1(4) by (cases b0; cases b1) (simp_all add: upt_rec bit_0 bit_Suc)
  note r2 = read_field [OF r1(3) 2]
  have t: "take_bit 2 (of_bool b0 + 2 * of_bool b1 :: u32) = of_bool b0 + 2 * of_bool b1" by (cases b0; cases b1) simp_all
  have has: "bitstream_has_read (i_bs c) 3" using has_read_w [OF ok, of 3] by (simp add: R)
  have pos: "unat (bs_pos ?b) = (unat (bs_pos (i_bs c)) + 3) mod 8"
    using skip_pos [OF r1(3), of 2] skip_pos [OF ok, of 1] by (simp add: mod_simps) (simp add: add.commute)
  have "bitstream_peek (i_bs c) 1 = of_bool fin" using r1(2) by (simp add: take_bit_Suc)
  moreover have "bitstream_peek ?b1 2 = of_bool b0 + 2 * of_bool b1" using r2(2) t by simp
  ultimately show ?thesis using assms(2) has r2 pos
    by (intro that [of ?b]) (simp_all add: i_handle_blkhdr_def bitstream_read_def skip_size Let_def)
qed

lemma complement_sum:
  assumes "unat n < 2 ^ 16"
  shows "take_bit 16 n = n" "(n + take_bit 16 (NOT n)) AND 0xFFFF = (0xFFFF :: u32)"
proof -
  show t: "take_bit 16 n = n" using assms by (simp add: word_unat_eq_iff unsigned_take_bit_eq take_bit_nat_eq_self)
  have "take_bit 16 (NOT n) = mask 16 - n" using take_bit_not_eq_mask_diff [of 16 n] t by simp
  then have "n + take_bit 16 (NOT n) = mask 16" by simp
  then show "(n + take_bit 16 (NOT n)) AND 0xFFFF = 0xFFFF" by (simp add: mask_numeral)
qed

lemma rawhdr_reads:
  assumes "reading c (pad @ map (bit (len32 xs)) [0..<16] @ map (bit (NOT (len32 xs))) [0..<16] @ R)"
    and "length pad = (8 - unat (bs_pos (i_bs c))) mod 8" "length xs < 2 ^ 16"
  obtains bs m where "i_handle_rawhdr c = Inr (Z_OK, c\<lparr>i_bs := bs, i_raw_len := len32 xs, i_raw_nlen := m, i_state := INF_RAWBLK\<rparr>)"
    "rstream_ok bs" "rbits bs = R" "rb_size (bs_ring bs) = rb_size (bs_ring (i_bs c))" "bs_pos bs = 0"
proof -
  let ?a = "byte_align (i_bs c)" let ?b1 = "bitstream_skip ?a 16" let ?b = "bitstream_skip ?b1 16"
  have ok: "rstream_ok (i_bs c)" using assms(1) by (simp add: reading_def)
  note al = byte_align_ok [OF ok]
  have a: "rbits ?a = map (bit (len32 xs)) [0..<unat (16 :: size_t)] @ (map (bit (NOT (len32 xs))) [0..<16] @ R)"
    using byte_align_bits [OF ok] assms(1,2) by (simp add: reading_def)
  note r1 = read_field [OF al(1) a]
  have b: "rbits ?b1 = map (bit (NOT (len32 xs))) [0..<unat (16 :: size_t)] @ R" using r1(4) by simp
  note r2 = read_field [OF r1(3) b]
  have l: "unat (len32 xs) < 2 ^ 16" using assms(3) by (simp add: unat_len32)
  have has: "bitstream_has_read ?a 32" using has_read_w [OF al(1), of 32] a by simp
  have "unat (bs_pos ?b1) = 0" using skip_pos [OF al(1), of 16] al(3) by simp
  then have pos: "bs_pos ?b = 0" using skip_pos [OF r1(3), of 16] by (simp add: unat_eq_0)
  have sz: "rb_size (bs_ring ?a) = rb_size (bs_ring (i_bs c))" by (simp add: byte_align_def skip_size)
  show ?thesis using r1(2) r2 has pos sz complement_sum [OF l]
    by (intro that [where bs = ?b and m = "take_bit 16 (NOT (len32 xs))"]) (simp_all add: i_handle_rawhdr_def bitstream_read_def skip_size Let_def)
qed

lemma stored_block_step:
  assumes "reading c (fin # False # False # pad @ map (bit (len32 xs)) [0..<16] @ map (bit (NOT (len32 xs))) [0..<16] @ bits_of xs @ R)"
    and "length pad = (13 - unat (bs_pos (i_bs c))) mod 8" "length xs < 2 ^ 16" "length xs \<le> room (i_output c)"
    and "i_state c = INF_BLKHDR" "i_last c = 0"
  obtains c' where "i_run alloc c = i_run alloc c'" "reading c' R" "emitted c xs c'" "i_state c' = INF_BLKHDR"
    "i_last c' = of_bool fin" "bs_pos (i_bs c') = 0"
proof -
  obtain b1 where 1: "i_handle_blkhdr c = Inr (Z_OK, c\<lparr>i_bs := b1, i_last := of_bool fin, i_state := INF_RAWHDR\<rparr>)"
    "rstream_ok b1" "rbits b1 = pad @ map (bit (len32 xs)) [0..<16] @ map (bit (NOT (len32 xs))) [0..<16] @ bits_of xs @ R"
    "rb_size (bs_ring b1) = rb_size (bs_ring (i_bs c))" "unat (bs_pos b1) = (unat (bs_pos (i_bs c)) + 3) mod 8"
    using blkhdr_reads [OF assms(1,6,5)] by auto
  let ?c1 = "c\<lparr>i_bs := b1, i_last := of_bool fin, i_state := INF_RAWHDR\<rparr>"
  have rd1: "reading ?c1 (pad @ map (bit (len32 xs)) [0..<16] @ map (bit (NOT (len32 xs))) [0..<16] @ bits_of xs @ R)"
    using assms(1) 1 by (simp add: reading_def)
  have p: "unat (bs_pos (i_bs c)) < 8" using assms(1) by (simp add: reading_def rstream_ok_def)
  have pad: "length pad = (8 - unat (bs_pos (i_bs ?c1))) mod 8"
    using assms(2) 1(5) p by (cases "unat (bs_pos (i_bs c)) < 5") (simp_all add: wrap_mod)
  obtain b2 m where 2:
    "i_handle_rawhdr ?c1 = Inr (Z_OK, ?c1\<lparr>i_bs := b2, i_raw_len := len32 xs, i_raw_nlen := m, i_state := INF_RAWBLK\<rparr>)"
    "rstream_ok b2" "rbits b2 = bits_of xs @ R" "rb_size (bs_ring b2) = rb_size (bs_ring (i_bs ?c1))" "bs_pos b2 = 0"
    by (rule rawhdr_reads [OF rd1 pad assms(3)])
  let ?c2 = "?c1\<lparr>i_bs := b2, i_raw_len := len32 xs, i_raw_nlen := m, i_state := INF_RAWBLK\<rparr>"
  have ct: "bits_of (contents (bs_ring b2)) = bits_of xs @ R" using 2(3,5) by (simp add: rbits_def)
  note start = bytes_at_start [OF ct]
  have l: "unat (len32 xs) = length xs" "length xs \<le> length (contents (bs_ring b2))"
    using assms(3) arg_cong [OF ct, of length] by (simp_all add: unat_len32)
  have "\<exists>c'. i_rawblk_loop True ?c2 = (Z_OK, c') \<and> emitted ?c2 (take (unat (i_raw_len ?c2)) (contents (bs_ring (i_bs ?c2)))) c' \<and>
    (\<exists>input. zring_ok input \<and> contents input = drop (unat (i_raw_len ?c2)) (contents (bs_ring (i_bs ?c2))) \<and> rb_size input = rb_size (bs_ring (i_bs ?c2)) \<and>
      i_bs c' = (i_bs ?c2)\<lparr>bs_ring := input\<rparr>) \<and> i_state c' = INF_BLKHDR \<and> i_last c' = i_last ?c2 \<and> i_raw_len c' = 0 \<and>
      i_huff_lit c' = i_huff_lit ?c2 \<and> i_huff_dist c' = i_huff_dist ?c2"
    by (rule rawblk_loop_copies) (use 1(4) 2 assms(1,4) l in \<open>simp_all add: reading_def rstream_ok_def\<close>)
  then obtain c' input where c': "i_rawblk_loop True ?c2 = (Z_OK, c')" "emitted ?c2 xs c'" "zring_ok input"
    "contents input = drop (length xs) (contents (bs_ring b2))" "rb_size input = rb_size (bs_ring b2)" "i_bs c' = b2\<lparr>bs_ring := input\<rparr>"
    "i_state c' = INF_BLKHDR" "i_last c' = of_bool fin" "i_huff_lit c' = i_huff_lit c" "i_huff_dist c' = i_huff_dist c"
    using l(1) start(1) by auto
  have em: "emitted c xs c'" using c'(2) by (simp add: emitted_def)
  have "reading c' R" using c' 1(4) 2 start(2) assms(1) em
    by (simp add: reading_def rstream_ok_def rbits_def emitted_def)
  moreover have "i_run alloc c = i_run alloc ?c1" by (rule i_run_step) (simp add: i_handle_def assms(5) 1(1))
  moreover have "i_run alloc ?c1 = i_run alloc ?c2" by (rule i_run_step) (use 2(1) in \<open>simp add: i_handle_def\<close>)
  moreover have "i_run alloc ?c2 = i_run alloc c'" by (rule i_run_step) (use c'(1) in \<open>simp add: i_handle_def i_handle_rawblk_def\<close>)
  ultimately show ?thesis using em c' 2(5) by (intro that [of c']) simp_all
qed
end
