(* ===== verification/Zlz.thy ===== *)
theory Zlz
  imports Zblock
begin

text \<open>
  Blocks coded with Huffman codes. A block is a list of tokens, literal bytes and matches; a match names its length and its
  distance by the codes of RFC 1951 and their extra bits, and stands for bytes copied from what was written before. The
  decompressor's handlers are shown to read the bits of every such block and to write the bytes it stands for.
\<close>

section \<open>Tokens\<close>

text \<open>A match: the index of its length code behind 257, the extra length, its distance code and the extra distance.\<close>

datatype token = Literal u8 | Match nat nat nat nat

text \<open>
  What the codes stand for, by the rule of RFC 1951 (section 3.2.5): from the ninth length code on, four codes in a row share
  a number of extra bits and each covers as many lengths as its extra bits tell apart; with distances it is two codes in a row.
\<close>

definition len_bits :: "nat \<Rightarrow> nat" where
  "len_bits k = (if k < 8 \<or> k = 28 then 0 else (k - 4) div 4)"

definition len_base :: "nat \<Rightarrow> nat" where
  "len_base k = (if k < 8 then 3 + k else if k = 28 then 258 else 3 + (4 + k mod 4) * 2 ^ len_bits k)"

definition dist_bits :: "nat \<Rightarrow> nat" where
  "dist_bits m = (if m < 4 then 0 else (m - 2) div 2)"

definition dist_base :: "nat \<Rightarrow> nat" where
  "dist_base m = (if m < 4 then 1 + m else 1 + (2 + m mod 2) * 2 ^ dist_bits m)"

text \<open>The bits of a symbol and of a token, under codes with the lengths \<open>L\<close> for literals and \<open>D\<close> for distances.\<close>

definition symbol_bits :: "nat list \<Rightarrow> nat \<Rightarrow> bool list" where
  "symbol_bits L s = code_bits (L ! s) (code L s)"

fun token_ok :: "nat list \<Rightarrow> nat list \<Rightarrow> token \<Rightarrow> bool" where
  "token_ok L D (Literal b) \<longleftrightarrow> unat b < length L \<and> L ! unat b \<noteq> 0"
| "token_ok L D (Match k e m f) \<longleftrightarrow> k < 29 \<and> 257 + k < length L \<and> L ! (257 + k) \<noteq> 0 \<and> e < 2 ^ len_bits k \<and>
     m < 30 \<and> m < length D \<and> D ! m \<noteq> 0 \<and> f < 2 ^ dist_bits m"

fun token_bits :: "nat list \<Rightarrow> nat list \<Rightarrow> token \<Rightarrow> bool list" where
  "token_bits L D (Literal b) = symbol_bits L (unat b)"
| "token_bits L D (Match k e m f) = symbol_bits L (257 + k) @ map (bit (of_nat e :: u32)) [0..<len_bits k] @
     symbol_bits D m @ map (bit (of_nat f :: u32)) [0..<dist_bits m]"

text \<open>
  The bytes of a token after the history \<open>h\<close>. A match copies byte by byte, so that it may repeat what it has just written;
  before the history there are the zeroes of a window of \<open>N\<close> bytes.
\<close>

definition at_dist :: "nat \<Rightarrow> u8 list \<Rightarrow> nat \<Rightarrow> u8" where
  "at_dist N h d = (replicate N 0 @ h) ! (N + length h - d)"

fun copy_back :: "nat \<Rightarrow> u8 list \<Rightarrow> nat \<Rightarrow> nat \<Rightarrow> u8 list" where
  "copy_back N h d 0 = []"
| "copy_back N h d (Suc n) = at_dist N h d # copy_back N (h @ [at_dist N h d]) d n"

fun token_bytes :: "nat \<Rightarrow> u8 list \<Rightarrow> token \<Rightarrow> u8 list" where
  "token_bytes N h (Literal b) = [b]"
| "token_bytes N h (Match k e m f) = copy_back N h (dist_base m + f) (len_base k + e)"

fun expand :: "nat \<Rightarrow> u8 list \<Rightarrow> token list \<Rightarrow> u8 list" where
  "expand N h [] = []"
| "expand N h (t # ts) = token_bytes N h t @ expand N (h @ token_bytes N h t) ts"

lemma length_copy_back [simp]: "length (copy_back N h d n) = n"
  by (induction N h d n rule: copy_back.induct) simp_all

text \<open>The window after a history.\<close>

definition win :: "nat \<Rightarrow> u8 list \<Rightarrow> u8 list" where
  "win N h = drop (length h) (replicate N 0 @ h)"

lemma win_append: "drop (length ys) (win N h @ ys) = win N (h @ ys)"
  unfolding win_def using drop_window [of ys h "replicate N 0"] by simp

lemma win_at: "1 \<le> d \<Longrightarrow> d \<le> N \<Longrightarrow> win N h ! (N - d) = at_dist N h d"
  unfolding win_def at_dist_def by (subst nth_drop) (simp_all add: add.commute)

lemma emitted_win: "emitted c ys c' \<Longrightarrow> window (i_output c) = win N h \<Longrightarrow> window (i_output c') = win N (h @ ys)"
  by (simp only: emitted_def win_append)

text \<open>The ranges the tables of lengths and distances cover.\<close>

text \<open>The tables of the code follow the rule.\<close>

lemma len_code:
  assumes "k < 29"
  shows "len_bits k = (if k = 28 then 0 else unat (extra_length_bits ! k))" "len_base k = (if k = 28 then 258 else unat (extra_lengths ! k))"
proof -
  have "k \<in> set [0..<29]" using assms by simp
  then have "len_bits k = (if k = 28 then 0 else unat (extra_length_bits ! k)) \<and> len_base k = (if k = 28 then 258 else unat (extra_lengths ! k))"
    by (simp add: upt_rec) (elim disjE, simp_all add: len_bits_def len_base_def extra_length_bits_def extra_lengths_def)
  then show "len_bits k = (if k = 28 then 0 else unat (extra_length_bits ! k))" "len_base k = (if k = 28 then 258 else unat (extra_lengths ! k))"
    by simp_all
qed

lemma dist_code:
  assumes "m < 30"
  shows "dist_bits m = unat (extra_dist_bits ! m)" "dist_base m = unat (extra_dists ! m)"
proof -
  have "m \<in> set [0..<30]" using assms by simp
  then have "dist_bits m = unat (extra_dist_bits ! m) \<and> dist_base m = unat (extra_dists ! m)"
    by (simp add: upt_rec) (elim disjE, simp_all add: dist_bits_def dist_base_def extra_dist_bits_def extra_dists_def)
  then show "dist_bits m = unat (extra_dist_bits ! m)" "dist_base m = unat (extra_dists ! m)" by simp_all
qed

lemma len_table: "k < 28 \<Longrightarrow> unat (extra_length_bits ! k) \<le> 5 \<and> unat (extra_lengths ! k) + 2 ^ unat (extra_length_bits ! k) \<le> 259"
proof -
  assume "k < 28"
  moreover have "\<forall>k \<in> set [0..<28]. unat (extra_length_bits ! k) \<le> 5 \<and> unat (extra_lengths ! k) + 2 ^ unat (extra_length_bits ! k) \<le> 259"
    by (simp add: extra_length_bits_def extra_lengths_def upt_rec)
  ultimately show ?thesis by simp
qed

lemma dist_table: "m < 30 \<Longrightarrow> unat (extra_dist_bits ! m) \<le> 13 \<and> 0 < unat (extra_dists ! m) \<and>
  unat (extra_dists ! m) + 2 ^ unat (extra_dist_bits ! m) \<le> 32769"
proof -
  assume "m < 30"
  moreover have "\<forall>m \<in> set [0..<30]. unat (extra_dist_bits ! m) \<le> 13 \<and> 0 < unat (extra_dists ! m) \<and>
      unat (extra_dists ! m) + 2 ^ unat (extra_dist_bits ! m) \<le> 32769"
    by (simp add: extra_dist_bits_def extra_dists_def upt_rec)
  ultimately show ?thesis by simp
qed

section \<open>Steps\<close>

text \<open>What a token leaves as it was.\<close>

definition keeps :: "inf_ctx \<Rightarrow> inf_ctx \<Rightarrow> bool" where
  "keeps c c' \<longleftrightarrow> i_last c' = i_last c \<and> i_huff_lit c' = i_huff_lit c \<and> i_huff_dist c' = i_huff_dist c"

lemma write_byte_emits:
  assumes "zring_ok (i_output c)" "0 < room (i_output c)"
  shows "emitted c [b] (write_byte c b)"
proof -
  let ?rb = "i_output c" let ?p = "ring_put ?rb (write_pos ?rb) [b]"
  have wf: "ringbuf_wf ?rb" "pow2_size ?rb" using assms(1) by (simp_all add: zring_ok_def)
  have w: "z_ringbuf_write_byte ?rb b = z_ringbuf_advance_write ?p 1"
    by (simp add: z_ringbuf_write_byte_def z_ringbuf_advance_write_def z_ringbuf_next_write_pos_def ring_put_def Let_def)
  have lt: "unat (write_pos ?rb) < unat (rb_size ?rb)" using wf(1) by (rule ringbuf_wfE)
  have nx: "z_ringbuf_next_write_pos ?rb (of_nat 0) = write_pos ?rb"
    using unat_ring_pos [OF wf(2), of "write_pos ?rb" 0] lt by (simp add: z_ringbuf_next_write_pos_def word_unat_eq_iff)
  have p: "?p = ring_put ?rb (z_ringbuf_next_write_pos ?rb (of_nat 0)) [b]" by (simp only: nx)
  note put = ring_put_free [OF assms(1,2) p]
  have "1 \<le> room ?p" using put assms(2) by simp
  then have "zring_ok (z_ringbuf_advance_write ?p 1) \<and> contents (z_ringbuf_advance_write ?p 1) = contents ?rb @ [b] \<and>
      rb_size (z_ringbuf_advance_write ?p 1) = rb_size ?rb"
    using advance_write_contents [of ?p 1] put assms(2) by simp
  moreover have "window (z_ringbuf_advance_write ?p 1) = drop 1 (window ?rb @ [b])"
    using window_put [OF assms(1), of "[b]"] lt by simp
  ultimately show ?thesis by (simp add: emitted_def write_byte_def w len32_def)
qed

lemma back_byte:
  assumes "zring_ok rb" "window rb = win (unat (rb_size rb)) h" "1 \<le> d" "d \<le> unat (rb_size rb)" "d < 2 ^ 16"
  shows "ring_at rb (z_ringbuf_next_write_pos rb (rb_size rb - ucast (of_nat d :: u16))) = at_dist (unat (rb_size rb)) h d"
proof -
  let ?N = "unat (rb_size rb)"
  have p: "pow2_size rb" using assms(1) by (simp add: zring_ok_def)
  have "unat (of_nat d :: u16) = d" using assms(5) by (rule unat_of_nat16)
  then have u: "unat (ucast (of_nat d :: u16) :: size_t) = d" by (simp add: unat_ucast16)
  have "unat (rb_size rb - ucast (of_nat d :: u16)) = ?N - d" using u assms(4) by (simp add: unat_sub word_le_nat_alt)
  then have "unat (z_ringbuf_next_write_pos rb (rb_size rb - ucast (of_nat d :: u16))) = behind_write rb (?N - d)"
    using unat_ring_pos [OF p, of "write_pos rb" "rb_size rb - ucast (of_nat d :: u16)"]
    by (simp add: z_ringbuf_next_write_pos_def behind_write_def)
  then have "ring_at rb (z_ringbuf_next_write_pos rb (rb_size rb - ucast (of_nat d :: u16))) = window rb ! (?N - d)"
    using assms(3,4) by (simp add: ring_at_def window_def)
  also have "\<dots> = at_dist ?N h d" unfolding assms(2) by (rule win_at [OF assms(3,4)])
  finally show ?thesis .
qed

lemma refcpy_loop_copies:
  assumes "zring_ok (i_output c)" "window (i_output c) = win N h" "N = unat (rb_size (i_output c))" "1 \<le> d" "d \<le> N" "d < 2 ^ 16"
    and "i_back_dist c = of_nat d" "i_back_size c = of_nat n" "n < 2 ^ 16" "n \<le> room (i_output c)"
  shows "\<exists>c'. refcpy_loop c = (Z_OK, c') \<and> emitted c (copy_back N h d n) c' \<and> i_bs c' = i_bs c \<and> keeps c c' \<and>
    i_state c' = INF_HUFCOD \<and> i_hufcode_char c' = - 1"
  using assms(1-3,7-)
proof (induction n arbitrary: c h)
  case 0
  let ?c = "c\<lparr>i_state := INF_HUFCOD, i_hufcode_char := - 1\<rparr>"
  have "refcpy_loop c = (Z_OK, ?c)" using "0.prems" by (subst refcpy_loop.simps) simp
  moreover have "emitted c [] ?c" using "0.prems"(1) by (simp add: emitted_def crc32_nil adler32_nil len32_def)
  ultimately show ?case by (intro exI [of _ ?c]) (simp add: keeps_def)
next
  case (Suc n)
  let ?b = "at_dist N h d" let ?c = "(write_byte c ?b)\<lparr>i_back_size := i_back_size c - 1\<rparr>"
  have room: "0 < room (i_output c)" using Suc.prems by simp
  have nz: "i_back_size c \<noteq> 0" using Suc.prems(5,6) unat_of_nat16 [of "Suc n"] by auto
  have "z_ringbuf_write_size (i_output c) \<noteq> 0" using z_sizes_zero(2) [OF Suc.prems(1)] room by simp
  moreover have "ring_at (i_output c) (z_ringbuf_next_write_pos (i_output c) (rb_size (i_output c) - ucast (i_back_dist c))) = ?b"
    using back_byte [OF Suc.prems(1), of h d] Suc.prems(2-4) assms(4-6) by simp
  ultimately have step: "refcpy_loop c = refcpy_loop ?c" using nz by (subst refcpy_loop.simps) (simp add: Let_def)
  have em: "emitted c [?b] ?c" using write_byte_emits [OF Suc.prems(1) room] by (simp add: emitted_def)
  have same: "i_bs ?c = i_bs c" "keeps c ?c" "i_back_dist ?c = of_nat d" "i_back_size ?c = of_nat n"
    using Suc.prems by (simp_all add: write_byte_def keeps_def)
  have "\<exists>c'. refcpy_loop ?c = (Z_OK, c') \<and> emitted ?c (copy_back N (h @ [?b]) d n) c' \<and> i_bs c' = i_bs ?c \<and> keeps ?c c' \<and>
    i_state c' = INF_HUFCOD \<and> i_hufcode_char c' = - 1"
    by (rule Suc.IH) (use em emitted_win [OF em Suc.prems(2)] emitted_room [OF em] same Suc.prems in \<open>simp_all add: emitted_def\<close>)
  then obtain c' where c': "refcpy_loop ?c = (Z_OK, c')" "emitted ?c (copy_back N (h @ [?b]) d n) c'" "i_bs c' = i_bs c" "keeps ?c c'"
    "i_state c' = INF_HUFCOD" "i_hufcode_char c' = - 1" using same by auto
  have "emitted c ([?b] @ copy_back N (h @ [?b]) d n) c'" by (rule emitted_trans [OF em c'(2)]) (use Suc.prems(6) in simp)
  then show ?case using step c' same(2) by (intro exI [of _ c']) (simp add: keeps_def)
qed

lemma decode_symbol:
  assumes "lengths_ok L" "tables L huff" "s < length L" "L ! s \<noteq> 0" "rstream_ok bs" "rbits bs = symbol_bits L s @ R"
  obtains bs' where "huffman_decode bs huff = (int s, bs')" "rstream_ok bs'" "rbits bs' = R" "rb_size (bs_ring bs') = rb_size (bs_ring bs)"
proof -
  have "L ! s \<le> 15" using code_less(4) [OF assms(1,3,4)] by (simp add: MAX_BITS_def)
  then have un: "unat (of_nat (L ! s) :: size_t) = L ! s" by (intro unat_of_nat64) simp
  have "huffman_decode bs huff = (int s, bitstream_skip bs (of_nat (L ! s)))"
    using huffman_decode_code [OF assms(1-5)] assms(6) by (simp add: symbol_bits_def)
  then show ?thesis using skip_w [OF assms(5), of "of_nat (L ! s)"] un assms(6)
    by (intro that [of "bitstream_skip bs (of_nat (L ! s))"]) (simp_all add: symbol_bits_def skip_size)
qed

text \<open>A context inside a block, with the tables of a pair of codes.\<close>

definition coded :: "nat list \<Rightarrow> nat list \<Rightarrow> inf_ctx \<Rightarrow> bool" where
  "coded L D c \<longleftrightarrow> lengths_ok L \<and> lengths_ok D \<and> tables L (i_huff_lit c) \<and> tables D (i_huff_dist c)"

lemma coded_keeps: "coded L D c \<Longrightarrow> keeps c c' \<Longrightarrow> coded L D c'"
  by (simp add: coded_def keeps_def)

lemma keeps_trans: "keeps a b \<Longrightarrow> keeps b c \<Longrightarrow> keeps a c"
  by (simp add: keeps_def)

lemma emitted_same:
  assumes "emitted c [] c'" "emitted c' ys c''"
  shows "emitted c ys c''"
  using assms by (simp add: emitted_def crc32_nil adler32_nil len32_def)

lemma literal_step:
  assumes "reading c (symbol_bits L (unat b) @ R)" "coded L D c" "i_state c = INF_HUFCOD" "i_hufcode_char c = - 1"
    and "unat b < length L" "L ! unat b \<noteq> 0" "0 < room (i_output c)"
  obtains c' where "i_run alloc c = i_run alloc c'" "reading c' R" "emitted c [b] c'" "keeps c c'" "i_state c' = INF_HUFCOD" "i_hufcode_char c' = - 1"
proof -
  have ok: "rstream_ok (i_bs c)" "rbits (i_bs c) = symbol_bits L (unat b) @ R" using assms(1) by (simp_all add: reading_def)
  obtain bs where bs: "huffman_decode (i_bs c) (i_huff_lit c) = (int (unat b), bs)" "rstream_ok bs" "rbits bs = R"
    "rb_size (bs_ring bs) = rb_size (bs_ring (i_bs c))"
    using assms(2) by (auto simp: coded_def intro: decode_symbol [OF _ _ assms(5,6) ok])
  let ?c = "c\<lparr>i_bs := bs, i_hufcode_char := int (unat b)\<rparr>"
  let ?d = "(write_byte ?c b)\<lparr>i_hufcode_char := - 1\<rparr>"
  have zr: "zring_ok (i_output c)" using assms(1) by (simp add: reading_def)
  have "uint b < 256" using unsigned_less [where ?'a = int, of b] by simp
  moreover have "(of_int (int (unat b)) :: u8) = b" by simp
  ultimately have "i_handle_hufcod c = Inr (Z_OK, ?d)"
    using bs(1) assms(4,7) z_sizes_zero(2) [OF zr] by (simp add: i_handle_hufcod_def hufcod_decode_def)
  then have run: "i_run alloc c = i_run alloc ?d" by (intro i_run_step) (simp add: i_handle_def assms(3))
  have "emitted ?c [b] (write_byte ?c b)" by (rule write_byte_emits) (use zr assms(7) in simp_all)
  then have em: "emitted c [b] ?d" by (simp add: emitted_def)
  have "i_bs ?d = bs" "keeps c ?d" "i_state ?d = INF_HUFCOD" using assms(3) by (simp_all add: write_byte_def keeps_def)
  moreover from this have "reading ?d R" using em bs assms(1) by (simp add: reading_def emitted_def keeps_def)
  ultimately show ?thesis using run em by (intro that [of ?d]) simp_all
qed

lemma length_step:
  assumes "reading c (symbol_bits L (257 + k) @ map (bit (of_nat e :: u32)) [0..<len_bits k] @ R)" "coded L D c"
    and "i_state c = INF_HUFCOD" "i_hufcode_char c = - 1" "k < 29" "257 + k < length L" "L ! (257 + k) \<noteq> 0" "e < 2 ^ len_bits k"
  obtains c' where "i_run alloc c = i_run alloc c'" "reading c' R" "emitted c [] c'" "keeps c c'" "i_state c' = INF_HUFDST"
    "i_back_size c' = of_nat (len_base k + e)"
proof -
  note goal = that
  have ok: "rstream_ok (i_bs c)" "rbits (i_bs c) = symbol_bits L (257 + k) @ map (bit (of_nat e :: u32)) [0..<len_bits k] @ R"
    using assms(1) by (simp_all add: reading_def)
  obtain bs where bs: "huffman_decode (i_bs c) (i_huff_lit c) = (int (257 + k), bs)" "rstream_ok bs"
    "rbits bs = map (bit (of_nat e :: u32)) [0..<len_bits k] @ R" "rb_size (bs_ring bs) = rb_size (bs_ring (i_bs c))"
    using assms(2) by (auto simp: coded_def intro: decode_symbol [OF _ _ assms(6,7) ok])
  have zr: "zring_ok (i_output c)" using assms(1) by (simp add: reading_def)
  let ?c = "c\<lparr>i_bs := bs, i_hufcode_char := int (257 + k)\<rparr>"
  have finish: "thesis" if "i_run alloc c = i_run alloc d" "rstream_ok (i_bs d)" "rbits (i_bs d) = R"
    "rb_size (bs_ring (i_bs d)) = rb_size (bs_ring (i_bs c))" "i_output d = i_output c" "i_gz_len d = i_gz_len c"
    "i_gz_crc d = i_gz_crc c" "i_zlib_adler d = i_zlib_adler c" "i_is_gzip d = i_is_gzip c" "keeps c d" "i_state d = INF_HUFDST"
    "i_back_size d = of_nat (len_base k + e)" for d
    by (rule goal [of d]) (use that assms(1) in \<open>simp_all add: reading_def emitted_def keeps_def crc32_nil adler32_nil len32_def\<close>)
  consider "k = 28" | "k < 28" "extra_length_bits ! k = 0" | "k < 28" "extra_length_bits ! k \<noteq> 0" using assms(5) by linarith
  then show ?thesis
  proof cases
    case 1
    let ?d = "?c\<lparr>i_back_size := 258, i_state := INF_HUFDST\<rparr>"
    have "i_handle_hufcod c = Inr (Z_OK, ?d)"
      using bs(1) assms(4) 1 by (simp add: i_handle_hufcod_def hufcod_decode_def)
    then have "i_run alloc c = i_run alloc ?d" by (intro i_run_step) (simp add: i_handle_def assms(3))
    then show ?thesis by (rule finish) (use 1 bs assms(8) in \<open>simp_all add: keeps_def len_code\<close>)
  next
    case 2
    let ?d = "?c\<lparr>i_back_size := ucast (extra_lengths ! k), i_extra_length_bits := 0, i_state := INF_HUFDST\<rparr>"
    have "i_handle_hufcod c = Inr (Z_OK, ?d)"
      using bs(1) assms(4) 2 by (simp add: i_handle_hufcod_def hufcod_decode_def extra_lengths_def)
    then have "i_run alloc c = i_run alloc ?d" by (intro i_run_step) (simp add: i_handle_def assms(3))
    then show ?thesis by (rule finish) (use 2 bs assms(8) in \<open>simp_all add: keeps_def len_code\<close>)
  next
    case 3
    let ?w = "extra_length_bits ! k"
    let ?d = "?c\<lparr>i_back_size := ucast (extra_lengths ! k), i_extra_length_bits := ?w, i_state := INF_EXTLEN\<rparr>"
    let ?f = "?d\<lparr>i_bs := bitstream_skip bs (ucast ?w), i_back_size := ucast (extra_lengths ! k) + of_nat e, i_state := INF_HUFDST\<rparr>"
    note tab = len_table [OF 3(1)]
    have w: "unat (ucast ?w :: size_t) = len_bits k" using 3(1) tab
      by (simp add: len_code unsigned_ucast_eq take_bit_nat_eq_self)
    have w32: "len_bits k \<le> 32" using tab 3(1) by (simp add: len_code)
    have e32: "e < 32" using assms(8) tab 3(1) power_increasing [of "len_bits k" 5 "2 :: nat"] by (simp add: len_code)
    have R: "rbits bs = map (bit (of_nat e :: u32)) [0..<unat (ucast ?w :: size_t)] @ R" using bs(3) w by simp
    have wle: "unat (ucast ?w :: size_t) \<le> 32" using w w32 by simp
    note r = read_field [OF bs(2) R wle]
    have "take_bit (len_bits k) (of_nat e :: u32) = of_nat e"
      using assms(8) e32 by (simp add: word_unat_eq_iff unsigned_take_bit_eq unat_of_nat32 take_bit_nat_eq_self)
    then have pk: "bitstream_peek bs (ucast ?w) = of_nat e" using r(2) w by simp
    have "i_handle_hufcod c = Inr (Z_OK, ?d)"
      using bs(1) assms(4) 3 by (simp add: i_handle_hufcod_def hufcod_decode_def extra_lengths_def)
    then have "i_run alloc c = i_run alloc ?d" by (intro i_run_step) (simp add: i_handle_def assms(3))
    also have "\<dots> = i_run alloc ?f"
      by (rule i_run_step) (use r(1) pk e32 in \<open>simp add: i_handle_def i_handle_extlen_def bitstream_read_def ucast_of_nat_down\<close>)
    finally show ?thesis by (rule finish) (use 3 bs r in \<open>simp_all add: keeps_def len_code skip_size\<close>)
  qed
qed

lemma distance_step:
  assumes "reading c (symbol_bits D m @ map (bit (of_nat f :: u32)) [0..<dist_bits m] @ R)" "coded L D c"
    and "i_state c = INF_HUFDST" "m < 30" "m < length D" "D ! m \<noteq> 0" "f < 2 ^ dist_bits m"
  obtains c' where "i_run alloc c = i_run alloc c'" "reading c' R" "emitted c [] c'" "keeps c c'" "i_state c' = INF_REFCPY"
    "i_back_dist c' = of_nat (dist_base m + f)" "i_back_size c' = i_back_size c"
proof -
  note goal = that
  have ok: "rstream_ok (i_bs c)" "rbits (i_bs c) = symbol_bits D m @ map (bit (of_nat f :: u32)) [0..<dist_bits m] @ R"
    using assms(1) by (simp_all add: reading_def)
  obtain bs where bs: "huffman_decode (i_bs c) (i_huff_dist c) = (int m, bs)" "rstream_ok bs"
    "rbits bs = map (bit (of_nat f :: u32)) [0..<dist_bits m] @ R" "rb_size (bs_ring bs) = rb_size (bs_ring (i_bs c))"
    using assms(2) by (auto simp: coded_def intro: decode_symbol [OF _ _ assms(5,6) ok])
  let ?w = "extra_dist_bits ! m"
  let ?d = "c\<lparr>i_bs := bs, i_hufcode_dist := int m, i_back_dist := extra_dists ! m, i_extra_dist_bits := ?w,
      i_state := (if ?w \<noteq> 0 then INF_EXTDST else INF_REFCPY)\<rparr>"
  have finish: "thesis" if "i_run alloc c = i_run alloc d" "rstream_ok (i_bs d)" "rbits (i_bs d) = R"
    "rb_size (bs_ring (i_bs d)) = rb_size (bs_ring (i_bs c))" "i_output d = i_output c" "i_gz_len d = i_gz_len c"
    "i_gz_crc d = i_gz_crc c" "i_zlib_adler d = i_zlib_adler c" "i_is_gzip d = i_is_gzip c" "keeps c d" "i_state d = INF_REFCPY"
    "i_back_dist d = of_nat (dist_base m + f)" "i_back_size d = i_back_size c" for d
    by (rule goal [of d]) (use that assms(1) in \<open>simp_all add: reading_def emitted_def keeps_def crc32_nil adler32_nil len32_def\<close>)
  have "i_handle_hufdst c = Inr (Z_OK, ?d)"
    using bs(1) assms(4) by (simp add: i_handle_hufdst_def extra_dists_def)
  then have run: "i_run alloc c = i_run alloc ?d" by (intro i_run_step) (simp add: i_handle_def assms(3))
  note tab = dist_table [OF assms(4)]
  show ?thesis
  proof (cases "?w = 0")
    case True
    with run show ?thesis by (intro finish [of ?d]) (use bs assms(7) in \<open>simp_all add: keeps_def dist_code [OF assms(4)]\<close>)
  next
    case False
    let ?f = "?d\<lparr>i_bs := bitstream_skip bs (ucast ?w), i_back_dist := extra_dists ! m + of_nat f, i_state := INF_REFCPY\<rparr>"
    have w: "unat (ucast ?w :: size_t) = dist_bits m" using tab
      by (simp add: dist_code [OF assms(4)] unsigned_ucast_eq take_bit_nat_eq_self)
    have f32: "f < 8192" using assms(7) tab power_increasing [of "dist_bits m" 13 "2 :: nat"] by (simp add: dist_code [OF assms(4)])
    have R: "rbits bs = map (bit (of_nat f :: u32)) [0..<unat (ucast ?w :: size_t)] @ R" using bs(3) w by simp
    have wle: "unat (ucast ?w :: size_t) \<le> 32" using w tab by (simp add: dist_code [OF assms(4)])
    note r = read_field [OF bs(2) R wle]
    have "take_bit (dist_bits m) (of_nat f :: u32) = of_nat f"
      using assms(7) f32 by (simp add: word_unat_eq_iff unsigned_take_bit_eq unat_of_nat32 take_bit_nat_eq_self)
    then have pk: "bitstream_peek bs (ucast ?w) = of_nat f" using r(2) w by simp
    have "i_run alloc ?d = i_run alloc ?f"
      by (rule i_run_step) (use r(1) pk False in \<open>simp add: i_handle_def i_handle_extdst_def bitstream_read_def ucast_of_nat_down\<close>)
    with run show ?thesis by (intro finish [of ?f]) (use bs r in \<open>simp_all add: keeps_def dist_code [OF assms(4)] skip_size\<close>)
  qed
qed

section \<open>Blocks of tokens\<close>

lemma token_step:
  assumes "reading c (token_bits L D t @ R)" "coded L D c" "i_state c = INF_HUFCOD" "i_hufcode_char c = - 1" "token_ok L D t"
    and "window (i_output c) = win N h" "N = unat (rb_size (i_output c))" "32768 \<le> N" "length (token_bytes N h t) \<le> room (i_output c)"
  obtains c' where "i_run alloc c = i_run alloc c'" "reading c' R" "emitted c (token_bytes N h t) c'" "keeps c c'"
    "i_state c' = INF_HUFCOD" "i_hufcode_char c' = - 1"
proof (cases t)
  case (Literal b)
  have rd: "reading c (symbol_bits L (unat b) @ R)" using assms(1) Literal by simp
  show ?thesis
    by (rule literal_step [OF rd assms(2-4), of alloc]) (use assms(5,9) Literal that in auto)
next
  case (Match k e m f)
  have t: "k < 29" "257 + k < length L" "L ! (257 + k) \<noteq> 0" "e < 2 ^ len_bits k" "m < 30" "m < length D" "D ! m \<noteq> 0" "f < 2 ^ dist_bits m"
    using assms(5) Match by simp_all
  have rd: "reading c (symbol_bits L (257 + k) @ map (bit (of_nat e :: u32)) [0..<len_bits k] @
      (symbol_bits D m @ map (bit (of_nat f :: u32)) [0..<dist_bits m] @ R))" using assms(1) Match by simp
  obtain c1 where c1: "i_run alloc c = i_run alloc c1" "reading c1 (symbol_bits D m @ map (bit (of_nat f :: u32)) [0..<dist_bits m] @ R)"
    "emitted c [] c1" "keeps c c1" "i_state c1 = INF_HUFDST" "i_back_size c1 = of_nat (len_base k + e)"
    by (rule length_step [OF rd assms(2-4) t(1-4)])
  obtain c2 where c2: "i_run alloc c1 = i_run alloc c2" "reading c2 R" "emitted c1 [] c2" "keeps c1 c2" "i_state c2 = INF_REFCPY"
    "i_back_dist c2 = of_nat (dist_base m + f)" "i_back_size c2 = i_back_size c1"
    by (rule distance_step [OF c1(2) coded_keeps [OF assms(2) c1(4)] c1(5) t(5-8)])
  have em: "emitted c [] c2" by (rule emitted_same [OF c1(3) c2(3)])
  have len: "len_base k + e < 2 ^ 16"
    using t(1,4) len_table [of k] by (cases "k = 28") (simp_all add: len_code)
  have dist: "1 \<le> dist_base m + f" "dist_base m + f \<le> 32768"
    using t(8) dist_table [OF t(5)] by (simp_all add: dist_code [OF t(5)])
  have "\<exists>c'. refcpy_loop c2 = (Z_OK, c') \<and> emitted c2 (copy_back N h (dist_base m + f) (len_base k + e)) c' \<and> i_bs c' = i_bs c2 \<and> keeps c2 c' \<and>
    i_state c' = INF_HUFCOD \<and> i_hufcode_char c' = - 1"
    by (rule refcpy_loop_copies) (use emitted_win [OF em assms(6)] emitted_room [OF em] em c1(6) c2(6,7) len dist assms(7-9) Match
        in \<open>simp_all add: emitted_def\<close>)
  then obtain c' where c': "refcpy_loop c2 = (Z_OK, c')" "emitted c2 (token_bytes N h t) c'" "i_bs c' = i_bs c2" "keeps c2 c'"
    "i_state c' = INF_HUFCOD" "i_hufcode_char c' = - 1" using Match by auto
  have "i_run alloc c2 = i_run alloc c'" by (rule i_run_step) (simp add: i_handle_def c2(5) i_handle_refcpy_def c'(1))
  moreover have "reading c' R" using c'(2-4) c2(2) by (simp add: reading_def emitted_def keeps_def)
  moreover have "keeps c c'" using c1(4) c2(4) c'(4) by (blast intro: keeps_trans)
  moreover have "emitted c (token_bytes N h t) c'" by (rule emitted_same [OF em c'(2)])
  ultimately show ?thesis using c1(1) c2(1) c' by (intro that [of c']) simp_all
qed

lemma tokens_run:
  assumes "reading c (concat (map (token_bits L D) ts) @ R)" "coded L D c" "i_state c = INF_HUFCOD" "i_hufcode_char c = - 1"
    and "list_all (token_ok L D) ts" "window (i_output c) = win N h" "N = unat (rb_size (i_output c))" "32768 \<le> N"
    and "length (expand N h ts) \<le> room (i_output c)"
  shows "\<exists>c'. i_run alloc c = i_run alloc c' \<and> reading c' R \<and> emitted c (expand N h ts) c' \<and> keeps c c' \<and>
    i_state c' = INF_HUFCOD \<and> i_hufcode_char c' = - 1"
  using assms
proof (induction ts arbitrary: c h)
  case Nil
  then show ?case by (intro exI [of _ c]) (simp add: reading_def emitted_none keeps_def)
next
  case (Cons t ts)
  have rd: "reading c (token_bits L D t @ (concat (map (token_bits L D) ts) @ R))" using Cons.prems(1) by simp
  have len: "length (token_bytes N h t) \<le> room (i_output c)" using Cons.prems(9) by simp
  obtain c1 where c1: "i_run alloc c = i_run alloc c1" "reading c1 (concat (map (token_bits L D) ts) @ R)"
    "emitted c (token_bytes N h t) c1" "keeps c c1" "i_state c1 = INF_HUFCOD" "i_hufcode_char c1 = - 1"
    by (rule token_step [OF rd Cons.prems(2-4) _ Cons.prems(6-8) len]) (use Cons.prems(5) in simp)
  have "\<exists>c'. i_run alloc c1 = i_run alloc c' \<and> reading c' R \<and> emitted c1 (expand N (h @ token_bytes N h t) ts) c' \<and> keeps c1 c' \<and>
    i_state c' = INF_HUFCOD \<and> i_hufcode_char c' = - 1"
    by (rule Cons.IH [OF c1(2) coded_keeps [OF Cons.prems(2) c1(4)] c1(5,6)])
      (use Cons.prems(5-9) emitted_win [OF c1(3) Cons.prems(6)] emitted_room [OF c1(3)] c1(3) in \<open>simp_all add: emitted_def\<close>)
  then obtain c' where c': "i_run alloc c1 = i_run alloc c'" "reading c' R" "emitted c1 (expand N (h @ token_bytes N h t) ts) c'" "keeps c1 c'"
    "i_state c' = INF_HUFCOD" "i_hufcode_char c' = - 1" by blast
  have "unat (rb_size (i_output c)) < 2 ^ 32" using Cons.prems(1) by (simp add: reading_def)
  then have "room (i_output c) < 2 ^ 32" by (simp add: room_def)
  then have "emitted c (token_bytes N h t @ expand N (h @ token_bytes N h t) ts) c'"
    using Cons.prems(9) by (intro emitted_trans [OF c1(3) c'(3)]) simp
  then show ?case using c1(1,4) c' keeps_trans [OF c1(4) c'(4)] by (intro exI [of _ c']) simp
qed

lemma end_of_block_step:
  assumes "reading c (symbol_bits L 256 @ R)" "coded L D c" "i_state c = INF_HUFCOD" "i_hufcode_char c = - 1" "256 < length L" "L ! 256 \<noteq> 0"
  obtains c' where "i_run alloc c = i_run alloc c'" "reading c' R" "emitted c [] c'" "keeps c c'" "i_state c' = INF_BLKHDR"
proof -
  have ok: "rstream_ok (i_bs c)" "rbits (i_bs c) = symbol_bits L 256 @ R" using assms(1) by (simp_all add: reading_def)
  obtain bs where bs: "huffman_decode (i_bs c) (i_huff_lit c) = (int 256, bs)" "rstream_ok bs" "rbits bs = R"
    "rb_size (bs_ring bs) = rb_size (bs_ring (i_bs c))"
    using assms(2) by (auto simp: coded_def intro: decode_symbol [OF _ _ assms(5,6) ok])
  let ?d = "c\<lparr>i_bs := bs, i_hufcode_char := 256, i_state := INF_BLKHDR\<rparr>"
  have "i_handle_hufcod c = Inr (Z_OK, ?d)" using bs(1) assms(4) by (simp add: i_handle_hufcod_def hufcod_decode_def)
  then have "i_run alloc c = i_run alloc ?d" by (intro i_run_step) (simp add: i_handle_def assms(3))
  then show ?thesis using bs assms(1)
    by (intro that [of ?d]) (simp_all add: reading_def emitted_def keeps_def crc32_nil adler32_nil len32_def)
qed

section \<open>The fixed code\<close>

text \<open>The lengths of the fixed code, as RFC 1951 (section 3.2.6) lists them.\<close>

definition fixed_lit :: "nat list" where
  "fixed_lit = replicate 144 8 @ replicate 112 9 @ replicate 24 7 @ replicate 8 8"

definition fixed_dist :: "nat list" where
  "fixed_dist = replicate 32 5"

lemma fixed_static: "map unat (take 288 static_lengths) = fixed_lit" "map unat (drop 288 static_lengths) = fixed_dist"
  by (simp_all add: fixed_lit_def fixed_dist_def static_lengths_def)

lemma count_list_replicate: "count_list (replicate n x) y = (if x = y then n else 0)"
  by (induction n) auto

lemma upto_15: "(\<forall>l \<le> 15. P l) \<longleftrightarrow> (\<forall>l \<in> set [0..<16]. P l)" for P :: "nat \<Rightarrow> bool"
  by auto

lemma fixed_lengths_ok: "lengths_ok fixed_lit" "lengths_ok fixed_dist"
  unfolding lengths_ok_def MAX_BITS_def upto_15 fixed_lit_def fixed_dist_def
  by (simp_all add: upt_rec cnt_def base_numeral count_list_replicate)

lemma fixed_nonzero: "s < 288 \<Longrightarrow> fixed_lit ! s \<noteq> 0" "length fixed_lit = 288"
  by (auto simp: fixed_lit_def nth_append)

lemma static_huffman_coded:
  assumes "length (hf_values (i_huff_lit c)) = 288" "length (hf_values (i_huff_dist c)) = 288"
  shows "coded fixed_lit fixed_dist (generate_static_huffman c)"
proof -
  have len: "length static_lengths = 320" by (simp add: static_lengths_def)
  have "huffman_generate huff static_lengths 288 = huffman_generate huff (take 288 static_lengths) (of_nat (length (take 288 static_lengths)))" for huff
    using len by (simp add: huffman_generate_def)
  moreover have "huffman_generate huff (drop 288 static_lengths) 32 = huffman_generate huff (drop 288 static_lengths) (of_nat (length (drop 288 static_lengths)))" for huff
    using len by simp
  ultimately show ?thesis using fixed_lengths_ok assms
      huffman_generate_tables [of "take 288 static_lengths" "i_huff_lit c"] huffman_generate_tables [of "drop 288 static_lengths" "i_huff_dist c"]
    unfolding coded_def generate_static_huffman_def fixed_static [symmetric] by simp
qed

text \<open>The header of a block in the fixed code and the tokens after it.\<close>

lemma fixed_tokens_run:
  assumes "reading c (fin # True # False # concat (map (token_bits fixed_lit fixed_dist) ts) @ R)"
    and "i_state c = INF_BLKHDR" "i_last c = 0" "list_all (token_ok fixed_lit fixed_dist) ts"
    and "window (i_output c) = win N h" "N = unat (rb_size (i_output c))" "32768 \<le> N" "length (expand N h ts) \<le> room (i_output c)"
  obtains c' where "i_run alloc c = i_run alloc c'" "reading c' R" "emitted c (expand N h ts) c'" "i_last c' = of_bool fin"
    "coded fixed_lit fixed_dist c'" "i_state c' = INF_HUFCOD" "i_hufcode_char c' = - 1"
proof -
  obtain b1 where 1: "i_handle_blkhdr c = Inr (Z_OK, (generate_static_huffman (c\<lparr>i_bs := b1, i_last := of_bool fin\<rparr>))\<lparr>i_state := INF_HUFCOD, i_hufcode_char := - 1\<rparr>)"
    "rstream_ok b1" "rbits b1 = concat (map (token_bits fixed_lit fixed_dist) ts) @ R"
    "rb_size (bs_ring b1) = rb_size (bs_ring (i_bs c))"
    using blkhdr_reads [OF assms(1,3,2)] by auto
  let ?c = "(generate_static_huffman (c\<lparr>i_bs := b1, i_last := of_bool fin\<rparr>))\<lparr>i_state := INF_HUFCOD, i_hufcode_char := - 1\<rparr>"
  have run: "i_run alloc c = i_run alloc ?c" by (rule i_run_step) (simp add: i_handle_def assms(2) 1(1))
  have rd: "reading ?c (concat (map (token_bits fixed_lit fixed_dist) ts) @ R)"
    using assms(1) 1 by (simp add: reading_def generate_static_huffman_def)
  have cd: "coded fixed_lit fixed_dist ?c"
    using static_huffman_coded [of "c\<lparr>i_bs := b1, i_last := of_bool fin\<rparr>"] assms(1) by (simp add: reading_def coded_def)
  have same: "i_output ?c = i_output c" "i_gz_len ?c = i_gz_len c" "i_gz_crc ?c = i_gz_crc c" "i_zlib_adler ?c = i_zlib_adler c"
    "i_is_gzip ?c = i_is_gzip c" "i_last ?c = of_bool fin" "i_state ?c = INF_HUFCOD" "i_hufcode_char ?c = - 1"
    by (simp_all add: generate_static_huffman_def)
  obtain c1 where c1: "i_run alloc ?c = i_run alloc c1" "reading c1 R" "emitted ?c (expand N h ts) c1" "keeps ?c c1"
    "i_state c1 = INF_HUFCOD" "i_hufcode_char c1 = - 1"
    using tokens_run [OF rd cd same(7,8) assms(4), of N h alloc] assms(5-8) same(1) by auto
  have "emitted c (expand N h ts) c1" using c1(3) same(1-5) by (simp add: emitted_def)
  moreover have "i_last c1 = of_bool fin" using c1(4) same(6) by (simp add: keeps_def)
  ultimately show ?thesis using run c1 coded_keeps [OF cd c1(4)] by (intro that [of c1]) simp_all
qed

lemma fixed_block_step:
  assumes "reading c (fin # True # False # concat (map (token_bits fixed_lit fixed_dist) ts) @ symbol_bits fixed_lit 256 @ R)"
    and "i_state c = INF_BLKHDR" "i_last c = 0" "list_all (token_ok fixed_lit fixed_dist) ts"
    and "window (i_output c) = win N h" "N = unat (rb_size (i_output c))" "32768 \<le> N" "length (expand N h ts) \<le> room (i_output c)"
  obtains c' where "i_run alloc c = i_run alloc c'" "reading c' R" "emitted c (expand N h ts) c'" "i_state c' = INF_BLKHDR" "i_last c' = of_bool fin"
proof -
  obtain c1 where c1: "i_run alloc c = i_run alloc c1" "reading c1 (symbol_bits fixed_lit 256 @ R)" "emitted c (expand N h ts) c1"
    "i_last c1 = of_bool fin" "coded fixed_lit fixed_dist c1" "i_state c1 = INF_HUFCOD" "i_hufcode_char c1 = - 1"
    by (rule fixed_tokens_run [OF assms])
  obtain c2 where c2: "i_run alloc c1 = i_run alloc c2" "reading c2 R" "emitted c1 [] c2" "keeps c1 c2" "i_state c2 = INF_BLKHDR"
    by (rule end_of_block_step [OF c1(2,5,6,7)]) (simp_all add: fixed_nonzero)
  have "emitted c (expand N h ts) c2" using c1(3) c2(3) by (simp add: emitted_def crc32_nil adler32_nil len32_def)
  moreover have "i_last c2 = of_bool fin" using c1(4) c2(4) by (simp add: keeps_def)
  ultimately show ?thesis using c1(1) c2 by (intro that [of c2]) simp_all
qed

section \<open>Codes outside the tables\<close>

text \<open>The fixed code has 288 symbols for 286 literals and lengths, and 32 for 30 distances.\<close>

lemma bad_length_step:
  assumes "reading c (symbol_bits fixed_lit s @ R)" "coded fixed_lit fixed_dist c" "i_state c = INF_HUFCOD" "i_hufcode_char c = - 1" "s \<in> {286, 287}"
  shows "i_run alloc c = Some (Inl Z_OUT_OF_BOUNDS)"
proof -
  have ok: "rstream_ok (i_bs c)" "rbits (i_bs c) = symbol_bits fixed_lit s @ R" "s < length fixed_lit" "fixed_lit ! s \<noteq> 0"
    using assms(1,5) fixed_nonzero(1) [of s] by (auto simp: reading_def fixed_nonzero(2))
  obtain bs where "huffman_decode (i_bs c) (i_huff_lit c) = (int s, bs)"
    using assms(2) by (auto simp: coded_def intro: decode_symbol [OF _ _ ok(3,4,1,2)])
  then have "i_handle alloc c = Inl Z_OUT_OF_BOUNDS"
    using assms(3-5) by (auto simp: i_handle_def i_handle_hufcod_def hufcod_decode_def extra_lengths_def)
  then show ?thesis by (subst i_run.simps) simp
qed

lemma bad_distance_step:
  assumes "reading c (symbol_bits fixed_dist m @ R)" "coded fixed_lit fixed_dist c" "i_state c = INF_HUFDST" "m \<in> {30, 31}"
  shows "i_run alloc c = Some (Inl Z_OUT_OF_BOUNDS)"
proof -
  have ok: "rstream_ok (i_bs c)" "rbits (i_bs c) = symbol_bits fixed_dist m @ R" "m < length fixed_dist" "fixed_dist ! m \<noteq> 0"
    using assms(1,4) by (auto simp: reading_def fixed_dist_def)
  obtain bs where "huffman_decode (i_bs c) (i_huff_dist c) = (int m, bs)"
    using assms(2) by (auto simp: coded_def intro: decode_symbol [OF _ _ ok(3,4,1,2)])
  then have "i_handle alloc c = Inl Z_OUT_OF_BOUNDS"
    using assms(3,4) by (auto simp: i_handle_def i_handle_hufdst_def extra_dists_def)
  then show ?thesis by (subst i_run.simps) simp
qed

end
