(* ===== verification/Zstream.thy ===== *)
theory Zstream
  imports Zlz
begin

text \<open>
  Whole streams: a header, blocks of stored data or of tokens in the fixed code, and the checksum. The
  decompressor turns every such stream back into the bytes it stands for and tells a right checksum from a wrong
  one.
\<close>

section \<open>The format\<close>

datatype block = Stored "u8 list" | Fixed "token list"

fun block_ok :: "block \<Rightarrow> bool" where
  "block_ok (Stored xs) \<longleftrightarrow> length xs < 2 ^ 16"
| "block_ok (Fixed ts) \<longleftrightarrow> list_all (token_ok fixed_lit fixed_dist) ts"

text \<open>The bits of a block that starts at a position within a byte; stored data is aligned.\<close>

fun block_bits :: "nat \<Rightarrow> bool \<Rightarrow> block \<Rightarrow> bool list" where
  "block_bits pos fin (Stored xs) = fin # False # False # replicate ((13 - pos) mod 8) False @
     map (bit (len32 xs)) [0..<16] @ map (bit (NOT (len32 xs))) [0..<16] @ bits_of xs"
| "block_bits pos fin (Fixed ts) = fin # True # False # concat (map (token_bits fixed_lit fixed_dist) ts) @ symbol_bits fixed_lit 256"

fun block_bytes :: "nat \<Rightarrow> u8 list \<Rightarrow> block \<Rightarrow> u8 list" where
  "block_bytes N h (Stored xs) = xs"
| "block_bytes N h (Fixed ts) = expand N h ts"

fun blocks_bits :: "nat \<Rightarrow> block list \<Rightarrow> bool list" where
  "blocks_bits pos [] = []"
| "blocks_bits pos (b # bs) = block_bits pos (bs = []) b @ blocks_bits ((pos + length (block_bits pos (bs = []) b)) mod 8) bs"

fun blocks_bytes :: "nat \<Rightarrow> u8 list \<Rightarrow> block list \<Rightarrow> u8 list" where
  "blocks_bytes N h [] = []"
| "blocks_bytes N h (b # bs) = block_bytes N h b @ blocks_bytes N (h @ block_bytes N h b) bs"

text \<open>A stream with the flags byte \<open>flg\<close> and the four bytes \<open>tail\<close> for a checksum.\<close>

definition stream_bits :: "u8 \<Rightarrow> block list \<Rightarrow> u8 list \<Rightarrow> bool list" where
  "stream_bits flg bs tail = bits_of [0x78, flg] @ blocks_bits 0 bs @ replicate ((8 - length (blocks_bits 0 bs) mod 8) mod 8) False @ bits_of tail"

section \<open>Blocks\<close>

lemma pos_of_bits:
  assumes "rstream_ok bs"
  shows "(unat (bs_pos bs) + length (rbits bs)) mod 8 = 0" "unat (bs_pos bs) < 8"
proof -
  show "unat (bs_pos bs) < 8" using assms by (simp add: rstream_ok_def)
  then have "unat (bs_pos bs) \<le> 8 * length (contents (bs_ring bs))"
    using assms by (cases "contents (bs_ring bs)") (auto simp: rstream_ok_def)
  then show "(unat (bs_pos bs) + length (rbits bs)) mod 8 = 0" by (simp add: rbits_def)
qed

lemma mod8_cancel: "(a + r) mod 8 = (b + r) mod 8 \<Longrightarrow> a mod 8 = b mod 8" for a b r :: nat
  by (auto simp: nat_mod_eq_iff)

lemma pos_after:
  assumes "rstream_ok bs" "rbits bs = B @ R" "rstream_ok bs'" "rbits bs' = R"
  shows "unat (bs_pos bs') = (unat (bs_pos bs) + length B) mod 8"
proof -
  have "(unat (bs_pos bs) + length B + length R) mod 8 = (unat (bs_pos bs') + length R) mod 8"
    using pos_of_bits(1) [OF assms(1)] pos_of_bits(1) [OF assms(3)] assms(2,4) by (simp add: add.assoc)
  then have "(unat (bs_pos bs) + length B) mod 8 = unat (bs_pos bs') mod 8" by (rule mod8_cancel)
  then show ?thesis using pos_of_bits(2) [OF assms(3)] by simp
qed

lemma block_step:
  assumes "reading c (block_bits (unat (bs_pos (i_bs c))) fin b @ R)" "i_state c = INF_BLKHDR" "i_last c = 0" "block_ok b"
    and "window (i_output c) = win N h" "N = unat (rb_size (i_output c))" "32768 \<le> N" "length (block_bytes N h b) \<le> room (i_output c)"
  obtains c' where "i_run alloc c = i_run alloc c'" "reading c' R" "emitted c (block_bytes N h b) c'" "i_state c' = INF_BLKHDR" "i_last c' = of_bool fin"
proof (cases b)
  case (Stored xs)
  have rd: "reading c (fin # False # False # replicate ((13 - unat (bs_pos (i_bs c))) mod 8) False @
      map (bit (len32 xs)) [0..<16] @ map (bit (NOT (len32 xs))) [0..<16] @ bits_of xs @ R)"
    using assms(1) Stored by simp
  show ?thesis
    by (rule stored_block_step [OF rd _ _ _ assms(2,3), of alloc]) (use assms(4,8) Stored that in auto)
next
  case (Fixed ts)
  have rd: "reading c (fin # True # False # concat (map (token_bits fixed_lit fixed_dist) ts) @ symbol_bits fixed_lit 256 @ R)"
    using assms(1) Fixed by simp
  show ?thesis
    by (rule fixed_block_step [OF rd assms(2,3) _ assms(5-7), of alloc]) (use assms(4,8) Fixed that in auto)
qed

lemma blocks_run:
  assumes "reading c (blocks_bits (unat (bs_pos (i_bs c))) bs @ R)" "i_state c = INF_BLKHDR" "i_last c = 0" "list_all block_ok bs" "bs \<noteq> []"
    and "window (i_output c) = win N h" "N = unat (rb_size (i_output c))" "32768 \<le> N" "length (blocks_bytes N h bs) \<le> room (i_output c)"
  shows "\<exists>c'. i_run alloc c = i_run alloc c' \<and> reading c' R \<and> emitted c (blocks_bytes N h bs) c' \<and> i_state c' = INF_BLKHDR \<and> i_last c' \<noteq> 0"
  using assms
proof (induction bs arbitrary: c h)
  case (Cons b bs)
  let ?p = "unat (bs_pos (i_bs c))" let ?B = "block_bits ?p (bs = []) b"
  let ?R = "blocks_bits ((?p + length ?B) mod 8) bs @ R"
  have rd: "reading c (?B @ ?R)" using Cons.prems(1) by simp
  have len: "length (block_bytes N h b) \<le> room (i_output c)" using Cons.prems(9) by simp
  obtain c1 where c1: "i_run alloc c = i_run alloc c1" "reading c1 ?R" "emitted c (block_bytes N h b) c1" "i_state c1 = INF_BLKHDR"
    "i_last c1 = of_bool (bs = [])"
    by (rule block_step [OF rd Cons.prems(2,3) _ Cons.prems(6-8) len]) (use Cons.prems(4) in simp)
  show ?case
  proof (cases "bs = []")
    case True
    then show ?thesis using c1 by (intro exI [of _ c1]) simp
  next
    case False
    have pos: "unat (bs_pos (i_bs c1)) = (?p + length ?B) mod 8"
      using pos_after [of "i_bs c" ?B ?R "i_bs c1"] rd c1(2) by (simp add: reading_def)
    have "\<exists>c'. i_run alloc c1 = i_run alloc c' \<and> reading c' R \<and> emitted c1 (blocks_bytes N (h @ block_bytes N h b) bs) c' \<and>
      i_state c' = INF_BLKHDR \<and> i_last c' \<noteq> 0"
      by (rule Cons.IH) (use Cons.prems c1 False pos emitted_win [OF c1(3) Cons.prems(6)] emitted_room [OF c1(3)] in \<open>simp_all add: emitted_def\<close>)
    then obtain c' where c': "i_run alloc c1 = i_run alloc c'" "reading c' R" "emitted c1 (blocks_bytes N (h @ block_bytes N h b) bs) c'"
      "i_state c' = INF_BLKHDR" "i_last c' \<noteq> 0" by blast
    have "unat (rb_size (i_output c)) < 2 ^ 32" using Cons.prems(1) by (simp add: reading_def)
    then have "room (i_output c) < 2 ^ 32" by (simp add: room_def)
    then have "emitted c (block_bytes N h b @ blocks_bytes N (h @ block_bytes N h b) bs) c'"
      using Cons.prems(9) by (intro emitted_trans [OF c1(3) c'(3)]) simp
    then show ?thesis using c1(1) c' by (intro exI [of _ c']) simp
  qed
qed simp

section \<open>The checksum\<close>

lemma take_bit_word32: "take_bit 32 x = x" for x :: u32
  by (simp add: take_bit_word_eq_self)

lemma adler_tail_iff:
  assumes "length tail = 4" "a = adler32 1 (Some xs) (len32 xs)"
  shows "bits_val (bits_of tail) = ntohl a \<longleftrightarrow> tail = adler_tail xs"
proof
  assume v: "bits_val (bits_of tail) = ntohl a"
  have "bits_of tail = map (bit (bits_val (bits_of tail))) [0..<32]"
    by (rule nth_equalityI) (simp_all add: assms(1) bit_bits_val)
  also have "\<dots> = bits_of (adler_tail xs)" unfolding v adler_tail_bits assms(2) by simp
  finally show "tail = adler_tail xs" by (rule bits_of_inj)
next
  assume "tail = adler_tail xs"
  then show "bits_val (bits_of tail) = ntohl a" using bits_val_map [of 32 "ntohl a"] by (simp add: adler_tail_bits assms(2) take_bit_word32)
qed

lemma zadler_step:
  assumes "reading c (replicate n False @ bits_of tail)" "n = (8 - unat (bs_pos (i_bs c))) mod 8" "length tail = 4"
    and "i_state c = INF_BLKHDR" "i_last c \<noteq> 0" "\<not> i_is_gzip c" "i_zlib_adler c = adler32 1 (Some xs) (len32 xs)"
  obtains c' where "i_run alloc c = Some (Inr (if tail = adler_tail xs then Z_STREAM_END else Z_DATA_ERROR, c'))"
    "i_output c' = i_output c" "rbits (i_bs c') = []" "rstream_ok (i_bs c')"
proof -
  note goal = that
  let ?c = "c\<lparr>i_state := INF_ZADLER\<rparr>" let ?a = "byte_align (i_bs c)" let ?b = "bitstream_skip ?a 32"
  have ok: "rstream_ok (i_bs c)" "rbits (i_bs c) = replicate n False @ bits_of tail" using assms(1) by (simp_all add: reading_def)
  note al = byte_align_ok [OF ok(1)]
  have R: "rbits ?a = bits_of tail" using byte_align_bits [OF ok(1)] ok(2) assms(2) by simp
  have has: "bitstream_has_read ?a 32" using has_read_w [OF al(1), of 32] R assms(3) by simp
  have pk: "bitstream_peek ?a 32 = bits_val (bits_of tail)" using bitstream_peek_rbits [OF al(1), of 32] R assms(3) by simp
  have b: "rstream_ok ?b" "rbits ?b = []" using skip_w [OF al(1), of 32] R assms(3) by simp_all
  note iff = adler_tail_iff [OF assms(3,7)]
  have run: "i_run alloc c = i_run alloc ?c" by (rule i_run_step) (simp add: i_handle_def assms(4,5) i_handle_blkhdr_def)
  show ?thesis
  proof (cases "tail = adler_tail xs")
    case True
    let ?d = "?c\<lparr>i_bs := ?b, i_state := INF_STREND\<rparr>"
    have "i_handle_zadler ?c = Inr (Z_OK, ?d)"
      using has pk iff True assms(6,7) by (simp add: i_handle_zadler_def bitstream_read_def)
    then have "i_run alloc ?c = i_run alloc ?d" by (intro i_run_step) (simp add: i_handle_def)
    also have "\<dots> = Some (Inr (Z_STREAM_END, ?d))" by (rule i_run_stop) (simp_all add: i_handle_def i_handle_strend_def)
    finally show ?thesis using run True b by (intro goal [of ?d]) simp_all
  next
    case False
    let ?d = "?c\<lparr>i_bs := ?b\<rparr>"
    have "i_handle_zadler ?c = Inr (Z_DATA_ERROR, ?d)"
      using has pk iff False assms(7) by (simp add: i_handle_zadler_def bitstream_read_def)
    then have "i_run alloc ?c = Some (Inr (Z_DATA_ERROR, ?d))" by (intro i_run_stop) (simp_all add: i_handle_def)
    then show ?thesis using run False b by (intro goal [of ?d]) simp_all
  qed
qed

section \<open>The header\<close>

lemma window_new: "window (output_ring 32768) = win 32768 []" "zring_ok (output_ring 32768)" "contents (output_ring 32768) = []"
  "rb_size (output_ring 32768) = 32768" "room (output_ring 32768) = 32767"
proof -
  let ?r = "output_ring 32768"
  have "the (data ?r) ! behind_write ?r i = 0" if "i < 32768" for i
    using that by (simp add: output_ring_def z_ringbuf_init_def behind_write_def)
  then show "window ?r = win 32768 []"
    by (intro nth_equalityI) (simp_all add: window_def win_def output_ring_def z_ringbuf_init_def)
  show "zring_ok ?r" using output_ring_ok [of 15] by simp
  show "contents ?r = []" "rb_size ?r = 32768" by (simp_all add: output_ring_def z_ringbuf_init_def contents_def)
  then show "room ?r = 32767" by (simp add: room_def)
qed

lemma two_bytes: "bits_of [a, b] = map (bit (ucast a OR push_bit 8 (ucast b) :: u32)) [0..<16]"
proof (rule nth_equalityI)
  fix i assume "i < length (bits_of [a, b])"
  moreover have "\<not> bit a i" if "8 \<le> i" using that bit_imp_le_length [of a i] by auto
  ultimately show "bits_of [a, b] ! i = map (bit (ucast a OR push_bit 8 (ucast b) :: u32)) [0..<16] ! i"
    by (cases "i < 8") (auto simp: bits_of_nth bit_simps nth_append byte_bits_def)
qed simp

lemma zl_magic:
  fixes flg :: u8
  defines "m \<equiv> take_bit 16 (0x78 OR push_bit 8 (ucast flg)) :: u32"
  shows "m AND 0x0F = 0x08" "drop_bit 4 m AND 0xF = 7" "bit m 13 \<longleftrightarrow> bit flg 5"
proof -
  have F: "x AND 0xF = take_bit 4 x" for x :: u32 by (simp add: take_bit_eq_mask mask_numeral)
  have 8: "take_bit 8 m = 0x78" by (simp add: m_def take_bit_push_bit)
  have "take_bit 4 m = take_bit 4 (take_bit 8 m)" by simp
  then show "m AND 0x0F = 0x08" unfolding F 8 by simp
  have "take_bit 4 (drop_bit 4 m) = drop_bit 4 (take_bit 8 m)" by (simp add: drop_bit_take_bit)
  then show "drop_bit 4 m AND 0xF = 7" unfolding F 8 by simp
  show "bit m 13 \<longleftrightarrow> bit flg 5" by (simp add: m_def bit_simps)
qed

lemma header_steps:
  assumes "rstream_ok (i_bs c)" "rbits (i_bs c) = bits_of [0x78, flg] @ R" "\<not> bit flg 5" "16 \<le> length R" "\<not> (R ! 1 \<and> R ! 2)"
    and "i_state c = INF_ZLHEAD" "gz_id1 (i_gzip c) = 0"
  obtains c' where "i_run alloc c = i_run alloc c'" "rstream_ok (i_bs c')" "rbits (i_bs c') = R" "i_output c' = output_ring 32768"
    "rb_size (bs_ring (i_bs c')) = rb_size (bs_ring (i_bs c))" "i_state c' = INF_BLKHDR" "i_last c' = i_last c" "i_is_gzip c' = i_is_gzip c"
    "i_zlib_adler c' = i_zlib_adler c" "i_huff_lit c' = i_huff_lit c" "i_huff_dist c' = i_huff_dist c"
proof -
  note goal = that
  let ?m = "0x78 OR push_bit 8 (ucast flg) :: u32" let ?b = "bitstream_skip (i_bs c) 16"
  have "rbits (i_bs c) = map (bit ?m) [0..<unat (16 :: size_t)] @ R" using assms(2) unfolding two_bytes by simp
  note r = read_field [OF assms(1) this]
  have b: "rstream_ok ?b" "rbits ?b = R" "bitstream_has_read (i_bs c) 16" "bitstream_peek (i_bs c) 16 = take_bit 16 ?m"
    using r by simp_all
  obtain z where z: "i_handle_zlhead c = Inr (Z_OK, c\<lparr>i_output := output_ring 32768, i_bs := ?b, i_zlib := z, i_state := INF_GZHEAD\<rparr>)"
    using b(3,4) zl_magic [of flg] assms(3)
    by (simp add: i_handle_zlhead_def Let_def MAX_WINDOW_SIZE_def bit_iff_and_push_bit_not_eq_0)
  let ?c1 = "c\<lparr>i_output := output_ring 32768, i_bs := ?b, i_zlib := z, i_state := INF_GZHEAD\<rparr>"
  let ?c2 = "?c1\<lparr>i_state := INF_BLKHDR\<rparr>"
  have "bit (bitstream_peek ?b 16) i \<longleftrightarrow> R ! i" if "i < 16" for i
    using bitstream_peek_rbits [OF b(1), of 16] b(2) assms(4) that by (simp add: bit_bits_val)
  from this [of 1] this [of 2] have "bitstream_peek ?b 16 \<noteq> 0x8B1F" using assms(5) by auto
  moreover have "bitstream_has_read ?b 16" using has_read_w [OF b(1), of 16] b(2) assms(4) by simp
  ultimately have "i_handle_gzhead ?c1 = Inr (Z_OK, ?c2)" using assms(7) by (simp add: i_handle_gzhead_def)
  then have "i_run alloc ?c1 = i_run alloc ?c2" by (intro i_run_step) (simp add: i_handle_def)
  moreover have "i_run alloc c = i_run alloc ?c1" by (rule i_run_step) (simp add: i_handle_def assms(6) z)
  ultimately show ?thesis using b(1,2) by (intro goal [of ?c2]) (simp_all add: skip_size)
qed

section \<open>A whole call\<close>

definition inf_new :: "inf_ctx \<Rightarrow> bool" where
  "inf_new c \<longleftrightarrow> inflateInit True = (Z_OK, Some c)"

lemma inf_new_fields:
  assumes "inf_new c"
  shows "i_state c = INF_ZLHEAD" "rstream_ok (i_bs c)" "contents (bs_ring (i_bs c)) = []" "rb_size (bs_ring (i_bs c)) = 4096" "bs_pos (i_bs c) = 0"
    "i_last c = 0" "\<not> i_is_gzip c" "i_zlib_adler c = 1" "gz_id1 (i_gzip c) = 0" "length (hf_values (i_huff_lit c)) = 288"
    "length (hf_values (i_huff_dist c)) = 288" "zring_ok (bs_ring (i_bs c))"
proof -
  have c: "c = demo_inf" using assms demo_inf_init by (simp add: inf_new_def)
  show "i_state c = INF_ZLHEAD" "rb_size (bs_ring (i_bs c)) = 4096" "bs_pos (i_bs c) = 0" "i_last c = 0" "\<not> i_is_gzip c"
    "i_zlib_adler c = 1" "gz_id1 (i_gzip c) = 0" "length (hf_values (i_huff_lit c)) = 288" "length (hf_values (i_huff_dist c)) = 288"
    by (simp_all add: c demo_inf_def inflateInit_def huffman_zero_def z_ringbuf_init_def adler32_def)
  show "rstream_ok (i_bs c)" "contents (bs_ring (i_bs c)) = []" "zring_ok (bs_ring (i_bs c))"
    using z_init_ok [of 12] by (simp_all add: c demo_inf_def inflateInit_def rstream_ok_def)
qed

lemma first_block_type:
  assumes "bs \<noteq> []"
  shows "\<not> ((blocks_bits p bs @ R) ! 1 \<and> (blocks_bits p bs @ R) ! 2)"
proof -
  obtain b bs' where "bs = b # bs'" using assms by (cases bs) auto
  then show ?thesis by (cases b) simp_all
qed

lemma stream_run:
  assumes "inf_new c0" "rstream_ok bs" "rbits bs = stream_bits flg blks tail" "bs_pos bs = 0" "rb_size (bs_ring bs) = 4096"
    and "\<not> bit flg 5" "blks \<noteq> []" "list_all block_ok blks" "length tail = 4"
    and "xs = blocks_bytes 32768 [] blks" "length xs \<le> 32767"
  obtains c' where "i_run alloc (c0\<lparr>i_bs := bs\<rparr>) = Some (Inr (if tail = adler_tail xs then Z_STREAM_END else Z_DATA_ERROR, c'))"
    "zring_ok (i_output c')" "contents (i_output c') = xs" "rstream_ok (i_bs c')" "rbits (i_bs c') = []"
proof -
  note goal = that and new = inf_new_fields [OF assms(1)]
  let ?c = "c0\<lparr>i_bs := bs\<rparr>" let ?B = "blocks_bits 0 blks" let ?n = "(8 - length ?B mod 8) mod 8"
  let ?P = "replicate ?n False @ bits_of tail"
  have R: "rbits (i_bs ?c) = bits_of [0x78, flg] @ ?B @ ?P" using assms(3) by (simp add: stream_bits_def)
  obtain c1 where c1: "i_run alloc ?c = i_run alloc c1" "rstream_ok (i_bs c1)" "rbits (i_bs c1) = ?B @ ?P" "i_output c1 = output_ring 32768"
    "rb_size (bs_ring (i_bs c1)) = 4096" "i_state c1 = INF_BLKHDR" "i_last c1 = 0" "\<not> i_is_gzip c1"
    "i_zlib_adler c1 = 1" "i_huff_lit c1 = i_huff_lit c0" "i_huff_dist c1 = i_huff_dist c0"
    by (rule header_steps [OF _ R assms(6) _ first_block_type [OF assms(7)], of alloc]) (use assms(2,5,9) new in auto)
  have p1: "unat (bs_pos (i_bs c1)) = 0" using pos_after [OF _ R c1(2,3)] assms(2,4) by simp
  have rd: "reading c1 (blocks_bits (unat (bs_pos (i_bs c1))) blks @ ?P)"
    using c1 p1 new(10,11) window_new by (simp add: reading_def)
  have w: "window (i_output c1) = win 32768 []" "32768 = unat (rb_size (i_output c1))" "32768 \<le> (32768 :: nat)"
    "length (blocks_bytes 32768 [] blks) \<le> room (i_output c1)"
    using c1(4) window_new assms(10,11) by simp_all
  obtain c2 where c2: "i_run alloc c1 = i_run alloc c2" "reading c2 ?P" "emitted c1 xs c2" "i_state c2 = INF_BLKHDR" "i_last c2 \<noteq> 0"
    using blocks_run [OF rd c1(6,7) assms(8,7) w, of alloc] unfolding assms(10) by blast
  have "unat (bs_pos (i_bs c2)) = length ?B mod 8"
    using pos_after [OF c1(2,3), of "i_bs c2"] c2(2) p1 by (simp add: reading_def)
  then have n: "?n = (8 - unat (bs_pos (i_bs c2))) mod 8" by simp
  have e: "\<not> i_is_gzip c2" "i_zlib_adler c2 = adler32 1 (Some xs) (len32 xs)" "zring_ok (i_output c2)" "contents (i_output c2) = xs"
    using c2(3) c1(4,8,9) window_new by (simp_all add: emitted_def)
  show ?thesis
    by (rule zadler_step [OF c2(2) n assms(9) c2(4,5) e(1,2), of alloc]) (use goal c1(1) c2(1) e in auto)
qed

lemma i_copy_in_all:
  assumes "zring_ok (bs_ring (i_bs (internal_state s)))" "contents (bs_ring (i_bs (internal_state s))) = []"
    and "rb_size (bs_ring (i_bs (internal_state s))) = 4096" "unat (avail_in s) = length (next_in s)" "next_in s \<noteq> []" "length (next_in s) \<le> 4095"
  obtains rb where "i_copy_in s = (avail_in s, s\<lparr>internal_state := (internal_state s)\<lparr>i_bs := (i_bs (internal_state s))\<lparr>bs_ring := rb\<rparr>\<rparr>,
      avail_in := 0, next_in := []\<rparr>)"
    "zring_ok rb" "contents rb = next_in s" "rb_size rb = 4096"
proof -
  let ?rb = "bs_ring (i_bs (internal_state s))" and ?n = "avail_in s"
  have wf: "ringbuf_wf ?rb" using assms(1) by (simp add: zring_ok_def)
  obtain k rb where w: "z_ringbuf_write ?rb (Some (next_in s)) ?n = (k, rb)" by fastforce
  from z_ring.put_law [OF assms(1) _ w] assms have ring: "zring_ok rb" "contents rb = next_in s" "ring_capacity rb = ring_capacity ?rb"
    by (simp_all add: ring_capacity_def)
  have "rb_size rb = rb_size ?rb" using ringbuf_write_ok [OF wf, of ?n "next_in s"] w assms(4) by (simp add: z_write_eq [OF assms(1)])
  moreover have sz: "unat (z_ringbuf_write_size ?rb) = 4095"
    using unat_ringbuf_write_size [OF wf] assms(2,3) by (simp add: z_sizes_kernel room_def)
  then have nz: "z_ringbuf_write_size ?rb \<noteq> 0" "?n \<noteq> 0" "\<not> z_ringbuf_write_size ?rb < ?n"
    using assms(4,5,6) by (auto simp: word_less_nat_alt)
  then have "(if ?n < z_ringbuf_write_size ?rb then ?n else z_ringbuf_write_size ?rb) = ?n" by (auto simp: not_less_iff_gr_or_eq)
  ultimately show ?thesis using w nz ring assms(3,4) by (intro that [of rb]) (simp_all add: i_copy_in_def Let_def)
qed

lemma i_copy_out_all:
  assumes "zring_ok (i_output (internal_state s))" "contents (i_output (internal_state s)) = ys" "length ys \<le> unat (avail_out s)"
  obtains k rb where "i_copy_out s = (k, s\<lparr>internal_state := (internal_state s)\<lparr>i_output := rb\<rparr>,
      avail_out := avail_out s - of_nat (length ys), z_out := z_out s @ ys\<rparr>)"
    "zring_ok rb" "contents rb = []"
proof (cases "ys = []")
  case True
  then have "z_ringbuf_read_size (i_output (internal_state s)) = 0" using z_sizes_zero(1) [OF assms(1)] assms(2) by simp
  then show ?thesis using True assms by (intro that [of 0 "i_output (internal_state s)"]) (simp_all add: i_copy_out_def)
next
  case False
  let ?rb = "i_output (internal_state s)"
  have wf: "ringbuf_wf ?rb" using assms(1) by (simp add: zring_ok_def)
  have sz: "unat (z_ringbuf_read_size ?rb) = length ys" using unat_ringbuf_read_size [OF wf] assms(2) by (simp add: z_sizes_kernel)
  then have n: "z_ringbuf_read_size ?rb = of_nat (length ys)" by (metis of_nat_unat ucast_id)
  obtain k bs rb where r: "z_ringbuf_read ?rb (of_nat (length ys)) = (k, bs, rb)" by (metis prod_cases3)
  from z_ring.get_law [OF assms(1) r] assms(2) sz n have rb: "zring_ok rb" "bs = ys" "contents rb = []" by simp_all
  have "z_ringbuf_read_size ?rb \<noteq> 0" "\<not> avail_out s < z_ringbuf_read_size ?rb"
    using sz False assms(3) by (auto simp: word_less_nat_alt)
  then show ?thesis using r rb n by (intro that [of "of_nat (length ys)" rb]) (simp_all add: i_copy_out_def Let_def)
qed

text \<open>A first call that is given all of its input at once runs the handlers on it.\<close>

lemma inflate_first_call:
  assumes "inf_new c" "input \<noteq> []" "length input \<le> 4095" "room_out \<noteq> 0"
  obtains bs where "rstream_ok bs" "rbits bs = bits_of input" "bs_pos bs = 0" "rb_size (bs_ring bs) = 4096"
    "inflate_loop alloc Z_OK \<lparr>next_in = input, avail_in = of_nat (length input), z_out = [], avail_out = room_out, internal_state = c\<rparr> =
       (case i_run alloc (c\<lparr>i_bs := bs\<rparr>) of
          None \<Rightarrow> None
        | Some (Inl f) \<Rightarrow> Some (Inl f)
        | Some (Inr (ret, c')) \<Rightarrow>
            (case i_after ret \<lparr>next_in = [], avail_in = 0, z_out = [], avail_out = room_out, internal_state = c'\<rparr> of
               (ret, s) \<Rightarrow> inflate_loop alloc ret s))"
proof -
  note new = inf_new_fields [OF assms(1)]
  let ?s = "\<lparr>next_in = input, avail_in = of_nat (length input), z_out = [], avail_out = room_out, internal_state = c\<rparr>"
  have un: "unat (of_nat (length input) :: size_t) = length input" using assms(3) by (intro unat_of_nat64) simp
  then have nz: "(of_nat (length input) :: size_t) \<noteq> 0" using assms(2) by (metis length_0_conv unat_0)
  obtain rb where ci: "i_copy_in ?s = (of_nat (length input), ?s\<lparr>internal_state := c\<lparr>i_bs := (i_bs c)\<lparr>bs_ring := rb\<rparr>\<rparr>, avail_in := 0, next_in := []\<rparr>)"
    "zring_ok rb" "contents rb = input" "rb_size rb = 4096"
    by (rule i_copy_in_all [of ?s]) (use new un assms(2,3) in auto)
  show ?thesis
  proof (rule that [of "(i_bs c)\<lparr>bs_ring := rb\<rparr>"])
    show "rstream_ok ((i_bs c)\<lparr>bs_ring := rb\<rparr>)" "rbits ((i_bs c)\<lparr>bs_ring := rb\<rparr>) = bits_of input" "bs_pos ((i_bs c)\<lparr>bs_ring := rb\<rparr>) = 0"
      "rb_size (bs_ring ((i_bs c)\<lparr>bs_ring := rb\<rparr>)) = 4096"
      using ci new(5) by (simp_all add: rstream_ok_def rbits_def)
    show "inflate_loop alloc Z_OK ?s =
       (case i_run alloc (c\<lparr>i_bs := (i_bs c)\<lparr>bs_ring := rb\<rparr>\<rparr>) of
          None \<Rightarrow> None
        | Some (Inl f) \<Rightarrow> Some (Inl f)
        | Some (Inr (ret, c')) \<Rightarrow>
            (case i_after ret \<lparr>next_in = [], avail_in = 0, z_out = [], avail_out = room_out, internal_state = c'\<rparr> of
               (ret, s) \<Rightarrow> inflate_loop alloc ret s))"
      using nz assms(4) ci(1) by (subst inflate_loop.simps) (simp split: option.split sum.split)
  qed
qed

lemma inflate_stream:
  assumes "inf_new c" "bits_of input = stream_bits flg blks tail" "\<not> bit flg 5" "blks \<noteq> []" "list_all block_ok blks" "length tail = 4"
    and "length input \<le> 4095" "xs = blocks_bytes 32768 [] blks" "length xs \<le> 32767" "length xs \<le> unat room_out" "room_out \<noteq> 0"
  shows "\<exists>s. inflate alloc \<lparr>next_in = input, avail_in = of_nat (length input), z_out = [], avail_out = room_out, internal_state = c\<rparr> flush =
      Some (Inr (if tail = adler_tail xs then Z_STREAM_END else Z_DATA_ERROR, s)) \<and> z_out s = xs \<and> avail_in s = 0 \<and>
      avail_out s = room_out - of_nat (length xs)"
proof -
  let ?s = "\<lparr>next_in = input, avail_in = of_nat (length input), z_out = [], avail_out = room_out, internal_state = c\<rparr>"
  let ?code = "if tail = adler_tail xs then Z_STREAM_END else Z_DATA_ERROR"
  have "length (bits_of input) > 0" using assms(2) by (simp add: stream_bits_def)
  then have ne: "input \<noteq> []" by auto
  obtain bs where bs: "rstream_ok bs" "rbits bs = stream_bits flg blks tail" "bs_pos bs = 0" "rb_size (bs_ring bs) = 4096"
    "inflate_loop alloc Z_OK ?s =
       (case i_run alloc (c\<lparr>i_bs := bs\<rparr>) of
          None \<Rightarrow> None
        | Some (Inl f) \<Rightarrow> Some (Inl f)
        | Some (Inr (ret, c')) \<Rightarrow>
            (case i_after ret \<lparr>next_in = [], avail_in = 0, z_out = [], avail_out = room_out, internal_state = c'\<rparr> of
               (ret, s) \<Rightarrow> inflate_loop alloc ret s))"
    by (rule inflate_first_call [OF assms(1) ne assms(7,11), of alloc]) (use assms(2) in auto)
  obtain c' where c': "i_run alloc (c\<lparr>i_bs := bs\<rparr>) = Some (Inr (?code, c'))" "zring_ok (i_output c')" "contents (i_output c') = xs"
    by (rule stream_run [OF assms(1) bs(1-4) assms(3-6,8,9), of alloc])
  let ?s1 = "\<lparr>next_in = [], avail_in = 0, z_out = [], avail_out = room_out, internal_state = c'\<rparr>"
  obtain k rb' where co: "i_copy_out ?s1 = (k, ?s1\<lparr>internal_state := c'\<lparr>i_output := rb'\<rparr>, avail_out := room_out - of_nat (length xs), z_out := xs\<rparr>)"
    "zring_ok rb'" "contents rb' = []"
    using i_copy_out_all [of ?s1 xs] c'(2,3) assms(10) by auto
  let ?s2 = "\<lparr>next_in = [], avail_in = 0, z_out = xs, avail_out = room_out - of_nat (length xs), internal_state = c'\<lparr>i_output := rb'\<rparr>\<rparr>"
  have code: "?code \<noteq> Z_OK" "?code \<noteq> Z_NEED_MORE" by (simp_all add: Z_STREAM_END_def Z_DATA_ERROR_def Z_OK_def Z_NEED_MORE_def)
  have af: "i_after ?code ?s1 = (?code, ?s2)" using co(1) assms(11) code(2) by (simp add: i_after_def)
  have "inflate_loop alloc Z_OK ?s = inflate_loop alloc ?code ?s2" using bs(5) c'(1) af by simp
  also have "\<dots> = Some (Inr (?code, ?s2))" using code(1) by (subst inflate_loop.simps) simp
  finally have "inflate alloc ?s flush = Some (Inr (?code, ?s2))"
    using z_sizes_zero(1) [OF co(2)] co(3) code(2) by (simp add: inflate_def inflate_ret_def)
  then show ?thesis by (intro exI [of _ ?s2]) simp
qed

section \<open>Properties\<close>

text \<open>
  C3. The decompressor decodes every stream of stored and fixed-code blocks that fits its buffers. One call on a new
  context that is given the whole stream writes exactly the bytes its blocks stand for, literals, matches that reach
  back over earlier blocks and matches that overlap what they write included; it consumes all input, and answers
  \<^verbatim>\<open>Z_STREAM_END\<close> when the trailer is the Adler checksum of these bytes and \<^verbatim>\<open>Z_DATA_ERROR\<close> when it is anything else.
\<close>

theorem inflate_decodes:
  assumes "inf_new c" "bits_of input = stream_bits flg blks tail" "\<not> bit flg 5" "blks \<noteq> []" "list_all block_ok blks" "length tail = 4"
    and "length input \<le> 4095" "length (blocks_bytes 32768 [] blks) \<le> min 32767 (unat room_out)" "room_out \<noteq> 0"
  shows "\<exists>s. inflate alloc \<lparr>next_in = input, avail_in = of_nat (length input), z_out = [], avail_out = room_out, internal_state = c\<rparr> flush =
      Some (Inr (if tail = adler_tail (blocks_bytes 32768 [] blks) then Z_STREAM_END else Z_DATA_ERROR, s)) \<and>
      z_out s = blocks_bytes 32768 [] blks \<and> avail_in s = 0 \<and> avail_out s = room_out - of_nat (length (blocks_bytes 32768 [] blks))"
  using inflate_stream [OF assms(1-7) refl _ _ assms(9)] assms(8) by simp

text \<open>
  C38. The fixed code has symbols that stand for nothing, and \<^verbatim>\<open>inflate\<close> does not check for them: after any tokens of a
  fixed-code block, the length symbols 286 and 287 and the distance symbols 30 and 31 make it read past the end of its
  tables. Four bytes of input are enough.
\<close>

theorem inflate_out_of_bounds:
  assumes "inf_new c" "bits_of input = bits_of [0x78, flg] @ fin # True # False # concat (map (token_bits fixed_lit fixed_dist) ts) @ bad @ rest"
    and "\<not> bit flg 5" "4 \<le> length input" "length input \<le> 4095" "room_out \<noteq> 0"
    and "list_all (token_ok fixed_lit fixed_dist) ts" "length (expand 32768 [] ts) \<le> 32767"
    and "bad \<in> symbol_bits fixed_lit ` {286, 287} \<union>
      {symbol_bits fixed_lit (257 + k) @ map (bit (of_nat e :: u32)) [0..<len_bits k] @ symbol_bits fixed_dist m | k e m.
         k < 29 \<and> e < 2 ^ len_bits k \<and> m \<in> {30, 31}}"
  shows "inflate alloc \<lparr>next_in = input, avail_in = of_nat (length input), z_out = [], avail_out = room_out, internal_state = c\<rparr> flush =
      Some (Inl Z_OUT_OF_BOUNDS)"
proof -
  note new = inf_new_fields [OF assms(1)]
  let ?s = "\<lparr>next_in = input, avail_in = of_nat (length input), z_out = [], avail_out = room_out, internal_state = c\<rparr>"
  let ?T = "concat (map (token_bits fixed_lit fixed_dist) ts)" let ?R = "fin # True # False # ?T @ bad @ rest"
  have ne: "input \<noteq> []" using assms(4) by auto
  obtain bs where bs: "rstream_ok bs" "rbits bs = bits_of [0x78, flg] @ ?R" "bs_pos bs = 0" "rb_size (bs_ring bs) = 4096"
    "\<And>f. i_run alloc (c\<lparr>i_bs := bs\<rparr>) = Some (Inl f) \<Longrightarrow> inflate_loop alloc Z_OK ?s = Some (Inl f)"
    by (rule inflate_first_call [OF assms(1) ne assms(5,6), of alloc]) (use assms(2) in auto)
  have "length (bits_of input) = 16 + length ?R" using assms(2) by (simp only: length_append) simp
  then have len: "16 \<le> length ?R" using assms(4) by simp
  obtain c1 where c1: "i_run alloc (c\<lparr>i_bs := bs\<rparr>) = i_run alloc c1" "rstream_ok (i_bs c1)" "rbits (i_bs c1) = ?R" "i_output c1 = output_ring 32768"
    "rb_size (bs_ring (i_bs c1)) = 4096" "i_state c1 = INF_BLKHDR" "i_last c1 = 0" "i_huff_lit c1 = i_huff_lit c" "i_huff_dist c1 = i_huff_dist c"
    by (rule header_steps [of "c\<lparr>i_bs := bs\<rparr>" flg ?R alloc]) (use bs assms(3) len new in auto)
  have rd: "reading c1 ?R" using c1 new(10,11) window_new by (simp add: reading_def)
  have w: "window (i_output c1) = win 32768 []" "32768 = unat (rb_size (i_output c1))" "32768 \<le> (32768 :: nat)"
    "length (expand 32768 [] ts) \<le> room (i_output c1)"
    using c1(4) window_new assms(8) by simp_all
  obtain c2 where c2: "i_run alloc c1 = i_run alloc c2" "reading c2 (bad @ rest)" "coded fixed_lit fixed_dist c2"
    "i_state c2 = INF_HUFCOD" "i_hufcode_char c2 = - 1"
    by (rule fixed_tokens_run [OF rd c1(6,7) assms(7) w, of alloc])
  have "i_run alloc c2 = Some (Inl Z_OUT_OF_BOUNDS)"
  proof (cases "bad \<in> symbol_bits fixed_lit ` {286, 287}")
    case True
    then show ?thesis using bad_length_step [OF _ c2(3-5)] c2(2) by blast
  next
    case False
    then obtain k e m where b: "bad = symbol_bits fixed_lit (257 + k) @ map (bit (of_nat e :: u32)) [0..<len_bits k] @ symbol_bits fixed_dist m"
      "k < 29" "e < 2 ^ len_bits k" "m \<in> {30, 31}" using assms(9) by blast
    have rd2: "reading c2 (symbol_bits fixed_lit (257 + k) @ map (bit (of_nat e :: u32)) [0..<len_bits k] @ (symbol_bits fixed_dist m @ rest))"
      using c2(2) b(1) by simp
    have k: "257 + k < length fixed_lit" "fixed_lit ! (257 + k) \<noteq> 0" using b(2) fixed_nonzero(1) [of "257 + k"] by (simp_all add: fixed_nonzero(2))
    obtain c3 where c3: "i_run alloc c2 = i_run alloc c3" "reading c3 (symbol_bits fixed_dist m @ rest)" "keeps c2 c3" "i_state c3 = INF_HUFDST"
      by (rule length_step [OF rd2 c2(3-5) b(2) k b(3)])
    show ?thesis using bad_distance_step [OF c3(2) coded_keeps [OF c2(3) c3(3)] c3(4) b(4)] c3(1) by simp
  qed
  then show ?thesis using bs(5) c1(1) c2(1) by (simp add: inflate_def)
qed


lemma fixed_code:
  "s < 144 \<Longrightarrow> symbol_bits fixed_lit s = code_bits 8 (48 + s)"
  "256 \<le> s \<Longrightarrow> s < 280 \<Longrightarrow> symbol_bits fixed_lit s = code_bits 7 (s - 256)"
  "280 \<le> s \<Longrightarrow> s < 288 \<Longrightarrow> symbol_bits fixed_lit s = code_bits 8 (s - 88)"
  "m < 32 \<Longrightarrow> symbol_bits fixed_dist m = code_bits 5 m"
proof -
  have z: "count_list (replicate n x) y = (if x = y then n else 0)" for n and x y :: nat by (rule count_list_replicate)
  have L: "fixed_lit ! s = (if s < 144 then 8 else if s < 256 then 9 else if s < 280 then 7 else 8)" if "s < 288"
    using that by (auto simp: fixed_lit_def nth_append)
  show "s < 144 \<Longrightarrow> symbol_bits fixed_lit s = code_bits 8 (48 + s)"
    by (simp add: symbol_bits_def L code_def rank_def base_numeral cnt_def z) (simp add: fixed_lit_def z)
  show "256 \<le> s \<Longrightarrow> s < 280 \<Longrightarrow> symbol_bits fixed_lit s = code_bits 7 (s - 256)"
    by (simp add: symbol_bits_def L code_def rank_def base_numeral cnt_def z) (simp add: fixed_lit_def z)
  show "280 \<le> s \<Longrightarrow> s < 288 \<Longrightarrow> symbol_bits fixed_lit s = code_bits 8 (s - 88)"
    by (simp add: symbol_bits_def L code_def rank_def base_numeral cnt_def z) (simp add: fixed_lit_def z)
  show "m < 32 \<Longrightarrow> symbol_bits fixed_dist m = code_bits 5 m"
    by (simp add: symbol_bits_def fixed_dist_def code_def rank_def base_numeral cnt_def z)
qed

lemma demo_out_of_bounds_bits:
  "bits_of [0x78, 0x9C, 0x1B, 3] = bits_of [0x78, 0x9C] @ True # True # False # symbol_bits fixed_lit 286 @ [False, False, False, False, False]"
  by (simp add: fixed_code byte_bits_def code_bits_def upt_rec bit_simps)

theorem inflate_out_of_bounds_witness:
  "inflate (\<lambda>n. True) \<lparr>next_in = [0x78, 0x9C, 0x1B, 3], avail_in = 4, z_out = [], avail_out = 100, internal_state = demo_inf\<rparr> 0 =
     Some (Inl Z_OUT_OF_BOUNDS)"
  using inflate_out_of_bounds [where c = demo_inf and input = "[0x78, 0x9C, 0x1B, 3]" and flg = "0x9C" and ts = "[]" and bad = "symbol_bits fixed_lit 286"
      and fin = True and rest = "[False, False, False, False, False]" and room_out = 100]
    demo_inf_init demo_out_of_bounds_bits by (simp add: inf_new_def bit_simps)

text \<open>Eight times the letter a, as two literals and a match of length 6 at distance 1.\<close>

lemma demo_stream_bits:
  "bits_of [0x78, 0x9C, 0x4B, 0x4C, 0x84, 0, 0, 0x0D, 0xAC, 3, 9] = stream_bits 0x9C [Fixed [Literal 97, Literal 97, Match 3 0 0 0]] [0x0D, 0xAC, 3, 9]"
  by (simp add: stream_bits_def len_bits_def dist_bits_def fixed_code byte_bits_def code_bits_def upt_rec bit_simps) (simp add: numeral_2_eq_2)


lemma copy_back_numeral: "copy_back N h d (numeral n) = at_dist N h d # copy_back N (h @ [at_dist N h d]) d (pred_numeral n)"
  by (simp add: numeral_eq_Suc)

lemma demo_bytes: "blocks_bytes 32768 [] [Fixed [Literal 97, Literal 97, Match 3 0 0 0]] = [97, 97, 97, 97, 97, 97, 97, 97]"
  by (simp add: len_base_def dist_base_def at_dist_def copy_back_numeral nth_append)

lemma demo_tail: "adler_tail [97, 97, 97, 97, 97, 97, 97, 97] = [0x0D, 0xAC, 3, 9]"
  by (simp add: adler_tail_def Let_def len32_def adler32_def)

lemma demo_blocks_ok: "list_all block_ok [Fixed [Literal 97, Literal 97, Match 3 0 0 0]]"
  by (simp add: fixed_nonzero fixed_dist_def len_bits_def dist_bits_def)

theorem inflate_decodes_witness:
  "\<exists>s. inflate (\<lambda>n. True) \<lparr>next_in = [0x78, 0x9C, 0x4B, 0x4C, 0x84, 0, 0, 0x0D, 0xAC, 3, 9], avail_in = 11, z_out = [], avail_out = 8,
      internal_state = demo_inf\<rparr> 0 = Some (Inr (Z_STREAM_END, s)) \<and> z_out s = [97, 97, 97, 97, 97, 97, 97, 97] \<and> avail_in s = 0 \<and> avail_out s = 0"
  using inflate_decodes [OF _ demo_stream_bits _ _ demo_blocks_ok, where c = demo_inf and room_out = 8 and alloc = "\<lambda>n. True" and flush = 0] demo_inf_init
  unfolding demo_bytes demo_tail by (simp add: inf_new_def bit_simps)

text \<open>The same stream, for the property that every call ends: this one without a fault.\<close>

theorem inflate_returns_witness:
  "\<exists>s'. inflate (\<lambda>n. True) \<lparr>next_in = [0x78, 0x9C, 0x4B, 0x4C, 0x84, 0, 0, 0x0D, 0xAC, 3, 9], avail_in = 11, z_out = [], avail_out = 100,
      internal_state = demo_inf\<rparr> 0 = Some (Inr (Z_STREAM_END, s')) \<and>
    inf_ok (internal_state s') \<and> next_in s' = [] \<and> length (z_out s') + unat (avail_out s') = 100"
proof -
  let ?s = "\<lparr>next_in = [0x78, 0x9C, 0x4B, 0x4C, 0x84, 0, 0, 0x0D, 0xAC, 3, 9], avail_in = 11, z_out = [], avail_out = 100,
      internal_state = demo_inf\<rparr>"
  have "\<exists>s'. inflate (\<lambda>n. True) ?s 0 = Some (Inr (Z_STREAM_END, s')) \<and> avail_in s' = 0"
    using inflate_stream [OF _ demo_stream_bits _ _ demo_blocks_ok _ _ demo_bytes [symmetric], where c = demo_inf and room_out = 100 and alloc = "\<lambda>n. True" and flush = 0]
      demo_inf_init by (auto simp: inf_new_def bit_simps demo_tail)
  then obtain s' where s': "inflate (\<lambda>n. True) ?s 0 = Some (Inr (Z_STREAM_END, s'))" "avail_in s' = 0" by blast
  from inflate_returns [of ?s "\<lambda>n. True" 0] demo_inf_init s' show ?thesis by auto
qed

end
