(* ===== verification/Spec2Isabelle.thy ===== *)
theory Spec2Isabelle
  imports Ktime Pipe Cstring Endian Utf Lock Zstream
begin

text \<open>
  Verification of parts of the Uwuntu operating system: the kernel's copying, buffering, scheduling, locking and text
  routines, and the compression library its programs use. The model is of the 64-bit little-endian build.

  \<^bold>\<open>The parts and how they interact.\<close> A system call that moves data describes it by a \<^verbatim>\<open>struct uio\<close>; \<^verbatim>\<open>kern/uio.c\<close> copies
  it segment by segment, through \<^verbatim>\<open>mem/copy.c\<close> when the segments are user memory. Pipes (\<^verbatim>\<open>kern/pipe.c\<close> on
  \<^verbatim>\<open>kern/pipebuf.c\<close>) keep bytes in a ring (\<^verbatim>\<open>kern/ringbuf.c\<close>) that is filled and drained through a uio, and their readers and
  writers sleep on wait queues (\<^verbatim>\<open>kern/waitq.c\<close>), which the scheduler (\<^verbatim>\<open>kern/sched.c\<close>) serves. Mutexes and read-write locks
  (\<^verbatim>\<open>kern/mutex.c\<close>, \<^verbatim>\<open>kern/rwlock.c\<close>) use the same wait queues. Timers and time values (\<^verbatim>\<open>kern/timer.c\<close>, \<^verbatim>\<open>kern/time.c\<close>,
  \<^verbatim>\<open>net/include/time.h\<close>) order the timeouts. The memory, string, byte order and Unicode routines stand by themselves. The
  compression library (\<^verbatim>\<open>lib/libz\<close>) has two state machines, \<^verbatim>\<open>deflate\<close> and \<^verbatim>\<open>inflate\<close>, that meet their callers through rings
  and read and write them as bit streams.

  \<^bold>\<open>Which theory models what.\<close>
  \<^item> \<open>Prelude\<close>: machine types, error codes, the list idioms of the \<^verbatim>\<open>TAILQ\<close> macros, and the locale \<open>invariant_system\<close> of a
    step relation with an invariant. \<open>Kmem\<close>: byte-addressed memory.
  \<^item> \<open>Ucopy\<close> (\<^verbatim>\<open>mem/copy.c\<close>): \<open>uspace\<close> is the user part of a \<^verbatim>\<open>struct vm_space\<close>. What \<^verbatim>\<open>arch_vm_populate_page\<close> answers is its field
    \<open>populate\<close>, since the page tables are the architecture's. Copies are exact, round trips leave everything else alone,
    string copies end, and the check of a string array is shown to let bad strings through.
  \<^item> \<open>Uio\<close> (\<^verbatim>\<open>kern/uio.c\<close>), \<open>Ringbuf\<close> (\<^verbatim>\<open>kern/ringbuf.c\<close>), \<open>Pipe\<close> (\<^verbatim>\<open>kern/pipebuf.c\<close>, \<^verbatim>\<open>kern/pipe.c\<close>): the transfers gather and scatter
    exactly the bytes they say; a ring is a bounded queue (locale \<open>byte_queue\<close>, interpreted on the kernel's ring here
    and on the library's in \<open>Zring\<close>); blocking reads and writes deliver in order whatever other threads do while they sleep.
  \<^item> \<open>Ktime\<close>: arithmetic and order of time values, the clock registry and the timer queue.
  \<^item> \<open>Sched\<close> (\<^verbatim>\<open>kern/sched.c\<close>, \<^verbatim>\<open>kern/waitq.c\<close>): one state for threads, processors, run queues, wait queues and timeouts.
    \<open>sched_wf\<close> is its invariant; waking refines a first-in first-out queue, loses no thread, and expired sleeps end with
    \<^verbatim>\<open>-EWOULDBLOCK\<close>. Two defects of the scheduler are shown on the model.
  \<^item> \<open>Lock\<close> (\<^verbatim>\<open>net/include/spinlock.h\<close>, \<^verbatim>\<open>kern/mutex.c\<close>, \<^verbatim>\<open>kern/rwlock.c\<close>, \<^verbatim>\<open>net/include/refcount.h\<close>): the calls of all threads interleave
    in the step relations \<open>mutex_step\<close> and \<open>rwlock_step\<close>; exclusion and the absence of lost wake-ups are invariants, proved through
    \<open>invariant_system\<close>.
  \<^item> \<open>Cmem\<close>, \<open>Cstring\<close> (\<^verbatim>\<open>kern/string.c\<close>, \<^verbatim>\<open>kern/ctype.c\<close>, \<^verbatim>\<open>kern/stdlib.c\<close>), \<open>Endian\<close> (\<^verbatim>\<open>net/include/endian.h\<close>), \<open>Utf\<close>
    (\<^verbatim>\<open>net/include/utf8.h\<close>, \<^verbatim>\<open>net/include/utf16.h\<close>): the word-at-a-time loops end and do what their plain versions would; encodings
    round-trip, and where they do not, the exact condition is proved.
  \<^item> \<open>Zsum\<close>, \<open>Zring\<close>, \<open>Zhuff\<close> (\<^verbatim>\<open>crc32.c\<close>, \<^verbatim>\<open>adler32.c\<close>, \<^verbatim>\<open>ringbuf.h\<close>, \<^verbatim>\<open>bitstream.h\<close>, \<^verbatim>\<open>huffman.c\<close> of \<^verbatim>\<open>lib/libz/src\<close>): the table-driven CRC is
    polynomial division, bit fields read back as written, and the decoder inverts the canonical code of any list of
    lengths.
  \<^item> \<open>Zdeflate\<close> (\<^verbatim>\<open>deflate.c\<close>): \<open>def_ctx\<close> is \<^verbatim>\<open>struct ctx\<close>, one function per handler, \<open>d_run\<close> and \<open>deflate_loop\<close> the two loops. A finishing call
    writes a complete stream for 1 to 4084 bytes, and loses the checksum for 4085 to 4088.
  \<^item> \<open>Zinflate\<close> (\<^verbatim>\<open>inflate.c\<close>): \<open>inf_ctx\<close> is \<^verbatim>\<open>struct ctx\<close>, again one function per handler. \<open>Zinv\<close>: the context's invariant \<open>inf_ok\<close>, kept by every
    handler, and that no call runs forever. \<open>Zblock\<close>, \<open>Zlz\<close>, \<open>Zstream\<close>: a reference definition of streams of stored and
    fixed-code blocks, with the tables of RFC 1951 given by their rule, and that a call decodes every such stream. Below, the round trip
    of the two machines.

  \<^bold>\<open>How code becomes definitions.\<close> A struct is a record, an enum a datatype, \<^verbatim>\<open>size_t\<close> a 64-bit word that wraps; \<^verbatim>\<open>time_t\<close> is an integer, since its
  overflow is undefined. Errors are left injections or an optional \<open>errno\<close>. Calls that panic or follow a null pointer
  (\<open>fault\<close> in \<open>Sched\<close>), or leave an array (\<open>z_fault\<close> in \<open>Zinflate\<close>), end in a value of their own. A call that sleeps is split at the sleep, or is
  given what it finds when it wakes up.

  \<^bold>\<open>Bounds and fuel.\<close> No definition takes fuel. Loops are recursive functions with a termination proof or partial functions whose
  value \<open>None\<close> is a loop that runs forever; for the latter the properties state that a result exists. The bounds in the
  properties are the code's own: 4096 bytes of input ring and 32768 bytes of window in \<open>Zdeflate\<close> and \<open>Zstream\<close>, which make 4095 and 32767 the most
  one call takes in and gives out at once, and 4084 the most that leaves room for header and trailer.

  \<^bold>\<open>What is not modelled.\<close> Address spaces, page frames and the kernel's allocators, whose metadata lies in the memory they manage; processes,
  program loading, signals and the system call table; files, file systems, sockets and the network stack, which call through
  tables of function pointers; terminals, drivers, buses, firmware tables and the architecture code, which are device and register access;
  formatted output; the user libraries other than the compression library, and \<^verbatim>\<open>gzip.c\<close> in it, which is file input and output; and the
  programs. Memory ordering of the atomic operations is not represented: each is one step. Blocks in a dynamic Huffman code are
  part of the model of \<^verbatim>\<open>inflate\<close>, of its invariant and of its termination, but not of the reference definition of streams.
\<close>

section \<open>Compression and decompression\<close>

lemma zlib_stored_stream: "bits_of (zlib_stored xs) = stream_bits 0x9C [Stored xs] (adler_tail xs)"
proof -
  have "map (bit (0x9C78 :: u32)) [0..<16] = bits_of [0x78, 0x9C]" by (simp add: byte_bits_def upt_rec)
  moreover have "replicate 5 False = map (bit (0 :: u32)) [0..<5]" by (simp add: upt_rec numeral_eq_Suc)
  moreover have "map (bit (0 :: u32)) [0..<2] = [False, False]" by (simp add: upt_rec)
  ultimately show ?thesis
    unfolding zlib_stored_def stream_bits_def by (simp add: stored_head_bits bit_simps)
qed

text \<open>
  C4. What the compressor writes the decompressor reads back: the stream that one \<^verbatim>\<open>deflate\<close> call with \<^verbatim>\<open>Z_FINISH\<close> makes of
  1 to 4084 bytes, given to one \<^verbatim>\<open>inflate\<close> call with room for the data, comes out as the same bytes with \<^verbatim>\<open>Z_STREAM_END\<close>, so
  the checksums of the two sides agree as well.
\<close>

theorem deflate_inflate:
  assumes "def_new d" "inf_new c" "xs \<noteq> []" "length xs \<le> 4084" "length xs + 11 \<le> unat room1" "length xs \<le> unat room2"
  shows "\<exists>s s'. deflate \<lparr>next_in = xs, avail_in = of_nat (length xs), z_out = [], avail_out = room1, internal_state = d\<rparr> Z_FINISH =
      Some (Z_STREAM_END, s) \<and>
    inflate alloc \<lparr>next_in = z_out s, avail_in = of_nat (length (z_out s)), z_out = [], avail_out = room2, internal_state = c\<rparr> flush =
      Some (Inr (Z_STREAM_END, s')) \<and> z_out s' = xs \<and> avail_in s' = 0"
proof -
  obtain s where s: "deflate \<lparr>next_in = xs, avail_in = of_nat (length xs), z_out = [], avail_out = room1, internal_state = d\<rparr> Z_FINISH =
      Some (Z_STREAM_END, s)" "z_out s = zlib_stored xs" using deflate_stored_out [OF assms(1,3-5)] by blast
  have len: "length (zlib_stored xs) \<le> 4095" "length (adler_tail xs) = 4"
    using assms(4) by (simp_all add: zlib_stored_def stored_head_def adler_tail_def Let_def)
  have "room2 \<noteq> 0" using assms(3,6) by auto
  then have "\<exists>s'. inflate alloc \<lparr>next_in = zlib_stored xs, avail_in = of_nat (length (zlib_stored xs)), z_out = [], avail_out = room2,
      internal_state = c\<rparr> flush = Some (Inr (if adler_tail xs = adler_tail xs then Z_STREAM_END else Z_DATA_ERROR, s')) \<and>
      z_out s' = xs \<and> avail_in s' = 0 \<and> avail_out s' = room2 - of_nat (length xs)"
    using assms(4,6) len by (intro inflate_stream [OF assms(2) zlib_stored_stream]) (simp_all add: bit_simps)
  then show ?thesis using s by auto
qed

theorem deflate_inflate_witness:
  "\<exists>s s'. deflate \<lparr>next_in = [72, 105], avail_in = 2, z_out = [], avail_out = 100, internal_state = demo_ctx\<rparr> Z_FINISH = Some (Z_STREAM_END, s) \<and>
     inflate (\<lambda>n. True) \<lparr>next_in = z_out s, avail_in = of_nat (length (z_out s)), z_out = [], avail_out = 2, internal_state = demo_inf\<rparr> 0 =
       Some (Inr (Z_STREAM_END, s')) \<and> z_out s' = [72, 105] \<and> avail_in s' = 0"
  using deflate_inflate [OF demo_ctx_new _ , of demo_inf "[72, 105]" 100 2 "\<lambda>n. True" 0] demo_inf_init by (simp add: inf_new_def)

end
